theory Spec2Isabelle
  imports Complex_Main
begin

section \<open>Numbers, strings and the library types the service uses\<close>

text \<open>
  A JavaScript \<open>number\<close> is modelled as a real: the arithmetic of
  \<open>simulation.service.ts\<close> and \<open>models.ts\<close> is read as exact arithmetic.
  \<open>Math.round\<close> rounds to the nearest integer, a half upwards; \<open>%\<close> is the
  remainder of the division truncated towards zero, so it has the sign of the dividend.
\<close>

definition js_round :: "real \<Rightarrow> real" where
  "js_round v = real_of_int \<lfloor>v + 1 / 2\<rfloor>"

definition js_trunc :: "real \<Rightarrow> int" where
  "js_trunc q = (if 0 \<le> q then \<lfloor>q\<rfloor> else \<lceil>q\<rceil>)"

definition js_rem :: "real \<Rightarrow> real \<Rightarrow> real" where
  "js_rem a b = a - b * real_of_int (js_trunc (a / b))"

text \<open>
  \<open>Math.random()\<close> returns a number in \<open>[0, 1)\<close>: a draw is a value of the type
  \<open>rnd\<close>, read with \<open>Rep_rnd\<close>.
\<close>

typedef rnd = "{r :: real. 0 \<le> r \<and> r < 1}"
  by (rule exI [of _ 0]) simp

setup_lifting type_definition_rnd

lift_definition mk_rnd :: "real \<Rightarrow> rnd" is "\<lambda>r. if 0 \<le> r \<and> r < 1 then r else 0"
  by simp

text \<open>Template literals print an integer in decimal.\<close>

definition digit_char :: "nat \<Rightarrow> char" where
  \<comment> \<open>The decimal digit of \<open>d\<close>, for \<open>d\<close> below ten.\<close>
  "digit_char d = ''0123456789'' ! (d mod 10)"

fun show_nat :: "nat \<Rightarrow> string" where
  "show_nat n =
     (if n < 10 then [digit_char n] else show_nat (n div 10) @ [digit_char (n mod 10)])"

declare show_nat.simps [simp del]

definition show_int :: "int \<Rightarrow> string" where
  "show_int i = (if i < 0 then CHR ''-'' # show_nat (nat (- i)) else show_nat (nat i))"

text \<open>\<open>THREE.Vector3\<close>, with the methods the service calls.\<close>

record vec3 =
  vx :: real
  vy :: real
  vz :: real

definition vec :: "real \<Rightarrow> real \<Rightarrow> real \<Rightarrow> vec3" where
  "vec a b c = \<lparr>vx = a, vy = b, vz = c\<rparr>"

definition multiplyScalar :: "real \<Rightarrow> vec3 \<Rightarrow> vec3" where
  "multiplyScalar k v = \<lparr>vx = vx v * k, vy = vy v * k, vz = vz v * k\<rparr>"

definition addv :: "vec3 \<Rightarrow> vec3 \<Rightarrow> vec3" where
  "addv v w = \<lparr>vx = vx v + vx w, vy = vy v + vy w, vz = vz v + vz w\<rparr>"

definition lengthSq :: "vec3 \<Rightarrow> real" where
  "lengthSq v = vx v * vx v + vy v * vy v + vz v * vz v"

definition lengthv :: "vec3 \<Rightarrow> real" where
  "lengthv v = sqrt (lengthSq v)"

definition normalize :: "vec3 \<Rightarrow> vec3" where
  \<comment> \<open>\<open>divideScalar(this.length() || 1)\<close>: the zero vector stays zero.\<close>
  "normalize v = multiplyScalar (1 / (if lengthv v = 0 then 1 else lengthv v)) v"

definition crossVectors :: "vec3 \<Rightarrow> vec3 \<Rightarrow> vec3" where
  "crossVectors a b =
     \<lparr>vx = vy a * vz b - vz a * vy b,
      vy = vz a * vx b - vx a * vz b,
      vz = vx a * vy b - vy a * vx b\<rparr>"

text \<open>\<open>THREE.Quaternion\<close>: the orientation of the grid.\<close>

record quat =
  qx :: real
  qy :: real
  qz :: real
  qw :: real

definition quat_identity :: quat where
  "quat_identity = \<lparr>qx = 0, qy = 0, qz = 0, qw = 1\<rparr>"

definition setFromAxisAngle :: "vec3 \<Rightarrow> real \<Rightarrow> quat" where
  "setFromAxisAngle axis angle =
     \<lparr>qx = vx axis * sin (angle / 2), qy = vy axis * sin (angle / 2),
      qz = vz axis * sin (angle / 2), qw = cos (angle / 2)\<rparr>"

definition premultiply :: "quat \<Rightarrow> quat \<Rightarrow> quat" where
  \<comment> \<open>\<open>q.premultiply(d)\<close> is the product \<open>d * q\<close>.\<close>
  "premultiply d q =
     \<lparr>qx = qx d * qw q + qw d * qx q + qy d * qz q - qz d * qy q,
      qy = qy d * qw q + qw d * qy q + qz d * qx q - qx d * qz q,
      qz = qz d * qw q + qw d * qz q + qx d * qy q - qy d * qx q,
      qw = qw d * qw q - qx d * qx q - qy d * qy q - qz d * qz q\<rparr>"

text \<open>\<open>THREE.Color\<close> as its three channels, with \<open>add\<close>, \<open>multiplyScalar\<close> and \<open>lerp\<close>.\<close>

record color =
  col_r :: real
  col_g :: real
  col_b :: real

definition color_black :: color where
  "color_black = \<lparr>col_r = 0, col_g = 0, col_b = 0\<rparr>"

definition color_add :: "color \<Rightarrow> color \<Rightarrow> color" where
  "color_add a c = \<lparr>col_r = col_r a + col_r c, col_g = col_g a + col_g c, col_b = col_b a + col_b c\<rparr>"

definition color_scale :: "real \<Rightarrow> color \<Rightarrow> color" where
  "color_scale k c = \<lparr>col_r = col_r c * k, col_g = col_g c * k, col_b = col_b c * k\<rparr>"

definition color_lerp :: "color \<Rightarrow> color \<Rightarrow> real \<Rightarrow> color" where
  "color_lerp c target alpha =
     \<lparr>col_r = col_r c + (col_r target - col_r c) * alpha,
      col_g = col_g c + (col_g target - col_g c) * alpha,
      col_b = col_b c + (col_b target - col_b c) * alpha\<rparr>"

section \<open>core/models.ts\<close>

datatype wave_pattern = Sine | Chaos | Pulse

record intersection_node =
  nid :: string
  position :: vec3
  frequency :: real
  baseColor :: "real \<times> real \<times> real"
  intensity :: real
  isCorner :: bool

record particle_state =
  pid :: string
  baseFrequency :: real
  locationalFrequency :: real
  harmonicFactor :: real
  amplitude :: real
  energyLevel :: real
  pattern :: wave_pattern
  pcolor :: color
  targetNodeId :: "string option"

record collision_event =
  ce_id :: string
  ce_nodeId :: string
  ce_particleIds :: "string list"
  ce_timestamp :: nat

record supernova_event =
  sn_id :: string
  sn_position :: vec3
  sn_timestamp :: nat

text \<open>\<open>SIM_CONFIG\<close>.\<close>

definition GRID_SIZE :: nat where "GRID_SIZE = 7"
definition SPACING :: real where "SPACING = 4"
definition FREQ_LOW :: real where "FREQ_LOW = 100"
definition FREQ_HIGH :: real where "FREQ_HIGH = 999"
definition DEFAULT_AMPLITUDE :: real where "DEFAULT_AMPLITUDE = 4 / 10"
definition MAX_PARTICLES :: nat where "MAX_PARTICLES = 8"

definition calculateNodeFrequency :: "vec3 \<Rightarrow> real" where
  "calculateNodeFrequency pos =
     (let xComp = (vx pos + 20) * (15 / 10);
          yComp = (vy pos + 20) * 10;
          zComp = (vz pos + 20) * (5 / 10)
      in js_round (FREQ_LOW + js_rem (xComp + yComp + zComp) (FREQ_HIGH - FREQ_LOW)))"

section \<open>services/simulation.service.ts: the state\<close>

text \<open>
  A callback handed to \<open>setTimeout\<close> is a pending task with the time it is due at
  (the time of the call plus the delay); \<open>Date.now()\<close> is the field \<open>clock\<close>.
\<close>

datatype task = RemoveCollision string | RemoveSupernova string | ReplacementSpawn

record sim_state =
  nodes :: "intersection_node list"
  particles :: "particle_state list"
  collisionEvents :: "collision_event list"
  supernovaEvents :: "supernova_event list"
  gridRotation :: quat
  gridAngularVelocity :: vec3
  timers :: "(nat \<times> task) list"
  clock :: nat

definition setTimeout :: "task \<Rightarrow> nat \<Rightarrow> sim_state \<Rightarrow> sim_state" where
  "setTimeout tk delay s = s\<lparr>timers := timers s @ [(clock s + delay, tk)]\<rparr>"

definition globalAmplitude :: "sim_state \<Rightarrow> real" where
  "globalAmplitude s =
     (if particles s = [] then 0
      else foldl (\<lambda>acc p. acc + amplitude p) 0 (particles s) / real (length (particles s)))"

subsection \<open>initializeNodes\<close>

definition lattice_node :: "int \<Rightarrow> int \<Rightarrow> int \<Rightarrow> int \<Rightarrow> intersection_node" where
  "lattice_node half x y z =
     (let pos = vec (real_of_int x * SPACING) (real_of_int y * SPACING) (real_of_int z * SPACING);
          freq = calculateNodeFrequency pos
      in \<lparr>nid = show_int x @ ''_'' @ show_int y @ ''_'' @ show_int z,
          position = pos,
          frequency = freq,
          baseColor = (js_rem freq 360 / 360, 7 / 10, 5 / 10),
          intensity = 2 / 10,
          isCorner = (\<bar>x\<bar> = half \<and> \<bar>y\<bar> = half \<and> \<bar>z\<bar> = half)\<rparr>)"

definition generate_nodes :: "nat \<Rightarrow> intersection_node list" where
  \<comment> \<open>The three nested loops, \<open>x\<close> outermost, each from \<open>-half\<close> to \<open>half\<close>.\<close>
  "generate_nodes grid_size =
     (let half = int (grid_size div 2)
      in concat (map (\<lambda>x. concat (map (\<lambda>y. map (\<lambda>z. lattice_node half x y z) [- half..half])
                                       [- half..half]))
                     [- half..half]))"

definition initializeNodes :: "sim_state \<Rightarrow> sim_state" where
  "initializeNodes s = s\<lparr>nodes := generate_nodes GRID_SIZE\<rparr>"

subsection \<open>findNearestNode, updateTargetNodes\<close>

definition findNearestNode :: "intersection_node list \<Rightarrow> real \<Rightarrow> intersection_node option" where
  \<comment> \<open>\<open>reduce\<close> without an initial value starts from the first node.\<close>
  "findNearestNode ns freq =
     (case ns of
        [] \<Rightarrow> None
      | n # rest \<Rightarrow>
          Some (foldl (\<lambda>prev curr.
                  if \<bar>frequency curr - freq\<bar> < \<bar>frequency prev - freq\<bar> then curr else prev)
                n rest))"

definition id_or_null :: "intersection_node option \<Rightarrow> string option" where
  \<comment> \<open>\<open>node?.id || null\<close>: the empty string is falsy.\<close>
  "id_or_null r = (case r of None \<Rightarrow> None | Some n \<Rightarrow> (if nid n = [] then None else Some (nid n)))"

definition updateTargetNodes :: "sim_state \<Rightarrow> sim_state" where
  "updateTargetNodes s =
     s\<lparr>particles :=
          map (\<lambda>p. p\<lparr>targetNodeId := id_or_null (findNearestNode (nodes s) (locationalFrequency p))\<rparr>)
              (particles s)\<rparr>"

subsection \<open>spawnParticle\<close>

text \<open>
  What a call of \<open>spawnParticle\<close> draws from \<open>Math.random()\<close>: the choice of the
  node and the jitter (or the fallback frequency), the id
  \<open>Math.random().toString(36).substring(2, 9)\<close> and the colour
  \<open>setHSL(Math.random(), 0.8, 0.6)\<close>, both taken as drawn.
\<close>

record spawn_draws =
  rnd_pick :: rnd
  rnd_jitter :: rnd
  rnd_fallback :: rnd
  new_id :: string
  new_color :: color

definition spawn_frequency :: "vec3 option \<Rightarrow> spawn_draws \<Rightarrow> intersection_node list \<Rightarrow> real" where
  "spawn_frequency pos d ns =
     (case pos of
        Some v \<Rightarrow> calculateNodeFrequency v
      | None \<Rightarrow>
          (let nonCornerNodes = filter (\<lambda>n. \<not> isCorner n) ns
           in if length nonCornerNodes > 0
              then (let randomNode =
                          nonCornerNodes ! nat \<lfloor>Rep_rnd (rnd_pick d) * real (length nonCornerNodes)\<rfloor>
                    in frequency randomNode + (Rep_rnd (rnd_jitter d) - 5 / 10) * 10)
              else 200 + Rep_rnd (rnd_fallback d) * 600))"

definition newParticle :: "real \<Rightarrow> spawn_draws \<Rightarrow> particle_state" where
  "newParticle freq d =
     \<lparr>pid = new_id d,
      baseFrequency = freq,
      locationalFrequency = freq,
      harmonicFactor = 1,
      amplitude = DEFAULT_AMPLITUDE,
      energyLevel = 1 / 10,
      pattern = Sine,
      pcolor = new_color d,
      targetNodeId = None\<rparr>"

definition spawnParticle :: "vec3 option \<Rightarrow> spawn_draws \<Rightarrow> sim_state \<Rightarrow> sim_state" where
  "spawnParticle pos d s =
     (if length (particles s) \<ge> MAX_PARTICLES then s
      else updateTargetNodes
             (s\<lparr>particles := particles s @ [newParticle (spawn_frequency pos d (nodes s)) d]\<rparr>))"

subsection \<open>processFieldDynamics\<close>

text \<open>
  What one tick draws: \<open>drift_draw d i\<close> is the \<open>Math.random()\<close> of the drift of the
  \<open>i\<close>-th particle of the list, \<open>stabilize_draws d\<close> what the spawn of the threshold
  rule draws.
\<close>

record tick_draws =
  drift_draw :: "nat \<Rightarrow> rnd"
  stabilize_draws :: spawn_draws

definition drift_particle ::
  "intersection_node list \<Rightarrow> vec3 \<Rightarrow> rnd \<Rightarrow> particle_state \<Rightarrow> particle_state" where
  "drift_particle ns angularVel r p =
     (let drift0 = (Rep_rnd r - 5 / 10) * 4;
          drift =
            (if lengthSq angularVel > 1 / 1000000
             then (case find (\<lambda>n. Some (nid n) = targetNodeId p) ns of
                     None \<Rightarrow> drift0
                   | Some targetNode \<Rightarrow>
                       (let influenceVec = crossVectors angularVel (position targetNode);
                            rotationalDrift =
                              (vx influenceVec + vy influenceVec + vz influenceVec) * 25
                        in drift0 + rotationalDrift))
             else drift0);
          newFreq = max 100 (min 999 (locationalFrequency p + drift));
          decayedAmp = max DEFAULT_AMPLITUDE (amplitude p - 5 / 1000);
          decayedHarmonic = max 1 (harmonicFactor p - 2 / 100);
          decayedEnergy = max (1 / 10) (energyLevel p - 2 / 1000)
      in p\<lparr>locationalFrequency := newFreq, amplitude := decayedAmp,
            harmonicFactor := decayedHarmonic, energyLevel := decayedEnergy\<rparr>)"

text \<open>
  \<open>nodeOccupancy\<close> is a \<open>Map\<close> from node ids to particle ids; it is iterated in the
  order its keys were inserted, so it is an association list in that order.
\<close>

type_synonym occupancy = "(string \<times> string list) list"

fun occ_push :: "string \<Rightarrow> string \<Rightarrow> occupancy \<Rightarrow> occupancy" where
  "occ_push k v [] = [(k, [v])]"
| "occ_push k v ((k', vs) # rest) =
     (if k' = k then (k', vs @ [v]) # rest else (k', vs) # occ_push k v rest)"

fun assign_targets ::
  "intersection_node list \<Rightarrow> particle_state list \<Rightarrow> occupancy \<Rightarrow> particle_state list \<times> occupancy"
where
  "assign_targets ns [] occ = ([], occ)"
| "assign_targets ns (p # ps) occ =
     (case findNearestNode ns (locationalFrequency p) of
        None \<Rightarrow> (let (ps', occ') = assign_targets ns ps occ in (p # ps', occ'))
      | Some target \<Rightarrow>
          (let (ps', occ') = assign_targets ns ps (occ_push (nid target) (pid p) occ)
           in (p\<lparr>targetNodeId := Some (nid target)\<rparr> # ps', occ')))"

text \<open>
  The particles of the array \<open>updated\<close> are objects that the collision code reaches
  through several references and changes in place. The array is the store; a reference
  to one of its objects is its index.
\<close>

fun findIndex :: "('a \<Rightarrow> bool) \<Rightarrow> 'a list \<Rightarrow> nat option" where
  "findIndex P [] = None"
| "findIndex P (a # as) = (if P a then Some 0 else map_option Suc (findIndex P as))"

definition modify :: "nat \<Rightarrow> ('a \<Rightarrow> 'a) \<Rightarrow> 'a list \<Rightarrow> 'a list" where
  \<comment> \<open>An assignment \<open>updated[i].field = v\<close> is \<open>modify i (\<lambda>p. p\<lparr>field := v\<rparr>)\<close>.\<close>
  "modify i f xs = xs[i := f (xs ! i)]"

record tick_locals =
  updated :: "particle_state list"
  particleIdsToRemove :: "string set"
  explosionsToProcess :: nat

definition corner_torque ::
  "intersection_node \<Rightarrow> particle_state list \<Rightarrow> string \<Rightarrow> sim_state \<Rightarrow> sim_state" where
  "corner_torque node upd pId s =
     (case find (\<lambda>p. pid p = pId) upd of
        None \<Rightarrow> s
      | Some particle \<Rightarrow>
          (if energyLevel particle > 2 / 10
           then (let torque = multiplyScalar (energyLevel particle * (5 / 10000))
                                (normalize (position node))
                 in s\<lparr>gridAngularVelocity := addv (gridAngularVelocity s) torque\<rparr>)
           else s))"

definition collidingParticles :: "particle_state list \<Rightarrow> string list \<Rightarrow> nat list" where
  \<comment> \<open>\<open>pIds.map(id => updated.find(p => p.id === id)).filter(Boolean)\<close>, as references.\<close>
  "collidingParticles upd pIds = List.map_filter (\<lambda>i. findIndex (\<lambda>p. pid p = i) upd) pIds"

definition resonate ::
  "nat list \<Rightarrow> nat \<Rightarrow> particle_state list \<times> bool \<Rightarrow> particle_state list \<times> bool" where
  \<comment> \<open>The body of \<open>collidingParticles.forEach\<close>, for the particle at the reference \<open>c\<close>.\<close>
  "resonate refs c st =
     (let upd = fst st; supernovaTriggered = snd st;
          otherParticles = filter (\<lambda>j. pid (upd ! j) \<noteq> pid (upd ! c)) refs
      in if length otherParticles = 0 then st
         else (case findIndex (\<lambda>p. pid p = pid (upd ! c)) upd of
                 None \<Rightarrow> st
               | Some idx \<Rightarrow>
                   (let n = real (length otherParticles);
                        avgOtherBaseFrequency =
                          foldl (\<lambda>acc j. acc + baseFrequency (upd ! j)) 0 otherParticles / n;
                        avgOtherAmplitude =
                          foldl (\<lambda>acc j. acc + amplitude (upd ! j)) 0 otherParticles / n;
                        avgColor =
                          color_scale (1 / n)
                            (foldl (\<lambda>acc j. color_add acc (pcolor (upd ! j))) color_black
                               otherParticles);
                        maxFreqDiff = FREQ_HIGH - FREQ_LOW;
                        freqDifference = \<bar>baseFrequency (upd ! c) - avgOtherBaseFrequency\<bar>;
                        resonanceFactor = (1 - freqDifference / maxFreqDiff)\<^sup>2;
                        amplitudeFactor = (amplitude (upd ! c) + avgOtherAmplitude) / 2;
                        harmonicIncrease =
                          resonanceFactor * amplitudeFactor * (6 / 10 + n * (2 / 10));
                        oldHarmonicFactor = harmonicFactor (upd ! idx);
                        newHarmonicFactor = min 4 (oldHarmonicFactor + harmonicIncrease);
                        upd1 = modify idx (\<lambda>p. p\<lparr>harmonicFactor := newHarmonicFactor\<rparr>) upd;
                        upd2 = modify idx
                                 (\<lambda>p. p\<lparr>amplitude :=
                                          min 1 (amplitude (upd1 ! c) + amplitudeFactor * (15 / 100))\<rparr>)
                                 upd1;
                        upd3 = modify idx
                                 (\<lambda>p. p\<lparr>energyLevel := min 1 (energyLevel (upd2 ! c) + (2 / 10) * n)\<rparr>)
                                 upd2;
                        upd4 = modify idx
                                 (\<lambda>p. p\<lparr>pcolor := color_lerp (pcolor p) avgColor (15 / 100)\<rparr>) upd3
                    in (upd4, supernovaTriggered \<or> energyLevel (upd4 ! idx) \<ge> 1))))"

definition collide :: "particle_state list \<Rightarrow> string list \<Rightarrow> particle_state list \<times> bool" where
  "collide upd pIds =
     (let refs = collidingParticles upd pIds
      in if length refs > 1 then fold (resonate refs) refs (upd, False) else (upd, False))"

definition process_node ::
  "string \<times> string list \<Rightarrow> sim_state \<times> tick_locals \<Rightarrow> sim_state \<times> tick_locals" where
  \<comment> \<open>The body of \<open>nodeOccupancy.forEach\<close>.\<close>
  "process_node entry st =
     (let nodeId = fst entry; pIds = snd entry; s = fst st; l = snd st
      in case find (\<lambda>n. nid n = nodeId) (nodes s) of
           None \<Rightarrow> st
         | Some node \<Rightarrow>
             (let s1 = (if isCorner node then fold (corner_torque node (updated l)) pIds s else s)
              in if length pIds > 1
                 then (let collisionEvent =
                             \<lparr>ce_id = nodeId @ ''-'' @ show_nat (clock s1), ce_nodeId = nodeId,
                              ce_particleIds = pIds, ce_timestamp = clock s1\<rparr>;
                           s2 = s1\<lparr>collisionEvents := collisionEvents s1 @ [collisionEvent]\<rparr>;
                           s3 = setTimeout (RemoveCollision (ce_id collisionEvent)) 1500 s2;
                           res = collide (updated l) pIds;
                           l1 = l\<lparr>updated := fst res\<rparr>
                       in if snd res
                          then (let supernovaEvent =
                                      \<lparr>sn_id = ''sn-'' @ nodeId @ ''-'' @ show_nat (clock s3),
                                       sn_position = position node, sn_timestamp = clock s3\<rparr>;
                                    s4 = s3\<lparr>supernovaEvents := supernovaEvents s3 @ [supernovaEvent]\<rparr>;
                                    s5 = setTimeout (RemoveSupernova (sn_id supernovaEvent)) 2000 s4
                                in (s5, l1\<lparr>particleIdsToRemove := particleIdsToRemove l1 \<union> set pIds,
                                          explosionsToProcess := explosionsToProcess l1 + 1\<rparr>))
                          else (s3, l1))
                 else (s1, l)))"

definition rotate_grid :: "sim_state \<Rightarrow> sim_state" where
  \<comment> \<open>Grid Rotational Dynamics: the damping, then the step of the orientation.\<close>
  "rotate_grid s =
     (let s1 = s\<lparr>gridAngularVelocity := multiplyScalar (97 / 100) (gridAngularVelocity s)\<rparr>
      in if lengthSq (gridAngularVelocity s1) > 1 / 1000000
         then (let deltaRotation =
                     setFromAxisAngle (normalize (gridAngularVelocity s1))
                       (lengthv (gridAngularVelocity s1))
               in s1\<lparr>gridRotation := premultiply deltaRotation (gridRotation s1)\<rparr>)
         else s1)"

definition drift_all :: "tick_draws \<Rightarrow> sim_state \<Rightarrow> particle_state list" where
  \<comment> \<open>1. Natural Drift and Decay with Rotational Influence: \<open>parts.map\<close>.\<close>
  "drift_all d s =
     map (\<lambda>(i, p). drift_particle (nodes s) (gridAngularVelocity s) (drift_draw d i) p)
         (enumerate 0 (particles s))"

definition tick_assigned :: "tick_draws \<Rightarrow> sim_state \<Rightarrow> particle_state list \<times> occupancy" where
  \<comment> \<open>2. Identify Target Nodes and Collisions: the array \<open>updated\<close> and \<open>nodeOccupancy\<close>
      after \<open>updated.forEach\<close>.\<close>
  "tick_assigned d s = (let s2 = rotate_grid s in assign_targets (nodes s2) (drift_all d s2) [])"

definition tick_loop :: "tick_draws \<Rightarrow> sim_state \<Rightarrow> sim_state \<times> tick_locals" where
  \<comment> \<open>Up to the end of \<open>nodeOccupancy.forEach\<close>: the service and the local variables.\<close>
  "tick_loop d s =
     (let s2 = rotate_grid s;
          assigned = tick_assigned d s;
          nodeOccupancy = snd assigned
      in fold process_node nodeOccupancy
           (s2, \<lparr>updated = fst assigned, particleIdsToRemove = {}, explosionsToProcess = 0\<rparr>))"

definition tick_core :: "tick_draws \<Rightarrow> sim_state \<Rightarrow> sim_state" where
  \<comment> \<open>\<open>processFieldDynamics\<close> up to the end of \<open>this.particles.update\<close>.\<close>
  "tick_core d s =
     (let looped = tick_loop d s;
          s3 = fst looped; l = snd looped;
          finalParticles = filter (\<lambda>p. pid p \<notin> particleIdsToRemove l) (updated l);
          s4 = (setTimeout ReplacementSpawn 50 ^^ explosionsToProcess l) s3
      in s4\<lparr>particles := finalParticles\<rparr>)"

definition processFieldDynamics :: "tick_draws \<Rightarrow> sim_state \<Rightarrow> sim_state" where
  "processFieldDynamics d s =
     (let s' = tick_core d s
      in if globalAmplitude s' \<ge> 7 / 10 \<and> length (particles s') < 3
         then spawnParticle None (stabilize_draws d) s'
         else s')"

subsection \<open>The callbacks of setTimeout, the constructor, and the runs of the service\<close>

definition run_task :: "task \<Rightarrow> spawn_draws \<Rightarrow> sim_state \<Rightarrow> sim_state" where
  "run_task tk d s =
     (case tk of
        RemoveCollision i \<Rightarrow> s\<lparr>collisionEvents := filter (\<lambda>e. ce_id e \<noteq> i) (collisionEvents s)\<rparr>
      | RemoveSupernova i \<Rightarrow> s\<lparr>supernovaEvents := filter (\<lambda>e. sn_id e \<noteq> i) (supernovaEvents s)\<rparr>
      | ReplacementSpawn \<Rightarrow> spawnParticle None d s)"

definition fire :: "nat \<Rightarrow> spawn_draws \<Rightarrow> sim_state \<Rightarrow> sim_state" where
  \<comment> \<open>The event loop takes the \<open>i\<close>-th pending callback off the list and runs it.\<close>
  "fire i d s = run_task (snd (timers s ! i)) d (s\<lparr>timers := take i (timers s) @ drop (Suc i) (timers s)\<rparr>)"

definition fields_at :: "nat \<Rightarrow> sim_state" where
  \<comment> \<open>The field initialisers of the class, at the time \<open>t0\<close>.\<close>
  "fields_at t0 =
     \<lparr>nodes = [], particles = [], collisionEvents = [], supernovaEvents = [],
      gridRotation = quat_identity, gridAngularVelocity = vec 0 0 0, timers = [], clock = t0\<rparr>"

definition constructor :: "nat \<Rightarrow> spawn_draws \<Rightarrow> sim_state" where
  "constructor t0 d = spawnParticle None d (initializeNodes (fields_at t0))"

text \<open>
  The runs of the service. After the constructor, the interval timer calls
  \<open>processFieldDynamics\<close>, a consumer calls \<open>spawnParticle\<close>, the event loop runs a
  pending callback whose time has come, or time passes. The event loop is punctual: the
  clock does not pass the time a pending callback is due at before the callback has run.
\<close>

inductive step :: "sim_state \<Rightarrow> sim_state \<Rightarrow> bool" where
  s_tick: "step s (processFieldDynamics td s)"
| s_spawn: "step s (spawnParticle pos d s)"
| s_fire: "i < length (timers s) \<Longrightarrow> fst (timers s ! i) \<le> clock s \<Longrightarrow> step s (fire i d s)"
| s_time: "clock s \<le> t \<Longrightarrow> \<forall>tm \<in> set (timers s). t \<le> fst tm \<Longrightarrow> step s (s\<lparr>clock := t\<rparr>)"

inductive reachable :: "sim_state \<Rightarrow> bool" where
  r_init: "reachable (constructor t0 d)"
| r_step: "reachable s \<Longrightarrow> step s s' \<Longrightarrow> reachable s'"

text \<open>Draws for the examples.\<close>

definition example_draws :: "string \<Rightarrow> spawn_draws" where
  "example_draws i =
     \<lparr>rnd_pick = mk_rnd 0, rnd_jitter = mk_rnd (1 / 2), rnd_fallback = mk_rnd 0,
      new_id = i, new_color = color_black\<rparr>"

definition full_store :: sim_state where
  \<comment> \<open>The constructor, then seven spawns: eight particles.\<close>
  "full_store = (spawnParticle None (example_draws ''q'') ^^ 7) (constructor 0 (example_draws ''p''))"

section \<open>What each operation leaves unchanged\<close>

lemma setTimeout_fields [simp]:
  "nodes (setTimeout tk dl s) = nodes s"
  "particles (setTimeout tk dl s) = particles s"
  "collisionEvents (setTimeout tk dl s) = collisionEvents s"
  "supernovaEvents (setTimeout tk dl s) = supernovaEvents s"
  "gridRotation (setTimeout tk dl s) = gridRotation s"
  "gridAngularVelocity (setTimeout tk dl s) = gridAngularVelocity s"
  "clock (setTimeout tk dl s) = clock s"
  "timers (setTimeout tk dl s) = timers s @ [(clock s + dl, tk)]"
  by (simp_all add: setTimeout_def)

lemma updateTargetNodes_fields [simp]:
  "nodes (updateTargetNodes s) = nodes s"
  "collisionEvents (updateTargetNodes s) = collisionEvents s"
  "supernovaEvents (updateTargetNodes s) = supernovaEvents s"
  "gridRotation (updateTargetNodes s) = gridRotation s"
  "gridAngularVelocity (updateTargetNodes s) = gridAngularVelocity s"
  "clock (updateTargetNodes s) = clock s"
  "timers (updateTargetNodes s) = timers s"
  "length (particles (updateTargetNodes s)) = length (particles s)"
  by (simp_all add: updateTargetNodes_def)

lemma spawnParticle_fields [simp]:
  "nodes (spawnParticle pos d s) = nodes s"
  "collisionEvents (spawnParticle pos d s) = collisionEvents s"
  "supernovaEvents (spawnParticle pos d s) = supernovaEvents s"
  "gridRotation (spawnParticle pos d s) = gridRotation s"
  "gridAngularVelocity (spawnParticle pos d s) = gridAngularVelocity s"
  "clock (spawnParticle pos d s) = clock s"
  "timers (spawnParticle pos d s) = timers s"
  by (simp_all add: spawnParticle_def)

lemma length_spawnParticle:
  "length (particles (spawnParticle pos d s)) =
     (if MAX_PARTICLES \<le> length (particles s) then length (particles s)
      else Suc (length (particles s)))"
  by (simp add: spawnParticle_def)

lemma assign_targets_pids:
  "map pid (fst (assign_targets ns ps occ)) = map pid ps"
  by (induction ps arbitrary: occ) (simp_all add: case_prod_beta Let_def split: option.splits)

lemma length_assign_targets [simp]:
  "length (fst (assign_targets ns ps occ)) = length ps"
  using assign_targets_pids [of ns ps occ, THEN arg_cong, of length] by simp

lemma findIndex_Some:
  "findIndex P xs = Some i \<Longrightarrow> i < length xs \<and> P (xs ! i) \<and> (\<forall>j < i. \<not> P (xs ! j))"
proof (induction xs arbitrary: i)
  case Nil
  then show ?case by simp
next
  case (Cons a as)
  show ?case
  proof (cases "P a")
    case True
    with Cons.prems show ?thesis by simp
  next
    case False
    with Cons.prems obtain k where k: "findIndex P as = Some k" "i = Suc k"
      by auto
    from Cons.IH [OF k(1)] False k(2) show ?thesis
      by (auto simp: nth_Cons split: nat.splits)
  qed
qed

lemma findIndex_None: "findIndex P xs = None \<longleftrightarrow> (\<forall>x \<in> set xs. \<not> P x)"
  by (induction xs) auto

lemma length_modify [simp]: "length (modify i f xs) = length xs"
  by (simp add: modify_def)

lemma nth_modify:
  "modify i f xs ! j = (if j = i \<and> i < length xs then f (xs ! i) else xs ! j)"
  by (cases "i < length xs") (auto simp: modify_def nth_list_update list_update_beyond)

lemma modify_modify:
  "i < length xs \<Longrightarrow> modify i f (modify i g xs) = modify i (f \<circ> g) xs"
  by (simp add: modify_def)

text \<open>The particle object at \<open>idx\<close> once the body of the loop has run for the reference \<open>c\<close>.\<close>

definition resonated :: "particle_state list \<Rightarrow> nat list \<Rightarrow> nat \<Rightarrow> nat \<Rightarrow> particle_state" where
  "resonated upd others c idx =
     (let n = real (length others);
          avgB = foldl (\<lambda>acc j. acc + baseFrequency (upd ! j)) 0 others / n;
          avgA = foldl (\<lambda>acc j. acc + amplitude (upd ! j)) 0 others / n;
          avgColor = color_scale (1 / n)
                       (foldl (\<lambda>acc j. color_add acc (pcolor (upd ! j))) color_black others);
          rf = (1 - \<bar>baseFrequency (upd ! c) - avgB\<bar> / (FREQ_HIGH - FREQ_LOW))\<^sup>2;
          af = (amplitude (upd ! c) + avgA) / 2
      in (upd ! idx)\<lparr>harmonicFactor := min 4 (harmonicFactor (upd ! idx) + rf * af * (6 / 10 + n * (2 / 10))),
                     amplitude := min 1 (amplitude (upd ! c) + af * (15 / 100)),
                     energyLevel := min 1 (energyLevel (upd ! c) + (2 / 10) * n),
                     pcolor := color_lerp (pcolor (upd ! idx)) avgColor (15 / 100)\<rparr>)"

lemma resonate_Some:
  assumes "findIndex (\<lambda>p. pid p = pid (upd ! c)) upd = Some idx"
    and "filter (\<lambda>j. pid (upd ! j) \<noteq> pid (upd ! c)) refs = others" and "others \<noteq> []"
  shows "resonate refs c (upd, t) =
           (upd[idx := resonated upd others c idx],
            t \<or> 1 \<le> energyLevel (resonated upd others c idx))"
proof -
  from findIndex_Some [OF assms(1)] have idx: "idx < length upd" by simp
  show ?thesis
    using assms idx
    apply (simp add: resonate_def Let_def nth_modify modify_modify o_def)
    apply (simp add: modify_def resonated_def Let_def)
    done
qed

lemma resonated_fields [simp]:
  "pid (resonated upd others c idx) = pid (upd ! idx)"
  "baseFrequency (resonated upd others c idx) = baseFrequency (upd ! idx)"
  "locationalFrequency (resonated upd others c idx) = locationalFrequency (upd ! idx)"
  "targetNodeId (resonated upd others c idx) = targetNodeId (upd ! idx)"
  "pattern (resonated upd others c idx) = pattern (upd ! idx)"
  by (simp_all add: resonated_def Let_def)

lemma resonate_cases:
  obtains (same) "resonate refs c st = st"
  | (changed) idx others where "findIndex (\<lambda>p. pid p = pid (fst st ! c)) (fst st) = Some idx"
      "others = filter (\<lambda>j. pid (fst st ! j) \<noteq> pid (fst st ! c)) refs" "others \<noteq> []"
      "resonate refs c st =
         ((fst st)[idx := resonated (fst st) others c idx],
          snd st \<or> 1 \<le> energyLevel (resonated (fst st) others c idx))"
proof (cases "filter (\<lambda>j. pid (fst st ! j) \<noteq> pid (fst st ! c)) refs = []")
  case True
  then have "resonate refs c st = st" by (simp add: resonate_def Let_def)
  then show ?thesis by (rule same)
next
  case False
  show ?thesis
  proof (cases "findIndex (\<lambda>p. pid p = pid (fst st ! c)) (fst st)")
    case None
    then have "resonate refs c st = st" by (simp add: resonate_def Let_def)
    then show ?thesis by (rule same)
  next
    case (Some idx)
    from resonate_Some [OF _ refl False, of idx "snd st"] Some
    show ?thesis by (intro changed [of idx]) (simp_all add: False)
  qed
qed

lemma map_pid_update:
  "i < length xs \<Longrightarrow> pid v = pid (xs ! i) \<Longrightarrow> map pid (xs[i := v]) = map pid xs"
  by (simp add: map_update list_update_same_conv)

lemma resonate_pids: "map pid (fst (resonate refs c st)) = map pid (fst st)"
proof (cases rule: resonate_cases [of refs c st])
  case same
  then show ?thesis by simp
next
  case (changed idx others)
  from findIndex_Some [OF changed(1)] have "idx < length (fst st)" by simp
  with changed(4) show ?thesis by (simp add: map_pid_update)
qed

lemma fold_resonate_pids: "map pid (fst (fold (resonate refs) cs st)) = map pid (fst st)"
  by (induction cs arbitrary: st) (simp_all add: resonate_pids)

lemma collide_pids: "map pid (fst (collide upd pIds)) = map pid upd"
  by (simp add: collide_def Let_def fold_resonate_pids)

lemma corner_torque_fields [simp]:
  "nodes (corner_torque node upd pId s) = nodes s"
  "particles (corner_torque node upd pId s) = particles s"
  "collisionEvents (corner_torque node upd pId s) = collisionEvents s"
  "supernovaEvents (corner_torque node upd pId s) = supernovaEvents s"
  "gridRotation (corner_torque node upd pId s) = gridRotation s"
  "clock (corner_torque node upd pId s) = clock s"
  "timers (corner_torque node upd pId s) = timers s"
  by (simp_all add: corner_torque_def Let_def split: option.splits)

lemma fold_corner_torque_fields [simp]:
  "nodes (fold (corner_torque node upd) pIds s) = nodes s"
  "particles (fold (corner_torque node upd) pIds s) = particles s"
  "collisionEvents (fold (corner_torque node upd) pIds s) = collisionEvents s"
  "supernovaEvents (fold (corner_torque node upd) pIds s) = supernovaEvents s"
  "gridRotation (fold (corner_torque node upd) pIds s) = gridRotation s"
  "clock (fold (corner_torque node upd) pIds s) = clock s"
  "timers (fold (corner_torque node upd) pIds s) = timers s"
  by (induction pIds arbitrary: s; simp)+

lemma process_node_pids: "map pid (updated (snd (process_node e st))) = map pid (updated (snd st))"
  by (simp add: process_node_def Let_def collide_pids split: option.splits)

lemma process_node_frame [simp]:
  "nodes (fst (process_node e st)) = nodes (fst st)"
  "clock (fst (process_node e st)) = clock (fst st)"
  "particles (fst (process_node e st)) = particles (fst st)"
  "gridRotation (fst (process_node e st)) = gridRotation (fst st)"
  by (simp_all add: process_node_def Let_def split: option.splits)

lemma fold_process_node_pids:
  "map pid (updated (snd (fold process_node occ st))) = map pid (updated (snd st))"
  by (induction occ arbitrary: st) (simp_all add: process_node_pids)

lemma fold_process_node_frame [simp]:
  "nodes (fst (fold process_node occ st)) = nodes (fst st)"
  "clock (fst (fold process_node occ st)) = clock (fst st)"
  "particles (fst (fold process_node occ st)) = particles (fst st)"
  "gridRotation (fst (fold process_node occ st)) = gridRotation (fst st)"
  by (induction occ arbitrary: st; simp)+

lemma funpow_setTimeout_fields [simp]:
  "nodes ((setTimeout tk dl ^^ k) s) = nodes s"
  "particles ((setTimeout tk dl ^^ k) s) = particles s"
  "collisionEvents ((setTimeout tk dl ^^ k) s) = collisionEvents s"
  "supernovaEvents ((setTimeout tk dl ^^ k) s) = supernovaEvents s"
  "gridRotation ((setTimeout tk dl ^^ k) s) = gridRotation s"
  "gridAngularVelocity ((setTimeout tk dl ^^ k) s) = gridAngularVelocity s"
  "clock ((setTimeout tk dl ^^ k) s) = clock s"
  by (induction k; simp)+

lemma rotate_grid_fields [simp]:
  "nodes (rotate_grid s) = nodes s"
  "particles (rotate_grid s) = particles s"
  "collisionEvents (rotate_grid s) = collisionEvents s"
  "supernovaEvents (rotate_grid s) = supernovaEvents s"
  "clock (rotate_grid s) = clock s"
  "timers (rotate_grid s) = timers s"
  "gridAngularVelocity (rotate_grid s) = multiplyScalar (97 / 100) (gridAngularVelocity s)"
  by (simp_all add: rotate_grid_def Let_def)

lemma drift_all_pids [simp]: "map pid (drift_all d s) = map pid (particles s)"
proof -
  have "map pid (map (\<lambda>(i, p). drift_particle ns v (f i) p) (enumerate k ps)) = map pid ps"
    for ns v f k ps
    by (induction ps arbitrary: k) (simp_all add: drift_particle_def Let_def)
  then show ?thesis by (simp add: drift_all_def)
qed

lemma length_drift_all [simp]: "length (drift_all d s) = length (particles s)"
  by (simp add: drift_all_def)

lemma tick_loop_frame [simp]:
  "nodes (fst (tick_loop d s)) = nodes s"
  "clock (fst (tick_loop d s)) = clock s"
  "particles (fst (tick_loop d s)) = particles s"
  by (simp_all add: tick_loop_def tick_assigned_def Let_def)

lemma length_fold_process_node:
  "length (updated (snd (fold process_node occ st))) = length (updated (snd st))"
  using fold_process_node_pids [of occ st, THEN arg_cong, of length] by simp

lemma tick_loop_pids: "map pid (updated (snd (tick_loop d s))) = map pid (particles s)"
  by (simp add: tick_loop_def tick_assigned_def Let_def fold_process_node_pids assign_targets_pids)

lemma tick_core_fields [simp]:
  "nodes (tick_core d s) = nodes s"
  "clock (tick_core d s) = clock s"
  by (simp_all add: tick_core_def Let_def)

lemma tick_core_particles:
  "particles (tick_core d s) =
     filter (\<lambda>p. pid p \<notin> particleIdsToRemove (snd (tick_loop d s))) (updated (snd (tick_loop d s)))"
  by (simp add: tick_core_def Let_def)

lemma length_tick_core: "length (particles (tick_core d s)) \<le> length (particles s)"
proof -
  have "length (updated (snd (tick_loop d s))) = length (particles s)"
    using tick_loop_pids [of d s, THEN arg_cong, of length] by simp
  then show ?thesis
    using length_filter_le [of _ "updated (snd (tick_loop d s))"]
    by (simp add: tick_core_particles)
qed

lemma processFieldDynamics_fields [simp]:
  "nodes (processFieldDynamics d s) = nodes s"
  "clock (processFieldDynamics d s) = clock s"
  by (simp_all add: processFieldDynamics_def Let_def)

lemma fire_fields [simp]:
  "nodes (fire i d s) = nodes s"
  "clock (fire i d s) = clock s"
  "gridAngularVelocity (fire i d s) = gridAngularVelocity s"
  "gridRotation (fire i d s) = gridRotation s"
  by (simp_all add: fire_def run_task_def split: task.splits)

lemma constructor_fields [simp]:
  "nodes (constructor t0 d) = generate_nodes GRID_SIZE"
  "clock (constructor t0 d) = t0"
  "timers (constructor t0 d) = []"
  "collisionEvents (constructor t0 d) = []"
  "supernovaEvents (constructor t0 d) = []"
  "gridAngularVelocity (constructor t0 d) = vec 0 0 0"
  "gridRotation (constructor t0 d) = quat_identity"
  by (simp_all add: constructor_def initializeNodes_def fields_at_def)

lemma length_constructor [simp]: "length (particles (constructor t0 d)) = 1"
  by (simp add: constructor_def length_spawnParticle initializeNodes_def fields_at_def MAX_PARTICLES_def)

lemma reachable_nodes: "reachable s \<Longrightarrow> nodes s = generate_nodes GRID_SIZE"
proof (induction rule: reachable.induct)
  case (r_init t0 d)
  show ?case by simp
next
  case (r_step s s')
  from r_step.hyps(2) r_step.IH show ?case
    by (cases rule: step.cases) simp_all
qed

lemma reachable_population: "reachable s \<Longrightarrow> length (particles s) \<le> MAX_PARTICLES"
proof (induction rule: reachable.induct)
  case (r_init t0 d)
  show ?case by (simp add: MAX_PARTICLES_def)
next
  case (r_step s s')
  from r_step.hyps(2) show ?case
  proof (cases rule: step.cases)
    case (s_tick td)
    have "length (particles (tick_core td s)) \<le> MAX_PARTICLES"
      using length_tick_core [of td s] r_step.IH by simp
    then show ?thesis
      unfolding s_tick processFieldDynamics_def Let_def
      by (simp add: length_spawnParticle)
  next
    case (s_spawn pos d)
    with r_step.IH show ?thesis by (simp add: length_spawnParticle)
  next
    case (s_fire i d)
    with r_step.IH show ?thesis
      by (simp add: fire_def run_task_def length_spawnParticle split: task.splits)
  next
    case (s_time t)
    with r_step.IH show ?thesis by simp
  qed
qed


section \<open>The population cap\<close>

lemma reachable_funpow_spawn: "reachable s \<Longrightarrow> reachable ((spawnParticle pos d ^^ k) s)"
  by (induction k) (auto intro: r_step s_spawn)

lemma length_funpow_spawn:
  "length (particles ((spawnParticle pos d ^^ k) s)) = min MAX_PARTICLES (length (particles s) + k)"
  if "length (particles s) \<le> MAX_PARTICLES"
  using that by (induction k) (auto simp: length_spawnParticle)

text \<open>
  C8. \<open>spawnParticle\<close> returns the state it was given, whatever the position and the
  draws, when the population is at or above \<open>MAX_PARTICLES = 8\<close>; it has no error
  result. In every state the service can reach, the population after a call of
  \<open>spawnParticle\<close> is at most 8.
\<close>

theorem spawn_at_cap_is_noop:
  "MAX_PARTICLES = 8 \<and>
   (MAX_PARTICLES \<le> length (particles s) \<longrightarrow> spawnParticle pos d s = s) \<and>
   (reachable s \<longrightarrow> length (particles (spawnParticle pos d s)) \<le> 8)"
proof (intro conjI impI)
  show "MAX_PARTICLES = 8" by (simp add: MAX_PARTICLES_def)
next
  assume "MAX_PARTICLES \<le> length (particles s)"
  then show "spawnParticle pos d s = s" by (simp add: spawnParticle_def)
next
  assume "reachable s"
  then have "reachable (spawnParticle pos d s)" by (rule r_step) (rule s_spawn)
  then show "length (particles (spawnParticle pos d s)) \<le> 8"
    using reachable_population [of "spawnParticle pos d s"] by (simp add: MAX_PARTICLES_def)
qed

theorem spawn_at_cap_is_noop_witness:
  "MAX_PARTICLES \<le> length (particles full_store) \<and> reachable full_store \<and>
   spawnParticle None (example_draws ''r'') full_store = full_store \<and>
   length (particles (spawnParticle None (example_draws ''r'') full_store)) \<le> 8"
proof -
  have r: "reachable full_store"
    unfolding full_store_def by (rule reachable_funpow_spawn) (rule r_init)
  have l: "MAX_PARTICLES \<le> length (particles full_store)"
    unfolding full_store_def by (simp add: length_funpow_spawn MAX_PARTICLES_def)
  from spawn_at_cap_is_noop [of full_store None "example_draws ''r''"] r l
  show ?thesis by blast
qed

section \<open>The node grid\<close>

lemma js_round_of_int [simp]: "js_round (real_of_int k) = real_of_int k"
proof -
  have "\<lfloor>real_of_int k + 1 / 2\<rfloor> = k" by linarith
  then show ?thesis by (simp add: js_round_def)
qed

lemma js_rem_small: "0 \<le> a \<Longrightarrow> a < b \<Longrightarrow> js_rem a b = a"
proof -
  assume a: "0 \<le> a" "a < b"
  then have "0 \<le> a / b" "a / b < 1" by simp_all
  then have "\<lfloor>a / b\<rfloor> = 0" by linarith
  with \<open>0 \<le> a / b\<close> show ?thesis by (simp add: js_rem_def js_trunc_def)
qed

lemma in_generate_nodes:
  "n \<in> set (generate_nodes g) \<longleftrightarrow>
     (\<exists>x \<in> {- int (g div 2) .. int (g div 2)}. \<exists>y \<in> {- int (g div 2) .. int (g div 2)}.
        \<exists>z \<in> {- int (g div 2) .. int (g div 2)}. n = lattice_node (int (g div 2)) x y z)"
  unfolding generate_nodes_def Let_def by (simp add: image_iff)

lemma calculateNodeFrequency_int:
  assumes "(vx pos + 20) * (15 / 10) + (vy pos + 20) * 10 + (vz pos + 20) * (5 / 10) = real_of_int k"
    and "0 \<le> k" "k < 899"
  shows "calculateNodeFrequency pos = real_of_int (100 + k)"
proof -
  have "js_rem (real_of_int k) 899 = real_of_int k"
    using assms(2,3) by (intro js_rem_small) simp_all
  moreover have "100 + real_of_int k = real_of_int (100 + k)" by simp
  ultimately have "js_round (100 + js_rem (real_of_int k) 899) = real_of_int (100 + k)"
    by (simp only: js_round_of_int)
  then show ?thesis
    unfolding calculateNodeFrequency_def Let_def FREQ_LOW_def FREQ_HIGH_def assms(1) by simp
qed

lemma calculateNodeFrequency_lattice:
  assumes "- 3 \<le> x" "x \<le> 3" "- 3 \<le> y" "y \<le> 3" "- 3 \<le> z" "z \<le> (3::int)"
  shows "calculateNodeFrequency (vec (real_of_int x * SPACING) (real_of_int y * SPACING) (real_of_int z * SPACING))
           = real_of_int (340 + 6 * x + 40 * y + 2 * z)"
proof -
  have "calculateNodeFrequency (vec (real_of_int x * SPACING) (real_of_int y * SPACING) (real_of_int z * SPACING))
          = real_of_int (100 + (240 + 6 * x + 40 * y + 2 * z))"
    using assms by (intro calculateNodeFrequency_int) (simp_all add: vec_def SPACING_def algebra_simps)
  then show ?thesis by (simp add: algebra_simps)
qed

lemma lattice_node_fields [simp]:
  "nid (lattice_node h x y z) = show_int x @ ''_'' @ show_int y @ ''_'' @ show_int z"
  "position (lattice_node h x y z) = vec (real_of_int x * SPACING) (real_of_int y * SPACING) (real_of_int z * SPACING)"
  "frequency (lattice_node h x y z) = calculateNodeFrequency (vec (real_of_int x * SPACING) (real_of_int y * SPACING) (real_of_int z * SPACING))"
  "isCorner (lattice_node h x y z) = (\<bar>x\<bar> = h \<and> \<bar>y\<bar> = h \<and> \<bar>z\<bar> = h)"
  by (simp_all add: lattice_node_def Let_def)

lemma grid_node_cases:
  assumes "n \<in> set (generate_nodes GRID_SIZE)"
  obtains x y z where "n = lattice_node 3 x y z" "- 3 \<le> x" "x \<le> 3" "- 3 \<le> y" "y \<le> 3" "- 3 \<le> z" "z \<le> 3"
proof -
  from assms obtain x y z where "x \<in> {- 3 .. 3}" "y \<in> {- 3 .. 3}" "z \<in> {- 3 .. 3}"
    "n = lattice_node 3 x y z"
    unfolding in_generate_nodes GRID_SIZE_def by auto
  then show ?thesis by (intro that [of x y z]) simp_all
qed

lemma grid_frequency:
  assumes "n \<in> set (generate_nodes GRID_SIZE)"
  obtains k :: int where "frequency n = real_of_int k" "196 \<le> k" "k \<le> 484"
proof -
  from assms obtain x y z where n: "n = lattice_node 3 x y z"
    and b: "- 3 \<le> x" "x \<le> 3" "- 3 \<le> y" "y \<le> 3" "- 3 \<le> z" "z \<le> 3"
    by (rule grid_node_cases)
  have "frequency n = real_of_int (340 + 6 * x + 40 * y + 2 * z)"
    unfolding n lattice_node_fields using b by (rule calculateNodeFrequency_lattice)
  moreover have "196 \<le> 340 + 6 * x + 40 * y + 2 * z" "340 + 6 * x + 40 * y + 2 * z \<le> 484"
    using b by simp_all
  ultimately show ?thesis by (rule that)
qed

lemma grid_frequency_range:
  assumes "n \<in> set (generate_nodes GRID_SIZE)"
  shows "196 \<le> frequency n \<and> frequency n \<le> 484"
proof -
  from assms obtain k :: int where "frequency n = real_of_int k" "196 \<le> k" "k \<le> 484"
    by (rule grid_frequency)
  then show ?thesis by simp
qed

section \<open>Decimal strings and the ids of the grid\<close>

lemma digit_char_cases:
  assumes "d < (10::nat)"
  obtains "d = 0" | "d = 1" | "d = 2" | "d = 3" | "d = 4" | "d = 5" | "d = 6" | "d = 7" | "d = 8" | "d = 9"
proof -
  from assms have "d = 0 \<or> d = 1 \<or> d = 2 \<or> d = 3 \<or> d = 4 \<or> d = 5 \<or> d = 6 \<or> d = 7 \<or> d = 8 \<or> d = 9"
    by arith
  then show ?thesis using that by blast
qed

definition digit_value :: "char \<Rightarrow> nat" where
  \<comment> \<open>The place of a digit among the ten digits.\<close>
  "digit_value c = length (takeWhile (\<lambda>x. x \<noteq> c) ''0123456789'')"

lemma digit_value_digit_char: "d < 10 \<Longrightarrow> digit_value (digit_char d) = d"
  by (erule digit_char_cases) (simp_all add: digit_char_def digit_value_def)

lemma digit_char_not_sep: "digit_char d \<noteq> CHR ''_''" "digit_char d \<noteq> CHR ''-''"
proof -
  have "d mod 10 < 10" by simp
  then show "digit_char d \<noteq> CHR ''_''" unfolding digit_char_def
    by (rule digit_char_cases) simp_all
  from \<open>d mod 10 < 10\<close> show "digit_char d \<noteq> CHR ''-''" unfolding digit_char_def
    by (rule digit_char_cases) simp_all
qed

lemma show_nat_not_Nil [simp]: "show_nat n \<noteq> []"
  by (subst show_nat.simps) simp

lemma show_nat_digits: "c \<in> set (show_nat n) \<Longrightarrow> \<exists>d. c = digit_char d"
proof (induction n rule: show_nat.induct)
  case (1 n)
  show ?case
  proof (cases "n < 10")
    case True
    with "1.prems" show ?thesis by (subst (asm) show_nat.simps) auto
  next
    case False
    with "1.prems" "1.IH" show ?thesis by (subst (asm) show_nat.simps) auto
  qed
qed

lemma show_nat_no_sep: "CHR ''_'' \<notin> set (show_nat n)" "CHR ''-'' \<notin> set (show_nat n)"
  using show_nat_digits digit_char_not_sep by metis+

lemma show_nat_inj: "show_nat m = show_nat n \<Longrightarrow> m = n"
proof (induction m arbitrary: n rule: show_nat.induct)
  case (1 m)
  have len: "k \<ge> 10 \<Longrightarrow> length (show_nat k) \<ge> 2" for k
    using show_nat_not_Nil [of "k div 10"]
    by (subst show_nat.simps) (cases "show_nat (k div 10)"; simp)
  have len1: "k < 10 \<Longrightarrow> length (show_nat k) = 1" for k
    by (subst show_nat.simps) simp
  show ?case
  proof (cases "m < 10")
    case True
    have "n < 10"
    proof (rule ccontr)
      assume "\<not> n < 10"
      with len [of n] len1 [OF True] "1.prems" show False by simp
    qed
    with True "1.prems" have "digit_char m = digit_char n"
      by (simp add: show_nat.simps [of m] show_nat.simps [of n])
    with True \<open>n < 10\<close> show ?thesis by (metis digit_value_digit_char)
  next
    case False
    have n: "\<not> n < 10"
    proof
      assume "n < 10"
      with len [of m] len1 [of n] False "1.prems" show False by simp
    qed
    with False "1.prems" have e: "show_nat (m div 10) = show_nat (n div 10)"
      "digit_char (m mod 10) = digit_char (n mod 10)"
      by (simp_all add: show_nat.simps [of m] show_nat.simps [of n])
    from "1.IH" [OF False e(1)] have "m div 10 = n div 10" .
    moreover from e(2) have "m mod 10 = n mod 10"
      by (metis digit_value_digit_char mod_less_divisor zero_less_numeral)
    ultimately show ?thesis by (metis div_mult_mod_eq)
  qed
qed

lemma show_int_no_sep: "CHR ''_'' \<notin> set (show_int i)"
  by (simp add: show_int_def show_nat_no_sep)

lemma show_int_not_Nil [simp]: "show_int i \<noteq> []"
  by (simp add: show_int_def)

lemma show_int_inj: "show_int i = show_int j \<Longrightarrow> i = j"
proof -
  assume e: "show_int i = show_int j"
  have hd_nat: "hd (show_nat k) \<noteq> CHR ''-''" for k
    using show_nat_no_sep(2) [of k] show_nat_not_Nil [of k] by (cases "show_nat k") auto
  show ?thesis
  proof (cases "i < 0")
    case True
    show ?thesis
    proof (cases "j < 0")
      case True
      with \<open>i < 0\<close> e have "show_nat (nat (- i)) = show_nat (nat (- j))" by (simp add: show_int_def)
      then have "nat (- i) = nat (- j)" by (rule show_nat_inj)
      with True \<open>i < 0\<close> show ?thesis by simp
    next
      case False
      with \<open>i < 0\<close> e have "hd (show_nat (nat j)) = CHR ''-''"
        by (metis show_int_def list.sel(1))
      with hd_nat [of "nat j"] show ?thesis by simp
    qed
  next
    case False
    show ?thesis
    proof (cases "j < 0")
      case True
      with \<open>\<not> i < 0\<close> e have "hd (show_nat (nat i)) = CHR ''-''"
        by (metis show_int_def list.sel(1))
      with hd_nat [of "nat i"] show ?thesis by simp
    next
      case False
      with \<open>\<not> i < 0\<close> e have "show_nat (nat i) = show_nat (nat j)" by (simp add: show_int_def)
      then have "nat i = nat j" by (rule show_nat_inj)
      with False \<open>\<not> i < 0\<close> show ?thesis by simp
    qed
  qed
qed

lemma split_at_sep:
  assumes "c \<notin> set a" "c \<notin> set a'" "a @ c # r = a' @ c # r'"
  shows "a = a' \<and> r = r'"
  using assms
proof (induction a arbitrary: a')
  case Nil
  then show ?case by (cases a') auto
next
  case (Cons x a)
  then show ?case by (cases a') auto
qed

lemma lattice_id_inj:
  assumes "show_int x @ CHR ''_'' # show_int y @ CHR ''_'' # show_int z
             = show_int x' @ CHR ''_'' # show_int y' @ CHR ''_'' # show_int z'"
  shows "x = x' \<and> y = y' \<and> z = z'"
proof -
  from split_at_sep [OF show_int_no_sep show_int_no_sep assms]
  have x: "show_int x = show_int x'"
    and r: "show_int y @ CHR ''_'' # show_int z = show_int y' @ CHR ''_'' # show_int z'"
    by simp_all
  from split_at_sep [OF show_int_no_sep show_int_no_sep r]
  have "show_int y = show_int y'" "show_int z = show_int z'" by simp_all
  with x show ?thesis by (simp add: show_int_inj)
qed

lemma generate_nodes_product:
  "generate_nodes g =
     map (\<lambda>(x, y, z). lattice_node (int (g div 2)) x y z)
       (List.product [- int (g div 2) .. int (g div 2)]
          (List.product [- int (g div 2) .. int (g div 2)] [- int (g div 2) .. int (g div 2)]))"
  by (simp add: generate_nodes_def Let_def product_concat_map map_concat o_def)

definition well_identified :: "intersection_node list \<Rightarrow> bool" where
  "well_identified ns \<longleftrightarrow> distinct (map nid ns) \<and> (\<forall>n \<in> set ns. nid n \<noteq> [])"

lemma grid_well_identified: "well_identified (generate_nodes g)"
proof -
  let ?r = "[- int (g div 2) .. int (g div 2)]"
  let ?f = "\<lambda>(x, y, z). nid (lattice_node (int (g div 2)) x y z)"
  have "distinct (List.product ?r (List.product ?r ?r))"
    by (intro distinct_product) simp_all
  moreover have "inj_on ?f (set (List.product ?r (List.product ?r ?r)))"
    by (rule inj_onI) (auto dest!: lattice_id_inj)
  ultimately have "distinct (map ?f (List.product ?r (List.product ?r ?r)))"
    by (simp add: distinct_map)
  moreover have "map nid (generate_nodes g) = map ?f (List.product ?r (List.product ?r ?r))"
    by (simp add: generate_nodes_product case_prod_beta)
  ultimately have "distinct (map nid (generate_nodes g))" by simp
  moreover have "\<forall>n \<in> set (generate_nodes g). nid n \<noteq> []"
    by (auto simp: in_generate_nodes)
  ultimately show ?thesis by (simp add: well_identified_def)
qed

section \<open>The nearest node\<close>

definition first_nearest :: "intersection_node list \<Rightarrow> real \<Rightarrow> nat \<Rightarrow> bool" where
  \<comment> \<open>The node at position \<open>k\<close> is as near to \<open>f\<close> as any node, and nearer than every node before it.\<close>
  "first_nearest ns f k \<longleftrightarrow>
     k < length ns \<and>
     (\<forall>j < length ns. \<bar>frequency (ns ! k) - f\<bar> \<le> \<bar>frequency (ns ! j) - f\<bar>) \<and>
     (\<forall>j < k. \<bar>frequency (ns ! k) - f\<bar> < \<bar>frequency (ns ! j) - f\<bar>)"

definition targets_nearest :: "intersection_node list \<Rightarrow> particle_state \<Rightarrow> bool" where
  \<comment> \<open>\<open>targetNodeId\<close> is the id of the first nearest node, and looking the id up gives that node.\<close>
  "targets_nearest ns p \<longleftrightarrow>
     (\<exists>k. first_nearest ns (locationalFrequency p) k \<and> targetNodeId p = Some (nid (ns ! k)) \<and>
          find (\<lambda>n. nid n = nid (ns ! k)) ns = Some (ns ! k))"

lemma foldl_first_nearest:
  "\<exists>k. first_nearest (n # rest) f k \<and>
       foldl (\<lambda>prev curr. if \<bar>frequency curr - f\<bar> < \<bar>frequency prev - f\<bar> then curr else prev) n rest
         = (n # rest) ! k"
proof (induction rest rule: rev_induct)
  case Nil
  have "first_nearest [n] f 0" by (simp add: first_nearest_def)
  then show ?case by auto
next
  case (snoc c rest)
  let ?step = "\<lambda>prev curr. if \<bar>frequency curr - f\<bar> < \<bar>frequency prev - f\<bar> then curr else prev"
  from snoc.IH obtain k where k: "first_nearest (n # rest) f k"
    and r: "foldl ?step n rest = (n # rest) ! k" by blast
  let ?ns = "n # rest" and ?ns' = "n # rest @ [c]"
  have nth_old: "j < length ?ns \<Longrightarrow> ?ns' ! j = ?ns ! j" for j
    using nth_append [of ?ns "[c]" j] by simp
  have nth_new: "?ns' ! length ?ns = c"
    using nth_append_length [of ?ns c "[]"] by simp
  from k have kl: "k < length ?ns" by (simp add: first_nearest_def)
  show ?case
  proof (cases "\<bar>frequency c - f\<bar> < \<bar>frequency (?ns ! k) - f\<bar>")
    case True
    have "first_nearest ?ns' f (length ?ns)"
      unfolding first_nearest_def
    proof (intro conjI allI impI)
      show "length ?ns < length ?ns'" by simp
    next
      fix j assume "j < length ?ns'"
      then consider "j < length ?ns" | "j = length ?ns" by fastforce
      then show "\<bar>frequency (?ns' ! length ?ns) - f\<bar> \<le> \<bar>frequency (?ns' ! j) - f\<bar>"
      proof cases
        case 1
        with k have "\<bar>frequency (?ns ! k) - f\<bar> \<le> \<bar>frequency (?ns ! j) - f\<bar>"
          by (simp add: first_nearest_def)
        with True 1 show ?thesis by (simp only: nth_new nth_old)
      next
        case 2
        then show ?thesis by simp
      qed
    next
      fix j assume j: "j < length ?ns"
      with k have "\<bar>frequency (?ns ! k) - f\<bar> \<le> \<bar>frequency (?ns ! j) - f\<bar>"
        by (simp add: first_nearest_def)
      with True j show "\<bar>frequency (?ns' ! length ?ns) - f\<bar> < \<bar>frequency (?ns' ! j) - f\<bar>"
        by (simp only: nth_new nth_old)
    qed
    moreover have "foldl ?step n (rest @ [c]) = ?ns' ! length ?ns"
      using True r by (simp only: foldl_append foldl.simps nth_new, simp?)
    ultimately show ?thesis by blast
  next
    case False
    have "first_nearest ?ns' f k"
      unfolding first_nearest_def
    proof (intro conjI allI impI)
      show "k < length ?ns'" using kl by simp
    next
      fix j assume "j < length ?ns'"
      then consider "j < length ?ns" | "j = length ?ns" by fastforce
      then show "\<bar>frequency (?ns' ! k) - f\<bar> \<le> \<bar>frequency (?ns' ! j) - f\<bar>"
      proof cases
        case 1
        with k have "\<bar>frequency (?ns ! k) - f\<bar> \<le> \<bar>frequency (?ns ! j) - f\<bar>"
          by (simp add: first_nearest_def)
        with 1 kl show ?thesis by (simp only: nth_old)
      next
        case 2
        with False kl show ?thesis by (simp only: nth_new nth_old, simp?)
      qed
    next
      fix j assume j: "j < k"
      with k have "\<bar>frequency (?ns ! k) - f\<bar> < \<bar>frequency (?ns ! j) - f\<bar>"
        by (simp add: first_nearest_def)
      moreover from j kl have "j < length ?ns" by simp
      ultimately show "\<bar>frequency (?ns' ! k) - f\<bar> < \<bar>frequency (?ns' ! j) - f\<bar>"
        using kl by (simp only: nth_old)
    qed
    moreover have "foldl ?step n (rest @ [c]) = ?ns' ! k"
      using False r kl by (simp only: foldl_append foldl.simps nth_old, simp?)
    ultimately show ?thesis by blast
  qed
qed

lemma findNearestNode_Nil [simp]: "findNearestNode [] f = None"
  by (simp add: findNearestNode_def)

lemma findNearestNode_first_nearest:
  assumes "ns \<noteq> []"
  obtains k where "first_nearest ns f k" "findNearestNode ns f = Some (ns ! k)"
proof -
  from assms obtain n rest where ns: "ns = n # rest" by (cases ns) auto
  from foldl_first_nearest [of n rest f] obtain k where k: "first_nearest (n # rest) f k"
    "foldl (\<lambda>prev curr. if \<bar>frequency curr - f\<bar> < \<bar>frequency prev - f\<bar> then curr else prev) n rest
       = (n # rest) ! k" by blast
  from k(2) have "findNearestNode ns f = Some (ns ! k)"
    unfolding ns findNearestNode_def by simp
  with k(1) show ?thesis unfolding ns [symmetric] by (rule that)
qed

lemma find_by_key:
  "distinct (map f xs) \<Longrightarrow> k < length xs \<Longrightarrow> find (\<lambda>x. f x = f (xs ! k)) xs = Some (xs ! k)"
proof (induction xs arbitrary: k)
  case Nil
  then show ?case by simp
next
  case (Cons a as)
  show ?case
  proof (cases k)
    case 0
    then show ?thesis by simp
  next
    case (Suc k')
    with Cons.prems have "k' < length as" "f a \<notin> f ` set as" "distinct (map f as)" by simp_all
    moreover from this have "f a \<noteq> f (as ! k')" by (metis imageI nth_mem)
    ultimately show ?thesis using Cons.IH [of k'] Suc by simp
  qed
qed

lemma nearest_target:
  assumes "well_identified ns" "ns \<noteq> []"
    and "targetNodeId p = id_or_null (findNearestNode ns (locationalFrequency p))
         \<or> (\<exists>n. findNearestNode ns (locationalFrequency p) = Some n \<and> targetNodeId p = Some (nid n))"
  shows "targets_nearest ns p"
proof -
  from assms(2) obtain k where k: "first_nearest ns (locationalFrequency p) k"
    "findNearestNode ns (locationalFrequency p) = Some (ns ! k)"
    by (rule findNearestNode_first_nearest)
  from k(1) have kl: "k < length ns" by (simp add: first_nearest_def)
  with assms(1) have "nid (ns ! k) \<noteq> []" by (simp add: well_identified_def)
  with assms(3) k(2) have "targetNodeId p = Some (nid (ns ! k))" by (auto simp: id_or_null_def)
  moreover from assms(1) kl have "find (\<lambda>n. nid n = nid (ns ! k)) ns = Some (ns ! k)"
    by (simp add: well_identified_def find_by_key)
  ultimately show ?thesis using k(1) unfolding targets_nearest_def by blast
qed

definition floor_mod :: "real \<Rightarrow> real \<Rightarrow> real" where
  "floor_mod a b = a - b * real_of_int \<lfloor>a / b\<rfloor>"

definition node_frequency_spec :: "vec3 \<Rightarrow> real" where
  \<comment> \<open>In the words of the specification.\<close>
  "node_frequency_spec pos =
     real_of_int (round (100 + floor_mod ((vx pos + 20) * 1.5 + (vy pos + 20) * 10.0 + (vz pos + 20) * 0.5) 899))"

definition whole_band_fallback :: "rnd \<Rightarrow> real" where
  \<comment> \<open>In the words of the specification: uniform over the whole band.\<close>
  "whole_band_fallback r = FREQ_LOW + Rep_rnd r * (FREQ_HIGH - FREQ_LOW)"

definition example_nodes :: "intersection_node list" where
  "example_nodes =
     [\<lparr>nid = ''a'', position = vec 0 0 0, frequency = 200, baseColor = (0, 0, 0), intensity = 0, isCorner = False\<rparr>,
      \<lparr>nid = ''b'', position = vec 4 0 0, frequency = 300, baseColor = (0, 0, 0), intensity = 0, isCorner = False\<rparr>,
      \<lparr>nid = ''c'', position = vec 4 4 4, frequency = 200, baseColor = (0, 0, 0), intensity = 0, isCorner = True\<rparr>]"

definition example_state :: sim_state where
  "example_state = (fields_at 0)\<lparr>nodes := example_nodes\<rparr>"

definition tiny_grid_state :: sim_state where
  \<comment> \<open>A grid of size 1: its only node is a corner.\<close>
  "tiny_grid_state = (fields_at 0)\<lparr>nodes := generate_nodes 1\<rparr>"

lemma node_frequency_spec_int:
  assumes "(vx pos + 20) * (15 / 10) + (vy pos + 20) * 10 + (vz pos + 20) * (5 / 10) = real_of_int k"
    and "0 \<le> k" "k < 899"
  shows "node_frequency_spec pos = real_of_int (100 + k)"
proof -
  from assms(2,3) have "0 \<le> real_of_int k / 899" "real_of_int k / 899 < 1" by simp_all
  then have "\<lfloor>real_of_int k / 899\<rfloor> = 0" by linarith
  then have "floor_mod (real_of_int k) 899 = real_of_int k" by (simp add: floor_mod_def)
  moreover have "100 + real_of_int k = real_of_int (100 + k)" by simp
  ultimately have "round (100 + floor_mod (real_of_int k) 899) = 100 + k"
    by (simp only: round_of_int)
  moreover have "(vx pos + 20) * 1.5 + (vy pos + 20) * 10.0 + (vz pos + 20) * 0.5 = real_of_int k"
    using assms(1) by simp
  ultimately show ?thesis unfolding node_frequency_spec_def by (simp only:)
qed

text \<open>
  C4. Every node that \<open>initializeNodes\<close> installs has the frequency
  \<open>round(100 + ((x+20)*1.5 + (y+20)*10.0 + (z+20)*0.5) mod 899)\<close> of its position
  (which is what \<open>calculateNodeFrequency\<close> computes there), and the list of nodes
  installed, with ids, positions and frequencies, is the same whatever the state
  \<open>initializeNodes\<close> is called in.
\<close>

theorem grid_frequency_formula:
  "(\<forall>n \<in> set (nodes (initializeNodes s)).
      frequency n = node_frequency_spec (position n) \<and>
      frequency n = calculateNodeFrequency (position n)) \<and>
   nodes (initializeNodes s) = nodes (initializeNodes s')"
proof (intro conjI ballI)
  fix n assume "n \<in> set (nodes (initializeNodes s))"
  then have "n \<in> set (generate_nodes GRID_SIZE)" by (simp add: initializeNodes_def)
  then obtain x y z where n: "n = lattice_node 3 x y z"
    and b: "- 3 \<le> x" "x \<le> 3" "- 3 \<le> y" "y \<le> 3" "- 3 \<le> z" "z \<le> 3"
    by (rule grid_node_cases)
  let ?pos = "vec (real_of_int x * SPACING) (real_of_int y * SPACING) (real_of_int z * SPACING)"
  have "node_frequency_spec ?pos = real_of_int (100 + (240 + 6 * x + 40 * y + 2 * z))"
    using b by (intro node_frequency_spec_int) (simp_all add: vec_def SPACING_def algebra_simps)
  moreover have "calculateNodeFrequency ?pos = real_of_int (340 + 6 * x + 40 * y + 2 * z)"
    using b by (rule calculateNodeFrequency_lattice)
  ultimately show "frequency n = node_frequency_spec (position n)"
    unfolding n lattice_node_fields by (simp add: algebra_simps)
  show "frequency n = calculateNodeFrequency (position n)"
    unfolding n lattice_node_fields ..
next
  show "nodes (initializeNodes s) = nodes (initializeNodes s')"
    by (simp add: initializeNodes_def)
qed

theorem grid_frequency_formula_witness:
  "lattice_node 3 1 (- 2) 3 \<in> set (nodes (initializeNodes (fields_at 0))) \<and>
   frequency (lattice_node 3 1 (- 2) 3) = node_frequency_spec (vec 4 (- 8) 12) \<and>
   frequency (lattice_node 3 1 (- 2) 3) = 272 \<and>
   nodes (initializeNodes (fields_at 0)) = nodes (initializeNodes example_state)"
proof -
  have m: "lattice_node 3 1 (- 2) 3 \<in> set (nodes (initializeNodes (fields_at 0)))"
    unfolding initializeNodes_def
    by (simp add: in_generate_nodes GRID_SIZE_def)
       (rule bexI [of _ 1], rule bexI [of _ "- 2"], rule bexI [of _ 3], simp_all)
  have p: "position (lattice_node 3 1 (- 2) 3) = vec 4 (- 8) 12"
    by (simp add: SPACING_def)
  have "node_frequency_spec (vec 4 (- 8) 12) = real_of_int (100 + 172)"
    by (rule node_frequency_spec_int) (simp_all add: vec_def)
  then have v: "node_frequency_spec (vec 4 (- 8) 12) = 272" by simp
  from grid_frequency_formula [of "fields_at 0" example_state] m
  have f: "frequency (lattice_node 3 1 (- 2) 3) = node_frequency_spec (position (lattice_node 3 1 (- 2) 3))"
    and e: "nodes (initializeNodes (fields_at 0)) = nodes (initializeNodes example_state)"
    by blast+
  from f have f1: "frequency (lattice_node 3 1 (- 2) 3) = node_frequency_spec (vec 4 (- 8) 12)"
    by (simp only: p)
  then have f2: "frequency (lattice_node 3 1 (- 2) 3) = 272" by (simp only: v)
  show ?thesis by (intro conjI m f1 f2 e)
qed

section \<open>What spawnParticle creates\<close>

lemma spawnParticle_particles:
  assumes "length (particles s) < MAX_PARTICLES"
  shows "particles (spawnParticle pos d s) =
           map (\<lambda>p. p\<lparr>targetNodeId := id_or_null (findNearestNode (nodes s) (locationalFrequency p))\<rparr>)
             (particles s @ [newParticle (spawn_frequency pos d (nodes s)) d])"
  using assms by (simp add: spawnParticle_def updateTargetNodes_def)

lemma last_spawnParticle:
  assumes "length (particles s) < MAX_PARTICLES"
  shows "last (particles (spawnParticle pos d s)) =
           (newParticle (spawn_frequency pos d (nodes s)) d)
             \<lparr>targetNodeId := id_or_null (findNearestNode (nodes s) (spawn_frequency pos d (nodes s)))\<rparr>"
  by (simp add: spawnParticle_particles [OF assms] newParticle_def)

lemma pick_uniform:
  fixes r :: real
  assumes "0 \<le> r" "0 < n"
  shows "nat \<lfloor>r * real n\<rfloor> = j \<longleftrightarrow> real j / real n \<le> r \<and> r < (real j + 1) / real n"
proof -
  from assms have nn: "0 \<le> r * real n" by simp
  have "nat \<lfloor>r * real n\<rfloor> = j \<longleftrightarrow> \<lfloor>r * real n\<rfloor> = int j"
    using nn by (metis nat_int int_nat_eq zero_le_floor)
  also have "\<dots> \<longleftrightarrow> real j \<le> r * real n \<and> r * real n < real j + 1"
    by (simp add: floor_eq_iff)
  also have "\<dots> \<longleftrightarrow> real j / real n \<le> r \<and> r < (real j + 1) / real n"
    using assms(2) by (simp add: pos_divide_le_eq pos_less_divide_eq)
  finally show ?thesis .
qed

lemma pick_in_range:
  fixes r :: real
  assumes "0 \<le> r" "r < 1" "0 < n"
  shows "nat \<lfloor>r * real n\<rfloor> < n"
proof -
  from assms have "r * real n < real n" by simp
  then have "\<lfloor>r * real n\<rfloor> < int n" by (simp add: floor_less_iff)
  moreover from assms have "0 \<le> \<lfloor>r * real n\<rfloor>" by simp
  ultimately show ?thesis by linarith
qed

lemma Rep_rnd_range [simp]: "0 \<le> Rep_rnd r" "Rep_rnd r < 1"
  using Rep_rnd [of r] by simp_all

text \<open>
  C7, as amended. When the population is below the cap, \<open>spawnParticle\<close> appends one
  particle. With a position it has the frequency \<open>calculateNodeFrequency\<close> gives there.
  With no position and a non-corner node, the node is the one at the index
  \<open>floor (r * length)\<close> of the non-corner nodes, which is the index \<open>j\<close> exactly when the
  draw \<open>r\<close> lies in \<open>[j / length, (j + 1) / length)\<close>, and the frequency is that node's
  plus \<open>(r' - 0.5) * 10\<close>, within 5 of it. With no position and no non-corner node the
  frequency is \<open>200 + r * 600\<close>, in \<open>[200, 800)\<close>. In all cases the particle starts with
  amplitude 0.4, energy 0.1, harmonic factor 1, its locational frequency equal to its
  base frequency, and the target \<open>findNearestNode\<close> gives for it, the first nearest
  node when the ids of the nodes are distinct and not empty.
\<close>

theorem spawn_start_values:
  assumes "length (particles s) < MAX_PARTICLES"
  shows "let p = last (particles (spawnParticle pos d s));
             nonCorner = filter (\<lambda>n. \<not> isCorner n) (nodes s);
             pick = nat \<lfloor>Rep_rnd (rnd_pick d) * real (length nonCorner)\<rfloor>
         in length (particles (spawnParticle pos d s)) = Suc (length (particles s)) \<and>
            pid p = new_id d \<and>
            (\<forall>v. pos = Some v \<longrightarrow> baseFrequency p = calculateNodeFrequency v) \<and>
            (pos = None \<and> nonCorner \<noteq> [] \<longrightarrow>
               pick < length nonCorner \<and>
               (\<forall>j. pick = j \<longleftrightarrow>
                      real j / real (length nonCorner) \<le> Rep_rnd (rnd_pick d) \<and>
                      Rep_rnd (rnd_pick d) < (real j + 1) / real (length nonCorner)) \<and>
               baseFrequency p = frequency (nonCorner ! pick) + (Rep_rnd (rnd_jitter d) - 1 / 2) * 10 \<and>
               \<bar>baseFrequency p - frequency (nonCorner ! pick)\<bar> \<le> 5) \<and>
            (pos = None \<and> nonCorner = [] \<longrightarrow>
               baseFrequency p = 200 + Rep_rnd (rnd_fallback d) * 600 \<and>
               200 \<le> baseFrequency p \<and> baseFrequency p < 800) \<and>
            locationalFrequency p = baseFrequency p \<and>
            amplitude p = 4 / 10 \<and> energyLevel p = 1 / 10 \<and> harmonicFactor p = 1 \<and>
            targetNodeId p = id_or_null (findNearestNode (nodes s) (locationalFrequency p)) \<and>
            (well_identified (nodes s) \<and> nodes s \<noteq> [] \<longrightarrow> targets_nearest (nodes s) p)"
proof -
  let ?f = "spawn_frequency pos d (nodes s)"
  let ?p = "last (particles (spawnParticle pos d s))"
  let ?nc = "filter (\<lambda>n. \<not> isCorner n) (nodes s)"
  let ?k = "nat \<lfloor>Rep_rnd (rnd_pick d) * real (length ?nc)\<rfloor>"
  note p = last_spawnParticle [OF assms, of pos d]
  have fields: "pid ?p = new_id d" "baseFrequency ?p = ?f" "locationalFrequency ?p = ?f"
    "amplitude ?p = 4 / 10" "energyLevel ?p = 1 / 10" "harmonicFactor ?p = 1"
    "targetNodeId ?p = id_or_null (findNearestNode (nodes s) ?f)"
    unfolding p by (simp_all add: newParticle_def DEFAULT_AMPLITUDE_def)
  have len: "length (particles (spawnParticle pos d s)) = Suc (length (particles s))"
    using assms by (simp add: length_spawnParticle)
  have some: "pos = Some v \<Longrightarrow> ?f = calculateNodeFrequency v" for v
    by (simp add: spawn_frequency_def)
  have pick: "?nc \<noteq> [] \<Longrightarrow> ?k < length ?nc"
    by (intro pick_in_range) simp_all
  have uni: "?nc \<noteq> [] \<Longrightarrow> ?k = j \<longleftrightarrow>
      real j / real (length ?nc) \<le> Rep_rnd (rnd_pick d) \<and>
      Rep_rnd (rnd_pick d) < (real j + 1) / real (length ?nc)" for j
    by (intro pick_uniform) simp_all
  have jit: "pos = None \<Longrightarrow> ?nc \<noteq> [] \<Longrightarrow>
      ?f = frequency (?nc ! ?k) + (Rep_rnd (rnd_jitter d) - 1 / 2) * 10"
    by (simp add: spawn_frequency_def Let_def)
  have jit5: "\<bar>(Rep_rnd (rnd_jitter d) - 1 / 2) * 10\<bar> \<le> 5"
    using Rep_rnd_range [of "rnd_jitter d"] by (auto simp: abs_le_iff intro: less_imp_le)
  have fb: "pos = None \<Longrightarrow> ?nc = [] \<Longrightarrow> ?f = 200 + Rep_rnd (rnd_fallback d) * 600"
    by (simp add: spawn_frequency_def Let_def)
  have fbr: "200 \<le> 200 + Rep_rnd (rnd_fallback d) * 600" "200 + Rep_rnd (rnd_fallback d) * 600 < 800"
    using Rep_rnd_range [of "rnd_fallback d"] by simp_all
  have near: "well_identified (nodes s) \<Longrightarrow> nodes s \<noteq> [] \<Longrightarrow> targets_nearest (nodes s) ?p"
    by (rule nearest_target) (simp_all add: fields)
  show ?thesis
    unfolding Let_def
  proof (intro conjI allI impI)
    show "length (particles (spawnParticle pos d s)) = Suc (length (particles s))" by (rule len)
    show "pid ?p = new_id d" by (rule fields)
    show "baseFrequency ?p = calculateNodeFrequency v" if "pos = Some v" for v
      unfolding fields using that some by simp
    show "?k < length ?nc" if "pos = None \<and> ?nc \<noteq> []" using that pick by simp
    show "?k = j \<longleftrightarrow> real j / real (length ?nc) \<le> Rep_rnd (rnd_pick d) \<and>
            Rep_rnd (rnd_pick d) < (real j + 1) / real (length ?nc)"
      if "pos = None \<and> ?nc \<noteq> []" for j using that uni [of j] by simp
    show "baseFrequency ?p = frequency (?nc ! ?k) + (Rep_rnd (rnd_jitter d) - 1 / 2) * 10"
      if "pos = None \<and> ?nc \<noteq> []" unfolding fields using that jit by simp
    show "\<bar>baseFrequency ?p - frequency (?nc ! ?k)\<bar> \<le> 5"
      if "pos = None \<and> ?nc \<noteq> []" unfolding fields using that jit jit5 by simp
    show "baseFrequency ?p = 200 + Rep_rnd (rnd_fallback d) * 600"
      if "pos = None \<and> ?nc = []" unfolding fields using that fb by simp
    show "200 \<le> baseFrequency ?p" if "pos = None \<and> ?nc = []"
      unfolding fields using that fb fbr by simp
    show "baseFrequency ?p < 800" if "pos = None \<and> ?nc = []"
      unfolding fields using that fb fbr by simp
    show "locationalFrequency ?p = baseFrequency ?p" by (simp add: fields)
    show "amplitude ?p = 4 / 10" "energyLevel ?p = 1 / 10" "harmonicFactor ?p = 1"
      by (rule fields)+
    show "targetNodeId ?p = id_or_null (findNearestNode (nodes s) (locationalFrequency ?p))"
      by (simp add: fields)
    show "targets_nearest (nodes s) ?p" if "well_identified (nodes s) \<and> nodes s \<noteq> []"
      using that near by simp
  qed
qed


definition jitter_draws :: spawn_draws where
  "jitter_draws =
     \<lparr>rnd_pick = mk_rnd (1 / 2), rnd_jitter = mk_rnd (3 / 4), rnd_fallback = mk_rnd 0,
      new_id = ''j'', new_color = color_black\<rparr>"

lemma example_state_fields [simp]:
  "nodes example_state = example_nodes" "particles example_state = []"
  by (simp_all add: example_state_def fields_at_def)

lemma tiny_grid_nodes: "nodes tiny_grid_state = [lattice_node 0 0 0 0]"
  by (simp add: tiny_grid_state_def generate_nodes_def)

lemma tiny_grid_fields [simp]:
  "particles tiny_grid_state = []"
  "filter (\<lambda>n. \<not> isCorner n) (nodes tiny_grid_state) = []"
  by (simp_all add: tiny_grid_nodes) (simp add: tiny_grid_state_def fields_at_def)

lemma example_nodes_well_identified: "well_identified example_nodes"
  by (simp add: well_identified_def example_nodes_def)

lemma calculateNodeFrequency_origin: "calculateNodeFrequency (vec 0 0 0) = 340"
  using calculateNodeFrequency_int [of "vec 0 0 0" 240] by (simp add: vec_def)

theorem spawn_start_values_witness:
  "length (particles example_state) < MAX_PARTICLES \<and>
   length (particles tiny_grid_state) < MAX_PARTICLES \<and>
   well_identified (nodes example_state) \<and> nodes example_state \<noteq> [] \<and>
   filter (\<lambda>n. \<not> isCorner n) (nodes example_state) \<noteq> [] \<and>
   filter (\<lambda>n. \<not> isCorner n) (nodes tiny_grid_state) = [] \<and>
   baseFrequency (last (particles (spawnParticle (Some (vec 0 0 0)) (example_draws ''p'') example_state))) = 340 \<and>
   targets_nearest (nodes example_state)
     (last (particles (spawnParticle (Some (vec 0 0 0)) (example_draws ''p'') example_state))) \<and>
   baseFrequency (last (particles (spawnParticle None jitter_draws example_state))) = 3025 / 10 \<and>
   baseFrequency (last (particles (spawnParticle None (example_draws ''p'') tiny_grid_state))) = 200 \<and>
   amplitude (last (particles (spawnParticle None (example_draws ''p'') tiny_grid_state))) = 4 / 10"
proof -
  have h1: "length (particles example_state) < MAX_PARTICLES"
    and h2: "length (particles tiny_grid_state) < MAX_PARTICLES"
    by (simp_all add: MAX_PARTICLES_def)
  have h3: "well_identified (nodes example_state)" "nodes example_state \<noteq> []"
    by (simp_all add: example_nodes_well_identified) (simp add: example_nodes_def)
  have h4: "filter (\<lambda>n. \<not> isCorner n) (nodes example_state) \<noteq> []"
    by (simp add: example_nodes_def)
  have h5: "filter (\<lambda>n. \<not> isCorner n) (nodes tiny_grid_state) = []" by simp
  note a = spawn_start_values [OF h1, of "Some (vec 0 0 0)" "example_draws ''p''", unfolded Let_def]
  note b = spawn_start_values [OF h1, of None jitter_draws, unfolded Let_def]
  note c = spawn_start_values [OF h2, of None "example_draws ''p''", unfolded Let_def]
  from a have a1: "baseFrequency (last (particles (spawnParticle (Some (vec 0 0 0)) (example_draws ''p'') example_state))) = 340"
    by (simp add: calculateNodeFrequency_origin)
  from a h3 have a2: "targets_nearest (nodes example_state)
     (last (particles (spawnParticle (Some (vec 0 0 0)) (example_draws ''p'') example_state)))"
    by blast
  from b h4 have "baseFrequency (last (particles (spawnParticle None jitter_draws example_state)))
      = frequency (filter (\<lambda>n. \<not> isCorner n) (nodes example_state) !
                    nat \<lfloor>Rep_rnd (rnd_pick jitter_draws) * real (length (filter (\<lambda>n. \<not> isCorner n) (nodes example_state)))\<rfloor>)
        + (Rep_rnd (rnd_jitter jitter_draws) - 1 / 2) * 10"
    by blast
  then have b1: "baseFrequency (last (particles (spawnParticle None jitter_draws example_state))) = 3025 / 10"
    by (simp add: example_nodes_def jitter_draws_def mk_rnd.rep_eq)
  from c h5 have "baseFrequency (last (particles (spawnParticle None (example_draws ''p'') tiny_grid_state)))
      = 200 + Rep_rnd (rnd_fallback (example_draws ''p'')) * 600"
    by blast
  then have c1: "baseFrequency (last (particles (spawnParticle None (example_draws ''p'') tiny_grid_state))) = 200"
    by (simp add: example_draws_def mk_rnd.rep_eq)
  from c have c2: "amplitude (last (particles (spawnParticle None (example_draws ''p'') tiny_grid_state))) = 4 / 10"
    by blast
  show ?thesis by (intro conjI h1 h2 h3 h4 h5 a1 a2 b1 c1 c2)
qed

theorem fallback_not_whole_band:
  "filter (\<lambda>n. \<not> isCorner n) (nodes tiny_grid_state) = [] \<and>
   baseFrequency (last (particles (spawnParticle None (example_draws ''p'') tiny_grid_state))) = 200 \<and>
   whole_band_fallback (rnd_fallback (example_draws ''p'')) = 100"
proof -
  have "length (particles tiny_grid_state) < MAX_PARTICLES" by (simp add: MAX_PARTICLES_def)
  from last_spawnParticle [OF this, of None "example_draws ''p''"]
  have "baseFrequency (last (particles (spawnParticle None (example_draws ''p'') tiny_grid_state))) = 200"
    by (simp add: newParticle_def spawn_frequency_def example_draws_def mk_rnd.rep_eq)
  moreover have "whole_band_fallback (rnd_fallback (example_draws ''p'')) = 100"
    by (simp add: whole_band_fallback_def example_draws_def mk_rnd.rep_eq FREQ_LOW_def)
  ultimately show ?thesis by simp
qed

section \<open>What a collision leaves unchanged\<close>

definition carried :: "particle_state \<Rightarrow> string \<times> real \<times> real \<times> string option" where
  "carried p = (pid p, baseFrequency p, locationalFrequency p, targetNodeId p)"

lemma resonate_carried: "map carried (fst (resonate refs c st)) = map carried (fst st)"
proof (cases rule: resonate_cases [of refs c st])
  case same
  then show ?thesis by simp
next
  case (changed idx others)
  from findIndex_Some [OF changed(1)] have "idx < length (fst st)" by simp
  with changed(4) show ?thesis by (simp add: map_update list_update_same_conv carried_def)
qed

lemma fold_resonate_carried: "map carried (fst (fold (resonate refs) cs st)) = map carried (fst st)"
  by (induction cs arbitrary: st) (simp_all add: resonate_carried)

lemma collide_carried: "map carried (fst (collide upd pIds)) = map carried upd"
  by (simp add: collide_def Let_def fold_resonate_carried)

lemma process_node_carried:
  "map carried (updated (snd (process_node e st))) = map carried (updated (snd st))"
  by (simp add: process_node_def Let_def collide_carried split: option.splits)

lemma fold_process_node_carried:
  "map carried (updated (snd (fold process_node occ st))) = map carried (updated (snd st))"
  by (induction occ arbitrary: st) (simp_all add: process_node_carried)

lemma tick_loop_carried:
  "map carried (updated (snd (tick_loop d s))) = map carried (fst (tick_assigned d s))"
  by (simp add: tick_loop_def Let_def fold_process_node_carried)

lemma carried_in_set:
  assumes "map carried xs = map carried ys" "p \<in> set xs"
  obtains q where "q \<in> set ys" "carried q = carried p"
proof -
  from assms(2) have "carried p \<in> set (map carried xs)" by simp
  with assms(1) have "carried p \<in> set (map carried ys)" by simp
  then show ?thesis using that by auto
qed

lemma targets_nearest_carried:
  "carried q = carried p \<Longrightarrow> targets_nearest ns q \<Longrightarrow> targets_nearest ns p"
  by (simp add: targets_nearest_def carried_def)

section \<open>The target of every particle\<close>

lemma assign_targets_target:
  assumes "p \<in> set (fst (assign_targets ns ps occ))" "ns \<noteq> []"
  shows "\<exists>n. findNearestNode ns (locationalFrequency p) = Some n \<and> targetNodeId p = Some (nid n)"
  using assms(1)
proof (induction ps arbitrary: occ)
  case Nil
  then show ?case by simp
next
  case (Cons a ps)
  from assms(2) obtain k where "findNearestNode ns (locationalFrequency a) = Some (ns ! k)"
    by (rule findNearestNode_first_nearest)
  with Cons show ?case
    by (auto simp: case_prod_beta Let_def)
qed

lemma assign_targets_nearest:
  assumes "well_identified ns" "ns \<noteq> []" "p \<in> set (fst (assign_targets ns ps occ))"
  shows "targets_nearest ns p"
  using assms(1,2) assign_targets_target [OF assms(3,2)] by (intro nearest_target) simp_all

lemma updateTargetNodes_nearest:
  assumes "well_identified (nodes s)" "nodes s \<noteq> []" "p \<in> set (particles (updateTargetNodes s))"
  shows "targets_nearest (nodes s) p"
  using assms by (intro nearest_target) (auto simp: updateTargetNodes_def)

lemma spawnParticle_nearest:
  assumes "well_identified (nodes s)" "nodes s \<noteq> []"
    and "length (particles s) < MAX_PARTICLES \<or> (\<forall>q \<in> set (particles s). targets_nearest (nodes s) q)"
    and "p \<in> set (particles (spawnParticle pos d s))"
  shows "targets_nearest (nodes s) p"
proof (cases "length (particles s) < MAX_PARTICLES")
  case True
  let ?s = "s\<lparr>particles := particles s @ [newParticle (spawn_frequency pos d (nodes s)) d]\<rparr>"
  from True assms(4) have "p \<in> set (particles (updateTargetNodes ?s))"
    by (simp add: spawnParticle_def)
  with assms(1,2) updateTargetNodes_nearest [of ?s p] show ?thesis by simp
next
  case False
  with assms(3,4) show ?thesis by (simp add: spawnParticle_def)
qed

lemma grid_not_Nil: "generate_nodes GRID_SIZE \<noteq> []"
proof -
  have "lattice_node 3 0 0 0 \<in> set (generate_nodes GRID_SIZE)"
    by (simp add: in_generate_nodes GRID_SIZE_def)
       (rule bexI [of _ 0], rule bexI [of _ 0], rule bexI [of _ 0], simp_all)
  then show ?thesis by auto
qed

lemma tick_assigned_nearest:
  assumes "well_identified (nodes s)" "nodes s \<noteq> []" "p \<in> set (fst (tick_assigned d s))"
  shows "targets_nearest (nodes s) p"
  using assms assign_targets_nearest [of "nodes s" p "drift_all d (rotate_grid s)" "[]"]
  by (simp add: tick_assigned_def Let_def)

lemma tick_core_nearest:
  assumes "well_identified (nodes s)" "nodes s \<noteq> []" "p \<in> set (particles (tick_core d s))"
  shows "targets_nearest (nodes s) p"
proof -
  from assms(3) have "p \<in> set (updated (snd (tick_loop d s)))"
    by (simp add: tick_core_particles)
  with tick_loop_carried [of d s] obtain q where "q \<in> set (fst (tick_assigned d s))"
    "carried q = carried p" by (rule carried_in_set)
  with assms(1,2) show ?thesis
    using tick_assigned_nearest targets_nearest_carried by blast
qed

lemma processFieldDynamics_nearest:
  assumes "well_identified (nodes s)" "nodes s \<noteq> []" "p \<in> set (particles (processFieldDynamics d s))"
  shows "targets_nearest (nodes s) p"
proof (cases "globalAmplitude (tick_core d s) \<ge> 7 / 10 \<and> length (particles (tick_core d s)) < 3")
  case True
  with assms(3) have "p \<in> set (particles (spawnParticle None (stabilize_draws d) (tick_core d s)))"
    by (simp add: processFieldDynamics_def Let_def)
  moreover have "\<forall>q \<in> set (particles (tick_core d s)). targets_nearest (nodes (tick_core d s)) q"
    using assms(1,2) tick_core_nearest by simp
  ultimately show ?thesis
    using assms(1,2) spawnParticle_nearest [of "tick_core d s" p None "stabilize_draws d"] by simp
next
  case False
  with assms(3) have "p \<in> set (particles (tick_core d s))"
    by (auto simp: processFieldDynamics_def Let_def)
  with assms(1,2) show ?thesis by (rule tick_core_nearest)
qed

lemma reachable_nearest:
  "reachable s \<Longrightarrow> \<forall>p \<in> set (particles s). targets_nearest (nodes s) p"
proof (induction rule: reachable.induct)
  case (r_init t0 d)
  have "targets_nearest (nodes (initializeNodes (fields_at t0))) p"
    if "p \<in> set (particles (spawnParticle None d (initializeNodes (fields_at t0))))" for p
    using that
    by (intro spawnParticle_nearest [of _ p None d])
       (simp_all add: initializeNodes_def grid_well_identified grid_not_Nil fields_at_def MAX_PARTICLES_def)
  then show ?case by (simp add: constructor_def)
next
  case (r_step s s')
  from r_step.hyps(1) have n: "nodes s = generate_nodes GRID_SIZE" by (rule reachable_nodes)
  then have w: "well_identified (nodes s)" "nodes s \<noteq> []"
    by (simp_all add: grid_well_identified grid_not_Nil)
  from r_step.hyps(2) show ?case
  proof (cases rule: step.cases)
    case (s_tick td)
    with w processFieldDynamics_nearest show ?thesis by simp
  next
    case (s_spawn pos d)
    with w r_step.IH spawnParticle_nearest [of s _ pos d] show ?thesis by simp
  next
    case (s_fire i d)
    show ?thesis
    proof (cases "snd (timers s ! i)")
      case ReplacementSpawn
      let ?s = "s\<lparr>timers := take i (timers s) @ drop (Suc i) (timers s)\<rparr>"
      from r_step.IH w spawnParticle_nearest [of ?s _ None d]
      show ?thesis unfolding s_fire fire_def run_task_def ReplacementSpawn by simp
    qed (use r_step.IH in \<open>simp_all add: s_fire fire_def run_task_def\<close>)
  next
    case (s_time t)
    with r_step.IH show ?thesis by simp
  qed
qed


text \<open>
  C5. In every state the service reaches, after the target reassignment pass of a tick,
  at the end of a tick and after a call of \<open>spawnParticle\<close>, the \<open>targetNodeId\<close> of every
  particle is the id of the first node, in the order of the node list, among those that
  minimise \<open>|node.frequency - particle.locationalFrequency|\<close>, and looking that id up
  gives that node. For any node list with distinct, non-empty ids the same holds after
  the pass and after a spawn below the cap, and a \<open>targetNodeId\<close> that is null after
  them means that the node list is empty.
\<close>

theorem targets_first_nearest:
  "(reachable s \<longrightarrow>
      (\<forall>p \<in> set (fst (tick_assigned td s)) \<union> set (particles (processFieldDynamics td s))
              \<union> set (particles (spawnParticle pos d s)).
         targets_nearest (nodes s) p)) \<and>
   (well_identified (nodes s) \<longrightarrow>
      (\<forall>p \<in> set (fst (tick_assigned td s)).
         (nodes s \<noteq> [] \<longrightarrow> targets_nearest (nodes s) p) \<and>
         (targetNodeId p = None \<longrightarrow> nodes s = [])) \<and>
      (length (particles s) < MAX_PARTICLES \<longrightarrow>
         (\<forall>p \<in> set (particles (spawnParticle pos d s)).
            (nodes s \<noteq> [] \<longrightarrow> targets_nearest (nodes s) p) \<and>
            (targetNodeId p = None \<longleftrightarrow> nodes s = []))))"
proof (intro conjI impI ballI)
  fix p
  assume r: "reachable s"
    and p: "p \<in> set (fst (tick_assigned td s)) \<union> set (particles (processFieldDynamics td s))
              \<union> set (particles (spawnParticle pos d s))"
  from r have "nodes s = generate_nodes GRID_SIZE" by (rule reachable_nodes)
  then have w: "well_identified (nodes s)" "nodes s \<noteq> []"
    by (simp_all add: grid_well_identified grid_not_Nil)
  from p consider "p \<in> set (fst (tick_assigned td s))"
    | "p \<in> set (particles (processFieldDynamics td s))"
    | "p \<in> set (particles (spawnParticle pos d s))" by blast
  then show "targets_nearest (nodes s) p"
  proof cases
    case 1
    with w show ?thesis by (rule tick_assigned_nearest)
  next
    case 2
    with w show ?thesis by (rule processFieldDynamics_nearest)
  next
    case 3
    with w reachable_nearest [OF r] show ?thesis by (intro spawnParticle_nearest [of s p pos d]) simp_all
  qed
next
  fix p assume "well_identified (nodes s)" "p \<in> set (fst (tick_assigned td s))" "nodes s \<noteq> []"
  then show "targets_nearest (nodes s) p" by (intro tick_assigned_nearest [of s p td])
next
  fix p assume p: "p \<in> set (fst (tick_assigned td s))" and n: "targetNodeId p = None"
  show "nodes s = []"
  proof (rule ccontr)
    assume "nodes s \<noteq> []"
    with p assign_targets_target [of p "nodes s" "drift_all td (rotate_grid s)" "[]"] n
    show False by (simp add: tick_assigned_def Let_def)
  qed
next
  fix p assume "well_identified (nodes s)" "length (particles s) < MAX_PARTICLES"
    "p \<in> set (particles (spawnParticle pos d s))" "nodes s \<noteq> []"
  then show "targets_nearest (nodes s) p" by (intro spawnParticle_nearest [of s p pos d]) simp_all
next
  fix p assume w: "well_identified (nodes s)" and l: "length (particles s) < MAX_PARTICLES"
    and p: "p \<in> set (particles (spawnParticle pos d s))"
  show "targetNodeId p = None \<longleftrightarrow> nodes s = []"
  proof
    assume n: "targetNodeId p = None"
    show "nodes s = []"
    proof (rule ccontr)
      assume "nodes s \<noteq> []"
      with w l p have "targets_nearest (nodes s) p" by (intro spawnParticle_nearest [of s p pos d]) simp_all
      with n show False by (simp add: targets_nearest_def)
    qed
  next
    assume "nodes s = []"
    with p l show "targetNodeId p = None"
      by (auto simp: spawnParticle_particles id_or_null_def)
  qed
qed

definition tie_position :: vec3 where
  \<comment> \<open>A position whose frequency, 250, is as far from 200 as from 300.\<close>
  "tie_position = vec (- 20) (- 5) (- 20)"

lemma calculateNodeFrequency_tie: "calculateNodeFrequency tie_position = 250"
  using calculateNodeFrequency_int [of tie_position 150] by (simp add: vec_def tie_position_def)

lemma example_first_nearest: "first_nearest example_nodes 250 k \<Longrightarrow> k = 0"
  by (cases k) (auto simp: first_nearest_def example_nodes_def less_Suc_eq nth_Cons')

theorem targets_first_nearest_witness:
  "reachable (constructor 0 (example_draws ''p'')) \<and>
   targets_nearest (nodes (constructor 0 (example_draws ''p'')))
     (hd (particles (spawnParticle None (example_draws ''q'') (constructor 0 (example_draws ''p''))))) \<and>
   well_identified (nodes example_state) \<and> length (particles example_state) < MAX_PARTICLES \<and>
   nodes example_state \<noteq> [] \<and>
   locationalFrequency (last (particles (spawnParticle (Some tie_position) (example_draws ''p'') example_state))) = 250 \<and>
   targetNodeId (last (particles (spawnParticle (Some tie_position) (example_draws ''p'') example_state))) = Some ''a''"
proof -
  let ?c = "constructor 0 (example_draws ''p'')"
  let ?ps = "particles (spawnParticle None (example_draws ''q'') ?c)"
  let ?qs = "particles (spawnParticle (Some tie_position) (example_draws ''p'') example_state)"
  have r: "reachable ?c" by (rule r_init)
  have "?ps \<noteq> []" by (simp add: spawnParticle_particles MAX_PARTICLES_def)
  then have m: "hd ?ps \<in> set ?ps" by simp
  from targets_first_nearest [of ?c _ None "example_draws ''q''"] r m
  have t1: "targets_nearest (nodes ?c) (hd ?ps)" by blast
  have w: "well_identified (nodes example_state)" by (simp add: example_nodes_well_identified)
  have l: "length (particles example_state) < MAX_PARTICLES" by (simp add: MAX_PARTICLES_def)
  have n: "nodes example_state \<noteq> []" by (simp add: example_nodes_def)
  have "?qs \<noteq> []" using l by (simp add: spawnParticle_particles)
  then have m2: "last ?qs \<in> set ?qs" by simp
  have f: "locationalFrequency (last ?qs) = 250"
    by (simp add: last_spawnParticle [OF l] newParticle_def spawn_frequency_def calculateNodeFrequency_tie)
  from targets_first_nearest [of example_state _ "Some tie_position" "example_draws ''p''"] w l n m2
  have "targets_nearest (nodes example_state) (last ?qs)" by blast
  then obtain k where "first_nearest example_nodes 250 k" "targetNodeId (last ?qs) = Some (nid (example_nodes ! k))"
    unfolding targets_nearest_def f by auto
  with example_first_nearest [of k] have t2: "targetNodeId (last ?qs) = Some ''a''"
    by (simp add: example_nodes_def)
  show ?thesis by (intro conjI r t1 w l n f t2)
qed

section \<open>The collision at one node\<close>

lemma findIndex_map: "findIndex (\<lambda>x. f x = v) xs = findIndex (\<lambda>y. y = v) (map f xs)"
  by (induction xs) simp_all

lemma findIndex_first:
  assumes "findIndex (\<lambda>x. f x = v) xs = Some c"
  shows "findIndex (\<lambda>x. f x = f (xs ! c)) xs = Some c"
  using findIndex_Some [OF assms] assms by simp

text \<open>
  The references of a collision: each is the first index of its id in the array, and
  no two of them have the same id.
\<close>

definition first_refs :: "string list \<Rightarrow> nat list \<Rightarrow> bool" where
  "first_refs ids refs \<longleftrightarrow>
     (\<forall>c \<in> set refs. findIndex (\<lambda>y. y = ids ! c) ids = Some c) \<and> distinct (map (\<lambda>c. ids ! c) refs)"

lemma first_refs_bound: "first_refs ids refs \<Longrightarrow> c \<in> set refs \<Longrightarrow> c < length ids"
  unfolding first_refs_def using findIndex_Some [of "\<lambda>y. y = ids ! c" ids c] by auto

lemma first_refs_distinct: "first_refs ids refs \<Longrightarrow> distinct refs"
  unfolding first_refs_def by (auto simp: distinct_map)

lemma first_refs_id_inj:
  "first_refs ids refs \<Longrightarrow> c \<in> set refs \<Longrightarrow> j \<in> set refs \<Longrightarrow> ids ! j = ids ! c \<Longrightarrow> j = c"
  unfolding first_refs_def by (auto simp: distinct_map dest: inj_onD)

lemma collidingParticles_Cons:
  "collidingParticles upd (i # pIds) =
     (case findIndex (\<lambda>p. pid p = i) upd of
        None \<Rightarrow> collidingParticles upd pIds
      | Some c \<Rightarrow> c # collidingParticles upd pIds)"
  by (simp add: collidingParticles_def split: option.splits)

lemma collidingParticles_Nil [simp]: "collidingParticles upd [] = []"
  by (simp add: collidingParticles_def)

lemma collidingParticles_ids:
  assumes "set pIds \<subseteq> pid ` set upd"
  shows "map (\<lambda>c. map pid upd ! c) (collidingParticles upd pIds) = pIds
         \<and> (\<forall>c \<in> set (collidingParticles upd pIds).
               findIndex (\<lambda>y. y = map pid upd ! c) (map pid upd) = Some c)"
  using assms
proof (induction pIds)
  case Nil
  then show ?case by simp
next
  case (Cons i pIds)
  from Cons.prems have "i \<in> pid ` set upd" by simp
  then have "findIndex (\<lambda>p. pid p = i) upd \<noteq> None" by (auto simp: findIndex_None)
  then obtain c where c: "findIndex (\<lambda>p. pid p = i) upd = Some c" by auto
  from findIndex_Some [OF c] have cl: "c < length upd" "pid (upd ! c) = i" by simp_all
  from c have "findIndex (\<lambda>y. y = map pid upd ! c) (map pid upd) = Some c"
    using cl by (simp add: findIndex_map [symmetric])
  with Cons c cl show ?case by (simp add: collidingParticles_Cons)
qed

lemma collidingParticles_first_refs:
  assumes "set pIds \<subseteq> pid ` set upd" "distinct pIds"
  shows "first_refs (map pid upd) (collidingParticles upd pIds)"
  using collidingParticles_ids [OF assms(1)] assms(2) by (simp add: first_refs_def)

lemma length_collidingParticles:
  assumes "set pIds \<subseteq> pid ` set upd"
  shows "length (collidingParticles upd pIds) = length pIds"
  using collidingParticles_ids [OF assms, THEN conjunct1, THEN arg_cong, of length] by simp

lemma others_removeAll:
  assumes "first_refs (map pid u) refs" "c \<in> set refs"
  shows "filter (\<lambda>j. pid (u ! j) \<noteq> pid (u ! c)) refs = removeAll c refs"
proof -
  have "pid (u ! j) \<noteq> pid (u ! c) \<longleftrightarrow> j \<noteq> c" if "j \<in> set refs" for j
    using first_refs_id_inj [OF assms(1) assms(2) that] first_refs_bound [OF assms(1) that]
      first_refs_bound [OF assms(1) assms(2)] by auto
  then have "filter (\<lambda>j. pid (u ! j) \<noteq> pid (u ! c)) refs = filter (\<lambda>j. j \<noteq> c) refs"
    by (intro filter_cong) simp_all
  then show ?thesis by (simp add: removeAll_filter_not_eq eq_commute)
qed

lemma length_removeAll_distinct:
  "distinct xs \<Longrightarrow> c \<in> set xs \<Longrightarrow> length (removeAll c xs) = length xs - 1"
  by (simp add: distinct_remove1_removeAll [symmetric] length_remove1)

lemma resonate_ref:
  assumes "first_refs (map pid u) refs" "c \<in> set refs" "2 \<le> length refs"
  shows "resonate refs c (u, t) =
           (u[c := resonated u (removeAll c refs) c c],
            t \<or> 1 \<le> energyLevel (resonated u (removeAll c refs) c c))"
proof -
  from assms(1,2) have cl: "c < length u" using first_refs_bound by fastforce
  from assms(1,2) have "findIndex (\<lambda>y. y = map pid u ! c) (map pid u) = Some c"
    by (simp add: first_refs_def)
  with cl have i: "findIndex (\<lambda>p. pid p = pid (u ! c)) u = Some c"
    by (simp add: findIndex_map [symmetric])
  have "length (removeAll c refs) = length refs - 1"
    using first_refs_distinct [OF assms(1)] assms(2) by (rule length_removeAll_distinct)
  with assms(3) have "removeAll c refs \<noteq> []" by auto
  with resonate_Some [OF i others_removeAll [OF assms(1,2)]] show ?thesis by simp
qed

lemma resonate_ref_pids:
  "map pid (u[c := resonated u os c c]) = map pid u"
  by (cases "c < length u") (simp_all add: map_update list_update_same_conv list_update_beyond)

text \<open>The loop over the references \<open>cs\<close>, a part of \<open>refs\<close> without repetition.\<close>

lemma fold_resonate_frame:
  assumes "first_refs (map pid u) refs" "set cs \<subseteq> set refs" "2 \<le> length refs" "j \<notin> set cs"
  shows "fst (fold (resonate refs) cs (u, t)) ! j = u ! j"
  using assms
proof (induction cs arbitrary: u t)
  case Nil
  then show ?case by simp
next
  case (Cons c cs)
  let ?u = "u[c := resonated u (removeAll c refs) c c]"
  from Cons.prems have c: "c \<in> set refs" and j: "j \<noteq> c" by auto
  have r: "resonate refs c (u, t) = (?u, t \<or> 1 \<le> energyLevel (resonated u (removeAll c refs) c c))"
    using Cons.prems(1) c Cons.prems(3) by (rule resonate_ref)
  have "first_refs (map pid ?u) refs" using Cons.prems(1) by (simp add: resonate_ref_pids)
  from Cons.IH [OF this] Cons.prems(2,3,4)
  have "fst (fold (resonate refs) cs (?u, t \<or> 1 \<le> energyLevel (resonated u (removeAll c refs) c c))) ! j = ?u ! j"
    by simp
  with j show ?case by (simp add: r)
qed

lemma fold_resonate_snd:
  assumes "first_refs (map pid u) refs" "set cs \<subseteq> set refs" "2 \<le> length refs" "distinct cs"
  shows "snd (fold (resonate refs) cs (u, t)) \<longleftrightarrow>
           t \<or> (\<exists>c \<in> set cs. 1 \<le> energyLevel (fst (fold (resonate refs) cs (u, t)) ! c))"
  using assms
proof (induction cs arbitrary: u t)
  case Nil
  then show ?case by simp
next
  case (Cons c cs)
  let ?p = "resonated u (removeAll c refs) c c"
  let ?u = "u[c := ?p]"
  let ?t = "t \<or> 1 \<le> energyLevel ?p"
  from Cons.prems have c: "c \<in> set refs" and nc: "c \<notin> set cs" by auto
  from Cons.prems(1) c have cl: "c < length u" using first_refs_bound by fastforce
  have r: "resonate refs c (u, t) = (?u, ?t)"
    using Cons.prems(1) c Cons.prems(3) by (rule resonate_ref)
  have f: "first_refs (map pid ?u) refs" using Cons.prems(1) by (simp add: resonate_ref_pids)
  from fold_resonate_frame [OF f _ Cons.prems(3) nc, of ?t] Cons.prems(2) cl
  have same: "fst (fold (resonate refs) cs (?u, ?t)) ! c = ?p" by simp
  from Cons.IH [OF f, of ?t] Cons.prems(2,3,4)
  have "snd (fold (resonate refs) cs (?u, ?t)) \<longleftrightarrow>
          ?t \<or> (\<exists>c \<in> set cs. 1 \<le> energyLevel (fst (fold (resonate refs) cs (?u, ?t)) ! c))"
    by simp
  with same show ?case by (simp add: r, blast?)
qed

text \<open>The update of one participant, in the words of the specification.\<close>

definition mean :: "real list \<Rightarrow> real" where
  "mean vs = sum_list vs / real (length vs)"

definition resonance_factor :: "particle_state \<Rightarrow> particle_state list \<Rightarrow> real" where
  "resonance_factor p others = (1 - \<bar>baseFrequency p - mean (map baseFrequency others)\<bar> / 899)\<^sup>2"

definition amplitude_factor :: "particle_state \<Rightarrow> particle_state list \<Rightarrow> real" where
  "amplitude_factor p others = (amplitude p + mean (map amplitude others)) / 2"

definition harmonic_after :: "particle_state \<Rightarrow> particle_state list \<Rightarrow> real" where
  "harmonic_after p others =
     min 4.0 (harmonicFactor p +
              resonance_factor p others * amplitude_factor p others * (0.6 + 0.2 * real (length others)))"

definition amplitude_after :: "particle_state \<Rightarrow> particle_state list \<Rightarrow> real" where
  "amplitude_after p others = min 1.0 (amplitude p + amplitude_factor p others * 0.15)"

definition energy_after :: "particle_state \<Rightarrow> particle_state list \<Rightarrow> real" where
  "energy_after p others = min 1.0 (energyLevel p + 0.2 * real (length others))"

lemma foldl_add_sum_list:
  fixes z :: real
  shows "foldl (\<lambda>acc j. acc + h j) z os = z + sum_list (map h os)"
  by (induction os arbitrary: z) simp_all

lemma resonated_spec:
  "harmonicFactor (resonated u os c c) = harmonic_after (u ! c) (map ((!) u) os)"
  "amplitude (resonated u os c c) = amplitude_after (u ! c) (map ((!) u) os)"
  "energyLevel (resonated u os c c) = energy_after (u ! c) (map ((!) u) os)"
  by (simp_all add: resonated_def Let_def harmonic_after_def amplitude_after_def energy_after_def
        resonance_factor_def amplitude_factor_def mean_def foldl_add_sum_list o_def
        FREQ_HIGH_def FREQ_LOW_def mult.commute)

lemma mean_nonneg: "(\<forall>v \<in> set vs. 0 \<le> v) \<Longrightarrow> 0 \<le> mean vs"
  by (simp add: mean_def sum_list_nonneg)

lemma after_mono:
  assumes "0 \<le> amplitude p" "\<forall>q \<in> set others. 0 \<le> amplitude q"
  shows "harmonicFactor p \<le> 4 \<Longrightarrow> harmonicFactor p \<le> harmonic_after p others"
    and "amplitude p \<le> 1 \<Longrightarrow> amplitude p \<le> amplitude_after p others"
    and "energyLevel p \<le> 1 \<Longrightarrow> energyLevel p \<le> energy_after p others"
    and "0 \<le> amplitude_after p others"
proof -
  have "0 \<le> mean (map amplitude others)" using assms(2) by (intro mean_nonneg) auto
  with assms(1) have af: "0 \<le> amplitude_factor p others" by (simp add: amplitude_factor_def)
  have rf: "0 \<le> resonance_factor p others" by (simp add: resonance_factor_def)
  have "0 \<le> resonance_factor p others * amplitude_factor p others * (0.6 + 0.2 * real (length others))"
    using af rf by simp
  then show "harmonicFactor p \<le> 4 \<Longrightarrow> harmonicFactor p \<le> harmonic_after p others"
    by (simp add: harmonic_after_def)
  have a: "0 \<le> amplitude_factor p others * 0.15" using af by simp
  then show "amplitude p \<le> 1 \<Longrightarrow> amplitude p \<le> amplitude_after p others"
    by (simp add: amplitude_after_def)
  show "energyLevel p \<le> 1 \<Longrightarrow> energyLevel p \<le> energy_after p others"
    by (simp add: energy_after_def)
  from a assms(1) show "0 \<le> amplitude_after p others"
    by (simp add: amplitude_after_def)
qed

lemma fold_resonate_occupant:
  assumes fr: "first_refs (map pid upd) refs" and two: "2 \<le> length refs" and k: "k < length refs"
  shows "fst (fold (resonate refs) refs (upd, False)) ! (refs ! k) =
           resonated (fst (fold (resonate refs) (take k refs) (upd, False)))
             (removeAll (refs ! k) refs) (refs ! k) (refs ! k)"
    and "\<forall>m < length refs.
           fst (fold (resonate refs) (take k refs) (upd, False)) ! (refs ! m) =
             (if m < k then fst (fold (resonate refs) refs (upd, False)) ! (refs ! m)
              else upd ! (refs ! m))"
proof -
  let ?c = "refs ! k"
  let ?stk = "fold (resonate refs) (take k refs) (upd, False)"
  let ?b = "fst ?stk"
  let ?new = "resonated ?b (removeAll ?c refs) ?c ?c"
  let ?t = "snd ?stk \<or> 1 \<le> energyLevel ?new"
  let ?after = "fst (fold (resonate refs) refs (upd, False))"
  have d: "distinct refs" using fr by (rule first_refs_distinct)
  have c: "?c \<in> set refs" using k by simp
  have split: "refs = take k refs @ ?c # drop (Suc k) refs" using k by (rule id_take_nth_drop)
  have frb: "first_refs (map pid ?b) refs" using fr by (simp add: fold_resonate_pids)
  have cl: "?c < length ?b" using first_refs_bound [OF frb c] by simp
  have step: "resonate refs ?c ?stk = (?b[?c := ?new], ?t)"
    using resonate_ref [OF frb c two, of "snd ?stk"] by simp
  have "fold (resonate refs) refs (upd, False)
          = fold (resonate refs) (drop (Suc k) refs) (resonate refs ?c ?stk)"
    by (subst split) (simp only: fold_append fold_simps o_apply)
  then have after: "?after = fst (fold (resonate refs) (drop (Suc k) refs) (?b[?c := ?new], ?t))"
    by (simp only: step)
  have frn: "first_refs (map pid (?b[?c := ?new])) refs" using frb by (simp add: resonate_ref_pids)
  have not_later: "refs ! m \<notin> set (drop (Suc k) refs)" if "m \<le> k" "m < length refs" for m
  proof
    assume "refs ! m \<in> set (drop (Suc k) refs)"
    then obtain i where "i < length refs - Suc k" "drop (Suc k) refs ! i = refs ! m"
      by (auto simp: in_set_conv_nth)
    then have "refs ! (Suc k + i) = refs ! m" "Suc k + i < length refs" by simp_all
    with d that show False by (simp add: distinct_conv_nth)
  qed
  have not_earlier: "refs ! m \<notin> set (take k refs)" if "k \<le> m" "m < length refs" for m
  proof
    assume "refs ! m \<in> set (take k refs)"
    then obtain i where "i < k" "i < length refs" "take k refs ! i = refs ! m"
      by (auto simp: in_set_conv_nth)
    then have "refs ! i = refs ! m" by simp
    with d that \<open>i < k\<close> \<open>i < length refs\<close> show False by (simp add: distinct_conv_nth)
  qed
  have frame_after: "?after ! j = (?b[?c := ?new]) ! j" if "j \<notin> set (drop (Suc k) refs)" for j
    unfolding after
    using fold_resonate_frame [OF frn _ two that, of ?t] by (simp add: set_drop_subset)
  from frame_after [OF not_later [of k]] k cl
  show "?after ! ?c = ?new" by simp
  show "\<forall>m < length refs. ?b ! (refs ! m) = (if m < k then ?after ! (refs ! m) else upd ! (refs ! m))"
  proof (intro allI impI)
    fix m assume m: "m < length refs"
    show "?b ! (refs ! m) = (if m < k then ?after ! (refs ! m) else upd ! (refs ! m))"
    proof (cases "m < k")
      case True
      with d m k have "refs ! m \<noteq> ?c" by (simp add: distinct_conv_nth)
      with frame_after [OF not_later [of m]] True m show ?thesis by simp
    next
      case False
      with fold_resonate_frame [OF fr _ two not_earlier [of m], of False] m
      show ?thesis by (simp add: set_take_subset)
    qed
  qed
qed

section \<open>The bounds of the attributes\<close>

definition in_bounds :: "particle_state \<Rightarrow> bool" where
  "in_bounds p \<longleftrightarrow>
     4 / 10 \<le> amplitude p \<and> amplitude p \<le> 1 \<and> 1 \<le> harmonicFactor p \<and> harmonicFactor p \<le> 4 \<and>
     1 / 10 \<le> energyLevel p \<and> energyLevel p \<le> 1"

lemma resonated_in_bounds:
  assumes b: "\<forall>p \<in> set u. in_bounds p" and c: "c < length u" and i: "idx < length u"
    and os: "\<forall>j \<in> set os. j < length u"
  shows "in_bounds (resonated u os c idx)"
proof -
  let ?n = "real (length os)"
  let ?avgA = "foldl (\<lambda>acc j. acc + amplitude (u ! j)) 0 os / ?n"
  let ?avgB = "foldl (\<lambda>acc j. acc + baseFrequency (u ! j)) 0 os / ?n"
  let ?rf = "(1 - \<bar>baseFrequency (u ! c) - ?avgB\<bar> / (FREQ_HIGH - FREQ_LOW))\<^sup>2"
  let ?af = "(amplitude (u ! c) + ?avgA) / 2"
  from b c i have bc: "in_bounds (u ! c)" and bi: "in_bounds (u ! idx)" by simp_all
  have "0 \<le> sum_list (map (\<lambda>j. amplitude (u ! j)) os)"
  proof (rule sum_list_nonneg)
    fix v assume "v \<in> set (map (\<lambda>j. amplitude (u ! j)) os)"
    then obtain j where "j \<in> set os" "v = amplitude (u ! j)" by auto
    with os b have "in_bounds (u ! j)" by simp
    with \<open>v = amplitude (u ! j)\<close> show "0 \<le> v" by (simp add: in_bounds_def)
  qed
  then have "0 \<le> ?avgA" by (simp add: foldl_add_sum_list)
  with bc have af: "0 \<le> ?af" by (simp add: in_bounds_def)
  have rf: "0 \<le> ?rf" by simp
  define hinc where "hinc = ?rf * ?af * (6 / 10 + ?n * (2 / 10))"
  define ainc where "ainc = ?af * (15 / 100)"
  define einc where "einc = (2 / 10) * ?n"
  have "0 \<le> ?rf * ?af" using rf af by (rule mult_nonneg_nonneg)
  then have "0 \<le> ?rf * ?af * (6 / 10 + ?n * (2 / 10))" by (rule mult_nonneg_nonneg) simp
  then have inc1: "0 \<le> hinc" by (simp only: hinc_def)
  have "0 \<le> ?af * (15 / 100)" using af by (rule mult_nonneg_nonneg) simp
  then have inc2: "0 \<le> ainc" by (simp only: ainc_def)
  have inc3: "0 \<le> einc" by (simp add: einc_def)
  note inc = inc1 inc2 inc3
  have h: "harmonicFactor (resonated u os c idx) = min 4 (harmonicFactor (u ! idx) + hinc)"
    and a: "amplitude (resonated u os c idx) = min 1 (amplitude (u ! c) + ainc)"
    and e: "energyLevel (resonated u os c idx) = min 1 (energyLevel (u ! c) + einc)"
    by (simp_all add: resonated_def Let_def hinc_def ainc_def einc_def)
  have "1 \<le> harmonicFactor (resonated u os c idx)" "harmonicFactor (resonated u os c idx) \<le> 4"
    unfolding h using bi inc by (simp_all add: in_bounds_def)
  moreover have "4 / 10 \<le> amplitude (resonated u os c idx)" "amplitude (resonated u os c idx) \<le> 1"
    unfolding a using bc inc by (simp_all add: in_bounds_def)
  moreover have "1 / 10 \<le> energyLevel (resonated u os c idx)" "energyLevel (resonated u os c idx) \<le> 1"
    unfolding e using bc inc by (simp_all add: in_bounds_def)
  ultimately show ?thesis by (simp add: in_bounds_def)
qed

lemma collidingParticles_bound: "c \<in> set (collidingParticles upd pIds) \<Longrightarrow> c < length upd"
proof (induction pIds)
  case Nil
  then show ?case by simp
next
  case (Cons i pIds)
  then show ?case
    by (auto simp: collidingParticles_Cons split: option.splits dest: findIndex_Some)
qed

lemma resonate_in_bounds:
  assumes "\<forall>p \<in> set (fst st). in_bounds p" "\<forall>j \<in> set refs. j < length (fst st)" "c \<in> set refs"
  shows "\<forall>p \<in> set (fst (resonate refs c st)). in_bounds p"
proof (cases rule: resonate_cases [of refs c st])
  case same
  with assms(1) show ?thesis by simp
next
  case (changed idx others)
  from findIndex_Some [OF changed(1)] have i: "idx < length (fst st)" by simp
  have "in_bounds (resonated (fst st) others c idx)"
    using assms changed(2) i by (intro resonated_in_bounds) auto
  with assms(1) show ?thesis
    unfolding changed(4) using set_update_subset_insert [of "fst st" idx] by auto
qed

lemma fold_resonate_in_bounds:
  assumes "\<forall>p \<in> set (fst st). in_bounds p" "\<forall>j \<in> set refs. j < length (fst st)" "set cs \<subseteq> set refs"
  shows "\<forall>p \<in> set (fst (fold (resonate refs) cs st)). in_bounds p"
  using assms
proof (induction cs arbitrary: st)
  case Nil
  then show ?case by simp
next
  case (Cons c cs)
  have "\<forall>p \<in> set (fst (resonate refs c st)). in_bounds p"
    using Cons.prems by (intro resonate_in_bounds) auto
  moreover have "length (fst (resonate refs c st)) = length (fst st)"
    using resonate_pids [of refs c st, THEN arg_cong, of length] by simp
  ultimately show ?case using Cons.IH [of "resonate refs c st"] Cons.prems by simp
qed

lemma collide_in_bounds:
  assumes "\<forall>p \<in> set upd. in_bounds p"
  shows "\<forall>p \<in> set (fst (collide upd pIds)). in_bounds p"
  using assms fold_resonate_in_bounds [of "(upd, False)" "collidingParticles upd pIds" "collidingParticles upd pIds"]
  by (auto simp: collide_def Let_def dest: collidingParticles_bound)

text \<open>
  The collision at one node, on any array. At a node whose occupants \<open>pIds\<close> are at least
  two distinct ids of particles of the array, every occupant has one reference, and its
  body of the loop runs once. When the turn of the \<open>k\<close>-th occupant comes, the array holds
  the occupants before it as the collision leaves them and the others, itself included,
  as they were. From the other occupants as the array holds them then, the occupant gets
  the harmonic factor, the amplitude and the energy of the specification's formulas (the
  resonance factor from the base frequencies, which no collision changes). With all
  attributes within their bounds before the collision, none of the three decreases. A
  particle that is not an occupant is unchanged.
\<close>

lemma collide_each_occupant:
  assumes "distinct pIds" "set pIds \<subseteq> pid ` set upd" "2 \<le> length pIds"
    and "\<forall>p \<in> set upd. in_bounds p"
  shows "let refs = collidingParticles upd pIds; after = fst (collide upd pIds)
         in length refs = length pIds \<and> distinct refs \<and>
            map carried after = map carried upd \<and>
            (\<forall>j < length upd. j \<notin> set refs \<longrightarrow> after ! j = upd ! j) \<and>
            (\<forall>k < length pIds.
               let c = refs ! k;
                   before = fst (fold (resonate refs) (take k refs) (upd, False));
                   others = map ((!) before) (removeAll c refs)
               in c < length upd \<and> pid (upd ! c) = pIds ! k \<and>
                  length others = length pIds - 1 \<and>
                  (\<forall>m < length pIds.
                     before ! (refs ! m) = (if m < k then after ! (refs ! m) else upd ! (refs ! m))) \<and>
                  harmonicFactor (after ! c) = harmonic_after (upd ! c) others \<and>
                  amplitude (after ! c) = amplitude_after (upd ! c) others \<and>
                  energyLevel (after ! c) = energy_after (upd ! c) others \<and>
                  harmonicFactor (upd ! c) \<le> harmonicFactor (after ! c) \<and>
                  amplitude (upd ! c) \<le> amplitude (after ! c) \<and>
                  energyLevel (upd ! c) \<le> energyLevel (after ! c))"
proof -
  let ?refs = "collidingParticles upd pIds"
  let ?after = "fst (collide upd pIds)"
  have len: "length ?refs = length pIds" using assms(2) by (rule length_collidingParticles)
  have fr: "first_refs (map pid upd) ?refs" using assms(2,1) by (rule collidingParticles_first_refs)
  have d: "distinct ?refs" using fr by (rule first_refs_distinct)
  have two: "2 \<le> length ?refs" using assms(3) len by simp
  have after: "?after = fst (fold (resonate ?refs) ?refs (upd, False))"
    using two by (simp add: collide_def Let_def)
  have car: "map carried ?after = map carried upd" by (rule collide_carried)
  have frame: "?after ! j = upd ! j" if "j \<notin> set ?refs" for j
    unfolding after using fold_resonate_frame [OF fr _ two that, of False] by simp
  have occ: "?refs ! k < length upd \<and> pid (upd ! (?refs ! k)) = pIds ! k \<and>
      length (map ((!) (fst (fold (resonate ?refs) (take k ?refs) (upd, False)))) (removeAll (?refs ! k) ?refs))
        = length pIds - 1 \<and>
      (\<forall>m < length pIds.
         fst (fold (resonate ?refs) (take k ?refs) (upd, False)) ! (?refs ! m) =
           (if m < k then ?after ! (?refs ! m) else upd ! (?refs ! m))) \<and>
      harmonicFactor (?after ! (?refs ! k)) =
        harmonic_after (upd ! (?refs ! k))
          (map ((!) (fst (fold (resonate ?refs) (take k ?refs) (upd, False)))) (removeAll (?refs ! k) ?refs)) \<and>
      amplitude (?after ! (?refs ! k)) =
        amplitude_after (upd ! (?refs ! k))
          (map ((!) (fst (fold (resonate ?refs) (take k ?refs) (upd, False)))) (removeAll (?refs ! k) ?refs)) \<and>
      energyLevel (?after ! (?refs ! k)) =
        energy_after (upd ! (?refs ! k))
          (map ((!) (fst (fold (resonate ?refs) (take k ?refs) (upd, False)))) (removeAll (?refs ! k) ?refs)) \<and>
      harmonicFactor (upd ! (?refs ! k)) \<le> harmonicFactor (?after ! (?refs ! k)) \<and>
      amplitude (upd ! (?refs ! k)) \<le> amplitude (?after ! (?refs ! k)) \<and>
      energyLevel (upd ! (?refs ! k)) \<le> energyLevel (?after ! (?refs ! k))"
    if k: "k < length pIds" for k
  proof -
    let ?c = "?refs ! k"
    let ?b = "fst (fold (resonate ?refs) (take k ?refs) (upd, False))"
    let ?os = "map ((!) ?b) (removeAll ?c ?refs)"
    from k len have kr: "k < length ?refs" by simp
    then have cin: "?c \<in> set ?refs" by simp
    have cl: "?c < length upd" using first_refs_bound [OF fr cin] by simp
    have "map (\<lambda>c. map pid upd ! c) ?refs ! k = pIds ! k"
      using collidingParticles_ids [OF assms(2)] by simp
    with kr cl have id: "pid (upd ! ?c) = pIds ! k" by simp
    have los: "length ?os = length pIds - 1"
      using length_removeAll_distinct [OF d cin] len by simp
    note fo = fold_resonate_occupant [OF fr two kr]
    from fo(2) len have pos: "\<forall>m < length pIds. ?b ! (?refs ! m) =
        (if m < k then ?after ! (?refs ! m) else upd ! (?refs ! m))"
      by (simp add: after)
    from pos k have own: "?b ! ?c = upd ! ?c" by simp
    from fo(1) have val: "?after ! ?c = resonated ?b (removeAll ?c ?refs) ?c ?c"
      by (simp add: after)
    have h: "harmonicFactor (?after ! ?c) = harmonic_after (upd ! ?c) ?os"
      and a: "amplitude (?after ! ?c) = amplitude_after (upd ! ?c) ?os"
      and e: "energyLevel (?after ! ?c) = energy_after (upd ! ?c) ?os"
      unfolding val resonated_spec own by (rule refl)+
    have lb: "length ?b = length upd"
      using fold_resonate_pids [of ?refs "take k ?refs" "(upd, False)", THEN arg_cong, of length] by simp
    have bb: "\<forall>p \<in> set ?b. in_bounds p"
      using assms(4) fold_resonate_in_bounds [of "(upd, False)" ?refs "take k ?refs"]
      by (auto dest: collidingParticles_bound in_set_takeD)
    have "\<forall>q \<in> set ?os. 0 \<le> amplitude q"
    proof
      fix q assume "q \<in> set ?os"
      then obtain j where "j \<in> set ?refs" "q = ?b ! j" by auto
      with lb bb have "in_bounds q" by (auto dest: collidingParticles_bound)
      then show "0 \<le> amplitude q" by (simp add: in_bounds_def)
    qed
    moreover from assms(4) cl have bc: "in_bounds (upd ! ?c)" by simp
    ultimately have
      "harmonicFactor (upd ! ?c) \<le> harmonic_after (upd ! ?c) ?os"
      "amplitude (upd ! ?c) \<le> amplitude_after (upd ! ?c) ?os"
      "energyLevel (upd ! ?c) \<le> energy_after (upd ! ?c) ?os"
      using after_mono [of "upd ! ?c" ?os] by (simp_all add: in_bounds_def)
    then have m: "harmonicFactor (upd ! ?c) \<le> harmonicFactor (?after ! ?c)"
      "amplitude (upd ! ?c) \<le> amplitude (?after ! ?c)"
      "energyLevel (upd ! ?c) \<le> energyLevel (?after ! ?c)"
      by (simp_all only: h a e)
    show ?thesis by (intro conjI cl id los pos h a e m)
  qed
  show ?thesis
    unfolding Let_def
    apply (intro conjI)
        apply (rule len)
       apply (rule d)
      apply (rule car)
     apply (intro allI impI, erule frame)
    apply (intro allI impI, erule occ)
    done
qed


definition example_particle :: "string \<Rightarrow> real \<Rightarrow> real \<Rightarrow> real \<Rightarrow> particle_state" where
  "example_particle i f a e =
     \<lparr>pid = i, baseFrequency = f, locationalFrequency = f, harmonicFactor = 1, amplitude = a,
      energyLevel = e, pattern = Sine, pcolor = color_black, targetNodeId = Some ''a''\<rparr>"

definition colliding_pair :: "particle_state list" where
  "colliding_pair =
     [example_particle ''A'' 440 (5 / 10) (85 / 100), example_particle ''B'' 440 (7 / 10) (3 / 10)]"

lemma colliding_pair_refs: "collidingParticles colliding_pair [''A'', ''B''] = [0, 1]"
  by (simp add: collidingParticles_Cons colliding_pair_def example_particle_def)

lemma colliding_pair_values:
  "distinct [''A'', ''B''] \<and> set [''A'', ''B''] \<subseteq> pid ` set colliding_pair \<and>
   2 \<le> length [''A'', ''B''] \<and> in_bounds (colliding_pair ! 0) \<and> in_bounds (colliding_pair ! 1) \<and>
   harmonicFactor (fst (collide colliding_pair [''A'', ''B'']) ! 0) = 148 / 100 \<and>
   amplitude (fst (collide colliding_pair [''A'', ''B'']) ! 0) = 59 / 100 \<and>
   energyLevel (fst (collide colliding_pair [''A'', ''B'']) ! 0) = 1 \<and>
   amplitude (fst (collide colliding_pair [''A'', ''B'']) ! 1) = 79675 / 100000 \<and>
   energyLevel (fst (collide colliding_pair [''A'', ''B'']) ! 1) = 5 / 10"
proof -
  let ?after = "fst (collide colliding_pair [''A'', ''B''])"
  have h1: "distinct [''A'', ''B'']" by simp
  have h2: "set [''A'', ''B''] \<subseteq> pid ` set colliding_pair"
    by (simp add: colliding_pair_def example_particle_def)
  have h3: "2 \<le> length [''A'', ''B'']" by simp
  have b0: "in_bounds (colliding_pair ! 0)" and b1: "in_bounds (colliding_pair ! 1)"
    by (simp_all add: colliding_pair_def example_particle_def in_bounds_def)
  then have h4: "\<forall>p \<in> set colliding_pair. in_bounds p"
    by (simp add: colliding_pair_def)
  note t = collide_each_occupant [OF h1 h2 h3 h4, unfolded Let_def colliding_pair_refs,
      THEN conjunct2, THEN conjunct2, THEN conjunct2, THEN conjunct2]
  from t [THEN spec, of 0]
  have a0: "harmonicFactor (?after ! 0) = harmonic_after (colliding_pair ! 0) [colliding_pair ! 1]"
    "amplitude (?after ! 0) = amplitude_after (colliding_pair ! 0) [colliding_pair ! 1]"
    "energyLevel (?after ! 0) = energy_after (colliding_pair ! 0) [colliding_pair ! 1]"
    by simp_all
  then have v0: "harmonicFactor (?after ! 0) = 148 / 100" "amplitude (?after ! 0) = 59 / 100"
    "energyLevel (?after ! 0) = 1"
    by (simp_all add: harmonic_after_def amplitude_after_def energy_after_def resonance_factor_def
          amplitude_factor_def mean_def colliding_pair_def example_particle_def)
  note t1 = t [THEN spec, of 1, simplified]
  from t1 have "\<forall>m<Suc (Suc 0).
         fst (resonate [0, Suc 0] 0 (colliding_pair, False)) ! ([0, Suc 0] ! m) =
         (if m = 0 then ?after ! ([0, 1] ! m) else colliding_pair ! ([0, 1] ! m))"
    by blast
  from this [THEN spec, of 0]
  have "fst (resonate [0, Suc 0] 0 (colliding_pair, False)) ! 0 = ?after ! 0" by simp
  with t1 have a1: "amplitude (?after ! 1) = amplitude_after (colliding_pair ! 1) [?after ! 0]"
    "energyLevel (?after ! 1) = energy_after (colliding_pair ! 1) [?after ! 0]"
    by simp_all
  have p1: "colliding_pair ! 1 = example_particle ''B'' 440 (7 / 10) (3 / 10)"
    by (simp add: colliding_pair_def)
  from a1 have v1: "amplitude (?after ! 1) = 79675 / 100000" "energyLevel (?after ! 1) = 5 / 10"
    unfolding p1
    by (simp_all add: amplitude_after_def energy_after_def amplitude_factor_def mean_def v0
          example_particle_def)
  show ?thesis by (intro conjI h1 h2 h3 b0 b1 v0 v1)
qed

section \<open>The occupancy of the nodes\<close>

definition occupants :: "occupancy \<Rightarrow> string list" where
  "occupants occ = concat (map snd occ)"

lemma occupants_simps [simp]:
  "occupants [] = []" "occupants ((k, vs) # occ) = vs @ occupants occ"
  by (simp_all add: occupants_def)

lemma occupants_entry: "e \<in> set occ \<Longrightarrow> set (snd e) \<subseteq> set (occupants occ)"
  by (auto simp: occupants_def)

lemma distinct_occupants_entry: "distinct (occupants occ) \<Longrightarrow> e \<in> set occ \<Longrightarrow> distinct (snd e)"
  by (auto simp: occupants_def distinct_concat_iff)

lemma occ_push_keys: "fst ` set (occ_push k v occ) = insert k (fst ` set occ)"
proof (induction occ)
  case Nil
  show ?case by simp
next
  case (Cons e occ)
  obtain k' vs where e: "e = (k', vs)" by (cases e)
  show ?case unfolding e using Cons by (cases "k' = k") auto
qed

lemma occ_push_occupants: "set (occupants (occ_push k v occ)) = insert v (set (occupants occ))"
proof (induction occ)
  case Nil
  show ?case by simp
next
  case (Cons e occ)
  obtain k' vs where e: "e = (k', vs)" by (cases e)
  show ?case unfolding e using Cons by (cases "k' = k") auto
qed

lemma occ_push_distinct:
  "distinct (occupants occ) \<Longrightarrow> v \<notin> set (occupants occ) \<Longrightarrow> distinct (occupants (occ_push k v occ))"
proof (induction occ)
  case Nil
  show ?case by simp
next
  case (Cons e occ)
  obtain k' vs where e: "e = (k', vs)" by (cases e)
  show ?case
  proof (cases "k' = k")
    case True
    with Cons.prems show ?thesis unfolding e by auto
  next
    case False
    from Cons.prems have "distinct (occupants (occ_push k v occ))"
      unfolding e by (intro Cons.IH) auto
    with Cons.prems False show ?thesis
      unfolding e by (auto simp: occ_push_occupants)
  qed
qed

lemma assign_targets_step:
  "assign_targets ns (p # ps) occ =
     (case findNearestNode ns (locationalFrequency p) of
        None \<Rightarrow> (p # fst (assign_targets ns ps occ), snd (assign_targets ns ps occ))
      | Some target \<Rightarrow>
          (p\<lparr>targetNodeId := Some (nid target)\<rparr>
             # fst (assign_targets ns ps (occ_push (nid target) (pid p) occ)),
           snd (assign_targets ns ps (occ_push (nid target) (pid p) occ))))"
  by (simp add: case_prod_beta Let_def split: option.splits)

lemma findNearestNode_in_set: "findNearestNode ns f = Some n \<Longrightarrow> n \<in> set ns"
proof -
  assume s: "findNearestNode ns f = Some n"
  then have "ns \<noteq> []" by auto
  then obtain k where "first_nearest ns f k" "findNearestNode ns f = Some (ns ! k)"
    by (rule findNearestNode_first_nearest)
  with s show ?thesis by (auto simp: first_nearest_def)
qed

lemma assign_targets_keys:
  "fst ` set (snd (assign_targets ns ps occ)) \<subseteq> fst ` set occ \<union> nid ` set ns"
proof (induction ps arbitrary: occ)
  case Nil
  then show ?case by simp
next
  case (Cons p ps)
  show ?case
  proof (cases "findNearestNode ns (locationalFrequency p)")
    case None
    with Cons.IH [of occ] show ?thesis by (simp add: assign_targets_step del: assign_targets.simps)
  next
    case (Some target)
    then have "nid target \<in> nid ` set ns" by (intro imageI findNearestNode_in_set)
    with Cons.IH [of "occ_push (nid target) (pid p) occ"] Some show ?thesis
      unfolding assign_targets_step occ_push_keys by auto
  qed
qed

lemma assign_targets_occupants:
  "set (occupants (snd (assign_targets ns ps occ))) \<subseteq> set (occupants occ) \<union> pid ` set ps"
proof (induction ps arbitrary: occ)
  case Nil
  then show ?case by simp
next
  case (Cons p ps)
  show ?case
  proof (cases "findNearestNode ns (locationalFrequency p)")
    case None
    with Cons.IH [of occ] show ?thesis by (auto simp: assign_targets_step simp del: assign_targets.simps)
  next
    case (Some target)
    with Cons.IH [of "occ_push (nid target) (pid p) occ"] show ?thesis
      unfolding assign_targets_step occ_push_occupants by auto
  qed
qed

lemma assign_targets_distinct:
  "distinct (occupants occ @ map pid ps) \<Longrightarrow> distinct (occupants (snd (assign_targets ns ps occ)))"
proof (induction ps arbitrary: occ)
  case Nil
  then show ?case by simp
next
  case (Cons p ps)
  show ?case
  proof (cases "findNearestNode ns (locationalFrequency p)")
    case None
    from Cons.prems have "distinct (occupants occ @ map pid ps)" by auto
    with Cons.IH [of occ] None show ?thesis by (simp add: assign_targets_step del: assign_targets.simps)
  next
    case (Some target)
    let ?occ = "occ_push (nid target) (pid p) occ"
    from Cons.prems have "distinct (occupants ?occ)"
      by (intro occ_push_distinct) auto
    moreover from Cons.prems have "distinct (map pid ps)" by simp
    moreover from Cons.prems have "set (occupants ?occ) \<inter> set (map pid ps) = {}"
      unfolding occ_push_occupants by auto
    ultimately have "distinct (occupants ?occ @ map pid ps)" by simp
    with Cons.IH [of ?occ] Some show ?thesis by (simp add: assign_targets_step del: assign_targets.simps)
  qed
qed

text \<open>What holds of every entry of the occupancy of a tick when the particles have distinct ids.\<close>

lemma drift_all_pid_set [simp]: "pid ` set (drift_all d s) = pid ` set (particles s)"
  by (simp only: set_map [symmetric] drift_all_pids)

lemma tick_assigned_pids: "map pid (fst (tick_assigned d s)) = map pid (particles s)"
  by (simp add: tick_assigned_def Let_def assign_targets_pids)

lemma tick_assigned_disjoint:
  assumes "distinct (map pid (particles s))"
  shows "distinct (occupants (snd (tick_assigned d s)))"
proof -
  from assms have "distinct (occupants [] @ map pid (drift_all d (rotate_grid s)))" by simp
  then show ?thesis unfolding tick_assigned_def Let_def by (rule assign_targets_distinct)
qed

lemma tick_assigned_entry:
  assumes "e \<in> set (snd (tick_assigned d s))"
  shows "set (snd e) \<subseteq> pid ` set (fst (tick_assigned d s))"
    and "\<exists>n \<in> set (nodes s). nid n = fst e"
proof -
  let ?ps = "drift_all d (rotate_grid s)"
  let ?a = "assign_targets (nodes s) ?ps []"
  have a: "tick_assigned d s = ?a" by (simp add: tick_assigned_def Let_def)
  have "set (snd e) \<subseteq> set (occupants (snd ?a))"
    using assms unfolding a by (rule occupants_entry)
  also have "\<dots> \<subseteq> pid ` set ?ps" using assign_targets_occupants [of "nodes s" ?ps "[]"] by simp
  also have "\<dots> = set (map pid (fst ?a))" by (simp add: assign_targets_pids)
  finally show "set (snd e) \<subseteq> pid ` set (fst (tick_assigned d s))" unfolding a by simp
  from assms have "fst e \<in> fst ` set (snd ?a)" unfolding a by (rule imageI)
  with assign_targets_keys [of "nodes s" ?ps "[]"]
  have "fst e \<in> nid ` set (nodes s)" by (simp only: list.set image_empty Un_empty_left) blast
  then show "\<exists>n \<in> set (nodes s). nid n = fst e" by auto
qed

section \<open>The energy floor and the loop over the nodes\<close>

lemma drift_particle_energy_floor: "1 / 10 \<le> energyLevel (drift_particle ns v r p)"
  by (simp add: drift_particle_def Let_def)

lemma resonate_energy_floor:
  assumes "\<forall>p \<in> set (fst st). 1 / 10 \<le> energyLevel p" "c < length (fst st)"
  shows "\<forall>p \<in> set (fst (resonate refs c st)). 1 / 10 \<le> energyLevel p"
proof (cases rule: resonate_cases [of refs c st])
  case same
  with assms(1) show ?thesis by simp
next
  case (changed idx others)
  from assms have "1 / 10 \<le> energyLevel (fst st ! c)" by simp
  then have "1 / 10 \<le> energyLevel (resonated (fst st) others c idx)"
    by (simp add: resonated_def Let_def)
  with assms(1) show ?thesis
    unfolding changed(4) using set_update_subset_insert [of "fst st" idx] by auto
qed

lemma fold_resonate_energy_floor:
  assumes "\<forall>p \<in> set (fst st). 1 / 10 \<le> energyLevel p" "\<forall>c \<in> set cs. c < length (fst st)"
  shows "\<forall>p \<in> set (fst (fold (resonate refs) cs st)). 1 / 10 \<le> energyLevel p"
  using assms
proof (induction cs arbitrary: st)
  case Nil
  then show ?case by simp
next
  case (Cons c cs)
  have "\<forall>p \<in> set (fst (resonate refs c st)). 1 / 10 \<le> energyLevel p"
    using Cons.prems by (intro resonate_energy_floor) auto
  moreover have "length (fst (resonate refs c st)) = length (fst st)"
    using resonate_pids [of refs c st, THEN arg_cong, of length] by simp
  ultimately show ?case using Cons.IH [of "resonate refs c st"] Cons.prems by simp
qed

lemma collide_energy_floor:
  assumes "\<forall>p \<in> set upd. 1 / 10 \<le> energyLevel p"
  shows "\<forall>p \<in> set (fst (collide upd pIds)). 1 / 10 \<le> energyLevel p"
  using assms fold_resonate_energy_floor [of "(upd, False)" "collidingParticles upd pIds"]
  by (auto simp: collide_def Let_def dest: collidingParticles_bound)

lemma process_node_energy_floor:
  assumes "\<forall>p \<in> set (updated (snd st)). 1 / 10 \<le> energyLevel p"
  shows "\<forall>p \<in> set (updated (snd (process_node e st))). 1 / 10 \<le> energyLevel p"
  using assms collide_energy_floor [of "updated (snd st)" "snd e"]
  by (simp add: process_node_def Let_def split: option.splits)

lemma process_node_in_bounds:
  assumes "\<forall>p \<in> set (updated (snd st)). in_bounds p"
  shows "\<forall>p \<in> set (updated (snd (process_node e st))). in_bounds p"
  using assms collide_in_bounds [of "updated (snd st)" "snd e"]
  by (simp add: process_node_def Let_def split: option.splits)

lemma process_node_marks_grow:
  "particleIdsToRemove (snd st) \<subseteq> particleIdsToRemove (snd (process_node e st))"
  by (auto simp: process_node_def Let_def split: option.splits)

lemma fold_process_node_invariant:
  assumes "P st" "\<And>e st. P st \<Longrightarrow> P (process_node e st)"
  shows "P (fold process_node occ st)"
  using assms(1) by (induction occ arbitrary: st) (simp_all add: assms(2))

lemma fold_process_node_marks_grow:
  "particleIdsToRemove (snd st) \<subseteq> particleIdsToRemove (snd (fold process_node occ st))"
proof (induction occ arbitrary: st)
  case Nil
  then show ?case by simp
next
  case (Cons e occ)
  from process_node_marks_grow [of st e] Cons [of "process_node e st"] show ?case by auto
qed

lemma fold_process_node_split:
  assumes "k < length occ"
  shows "fold process_node occ st =
           fold process_node (drop (Suc k) occ)
             (process_node (occ ! k) (fold process_node (take k occ) st))"
proof -
  have "fold process_node occ st = fold process_node (take k occ @ occ ! k # drop (Suc k) occ) st"
    using id_take_nth_drop [OF assms] by simp
  then show ?thesis by (simp only: fold_append fold_simps o_apply)
qed

section \<open>Supernovas\<close>

lemma collide_flag:
  assumes "distinct pIds" "set pIds \<subseteq> pid ` set upd" "2 \<le> length pIds"
  shows "snd (collide upd pIds) \<longleftrightarrow>
           (\<exists>c \<in> set (collidingParticles upd pIds). 1 \<le> energyLevel (fst (collide upd pIds) ! c))"
proof -
  let ?refs = "collidingParticles upd pIds"
  have fr: "first_refs (map pid upd) ?refs" using assms(2,1) by (rule collidingParticles_first_refs)
  have two: "2 \<le> length ?refs" using assms(3) length_collidingParticles [OF assms(2)] by simp
  from fold_resonate_snd [OF fr _ two first_refs_distinct [OF fr], of False] two
  show ?thesis by (simp add: collide_def Let_def)
qed

lemma collide_many:
  assumes "distinct pIds" "set pIds \<subseteq> pid ` set upd" "6 \<le> length pIds"
    and "\<forall>p \<in> set upd. 1 / 10 \<le> energyLevel p"
  shows "\<forall>c \<in> set (collidingParticles upd pIds). energyLevel (fst (collide upd pIds) ! c) = 1"
    and "snd (collide upd pIds)"
proof -
  let ?refs = "collidingParticles upd pIds"
  let ?after = "fst (collide upd pIds)"
  have len: "length ?refs = length pIds" using assms(2) by (rule length_collidingParticles)
  have fr: "first_refs (map pid upd) ?refs" using assms(2,1) by (rule collidingParticles_first_refs)
  have d: "distinct ?refs" using fr by (rule first_refs_distinct)
  have two: "2 \<le> length ?refs" using assms(3) len by simp
  have after: "?after = fst (fold (resonate ?refs) ?refs (upd, False))"
    using two by (simp add: collide_def Let_def)
  show one: "\<forall>c \<in> set ?refs. energyLevel (?after ! c) = 1"
  proof
    fix c assume cin: "c \<in> set ?refs"
    then obtain k where k: "k < length ?refs" "c = ?refs ! k" by (auto simp: in_set_conv_nth)
    let ?b = "fst (fold (resonate ?refs) (take k ?refs) (upd, False))"
    have cl: "c < length upd" using cin by (rule collidingParticles_bound)
    have lb: "length ?b = length upd"
      using fold_resonate_pids [of ?refs "take k ?refs" "(upd, False)", THEN arg_cong, of length] by simp
    have "\<forall>p \<in> set ?b. 1 / 10 \<le> energyLevel p"
      using assms(4) by (intro fold_resonate_energy_floor) (auto dest: in_set_takeD collidingParticles_bound)
    with cl lb have e: "1 / 10 \<le> energyLevel (?b ! c)" by simp
    have "length (removeAll c ?refs) = length ?refs - 1"
      using d cin by (rule length_removeAll_distinct)
    with len assms(3) have n: "5 \<le> real (length (removeAll c ?refs))" by simp
    from fold_resonate_occupant(1) [OF fr two k(1)] k(2)
    have "?after ! c = resonated ?b (removeAll c ?refs) c c" by (simp add: after)
    then have "energyLevel (?after ! c)
        = min 1 (energyLevel (?b ! c) + (2 / 10) * real (length (removeAll c ?refs)))"
      by (simp add: resonated_def Let_def)
    with e n show "energyLevel (?after ! c) = 1" by simp
  qed
  from two have "?refs \<noteq> []" by auto
  then obtain c where "c \<in> set ?refs" by (cases ?refs) auto
  with one have "\<exists>c \<in> set ?refs. 1 \<le> energyLevel (?after ! c)" by auto
  with collide_flag [OF assms(1,2)] assms(3) show "snd (collide upd pIds)" by simp
qed

lemma process_node_found:
  assumes "find (\<lambda>n. nid n = nodeId) (nodes s) = Some node" "1 < length pIds"
  shows "process_node (nodeId, pIds) (s, l) =
     (let s1 = (if isCorner node then fold (corner_torque node (updated l)) pIds s else s);
          collisionEvent = \<lparr>ce_id = nodeId @ ''-'' @ show_nat (clock s), ce_nodeId = nodeId,
                            ce_particleIds = pIds, ce_timestamp = clock s\<rparr>;
          s3 = s1\<lparr>collisionEvents := collisionEvents s @ [collisionEvent],
                  timers := timers s @ [(clock s + 1500, RemoveCollision (ce_id collisionEvent))]\<rparr>;
          supernovaEvent = \<lparr>sn_id = ''sn-'' @ nodeId @ ''-'' @ show_nat (clock s),
                            sn_position = position node, sn_timestamp = clock s\<rparr>
      in if snd (collide (updated l) pIds)
         then (s3\<lparr>supernovaEvents := supernovaEvents s @ [supernovaEvent],
                  timers := timers s @ [(clock s + 1500, RemoveCollision (ce_id collisionEvent)),
                                        (clock s + 2000, RemoveSupernova (sn_id supernovaEvent))]\<rparr>,
               \<lparr>updated = fst (collide (updated l) pIds),
                particleIdsToRemove = particleIdsToRemove l \<union> set pIds,
                explosionsToProcess = explosionsToProcess l + 1\<rparr>)
         else (s3, l\<lparr>updated := fst (collide (updated l) pIds)\<rparr>))"
  using assms by (simp add: process_node_def Let_def setTimeout_def)

lemma funpow_setTimeout_timers:
  "timers ((setTimeout tk dl ^^ k) s) = timers s @ replicate k (clock s + dl, tk)"
  by (induction k) (simp_all add: replicate_append_same)

lemma process_node_explosions:
  assumes "length (supernovaEvents (fst st)) = n + explosionsToProcess (snd st)"
  shows "length (supernovaEvents (fst (process_node e st))) = n + explosionsToProcess (snd (process_node e st))"
  using assms by (simp add: process_node_def Let_def split: option.splits)

lemma tick_loop_explosions:
  "length (supernovaEvents (fst (tick_loop d s))) =
     length (supernovaEvents s) + explosionsToProcess (snd (tick_loop d s))"
  unfolding tick_loop_def Let_def
  by (rule fold_process_node_invariant) (simp_all add: process_node_explosions)

lemma tick_core_events:
  "supernovaEvents (tick_core d s) = supernovaEvents (fst (tick_loop d s))"
  "collisionEvents (tick_core d s) = collisionEvents (fst (tick_loop d s))"
  "gridAngularVelocity (tick_core d s) = gridAngularVelocity (fst (tick_loop d s))"
  "timers (tick_core d s) =
     timers (fst (tick_loop d s)) @ replicate (explosionsToProcess (snd (tick_loop d s))) (clock s + 50, ReplacementSpawn)"
  by (simp_all add: tick_core_def Let_def funpow_setTimeout_timers)

definition measured :: "particle_state \<Rightarrow> real \<times> real \<times> real \<times> real" where
  "measured p = (amplitude p, harmonicFactor p, energyLevel p, locationalFrequency p)"

lemma assign_targets_measured: "map measured (fst (assign_targets ns ps occ)) = map measured ps"
  by (induction ps arbitrary: occ)
     (simp_all add: assign_targets_step measured_def del: assign_targets.simps(2) split: option.splits)

lemma measured_in_set:
  assumes "map measured xs = map measured ys" "p \<in> set xs"
  obtains q where "q \<in> set ys" "measured q = measured p"
proof -
  from assms(2) have "measured p \<in> set (map measured xs)" by simp
  with assms(1) have "measured p \<in> set (map measured ys)" by simp
  then show ?thesis using that by auto
qed

lemma drift_all_elem:
  assumes "p \<in> set (drift_all d s)"
  obtains i q where "q \<in> set (particles s)"
    "p = drift_particle (nodes s) (gridAngularVelocity s) (drift_draw d i) q"
proof -
  from assms obtain i where "i < length (particles s)"
    "p = drift_particle (nodes s) (gridAngularVelocity s) (drift_draw d i) (particles s ! i)"
    by (auto simp: drift_all_def in_set_enumerate_eq)
  then show ?thesis by (intro that [of "particles s ! i" i]) simp_all
qed

lemma tick_assigned_elem:
  assumes "p \<in> set (fst (tick_assigned d s))"
  obtains i q where "q \<in> set (particles s)"
    "measured p = measured (drift_particle (nodes s) (multiplyScalar (97 / 100) (gridAngularVelocity s))
                              (drift_draw d i) q)"
proof -
  from assms have "p \<in> set (fst (assign_targets (nodes s) (drift_all d (rotate_grid s)) []))"
    by (simp add: tick_assigned_def Let_def)
  with assign_targets_measured [of "nodes s" "drift_all d (rotate_grid s)" "[]"]
  obtain p' where p': "p' \<in> set (drift_all d (rotate_grid s))" "measured p' = measured p"
    by (rule measured_in_set)
  from p'(1) obtain i q where "q \<in> set (particles (rotate_grid s))"
    "p' = drift_particle (nodes (rotate_grid s)) (gridAngularVelocity (rotate_grid s)) (drift_draw d i) q"
    by (rule drift_all_elem)
  with p'(2) show ?thesis by (intro that [of q i]) simp_all
qed

lemma tick_assigned_energy_floor:
  "\<forall>p \<in> set (fst (tick_assigned d s)). 1 / 10 \<le> energyLevel p"
proof
  fix p assume "p \<in> set (fst (tick_assigned d s))"
  then obtain i q where "measured p = measured (drift_particle (nodes s)
      (multiplyScalar (97 / 100) (gridAngularVelocity s)) (drift_draw d i) q)"
    by (rule tick_assigned_elem)
  then have "energyLevel p = energyLevel (drift_particle (nodes s)
      (multiplyScalar (97 / 100) (gridAngularVelocity s)) (drift_draw d i) q)"
    by (simp add: measured_def)
  then show "1 / 10 \<le> energyLevel p" by (simp only: drift_particle_energy_floor)
qed

lemma process_node_supernovas_grow:
  "set (supernovaEvents (fst st)) \<subseteq> set (supernovaEvents (fst (process_node e st)))"
  by (auto simp: process_node_def Let_def split: option.splits)

lemma fold_process_node_supernovas_grow:
  "set (supernovaEvents (fst st)) \<subseteq> set (supernovaEvents (fst (fold process_node occ st)))"
proof (induction occ arbitrary: st)
  case Nil
  then show ?case by simp
next
  case (Cons e occ)
  from process_node_supernovas_grow [of st e] Cons [of "process_node e st"] show ?case by auto
qed

lemma process_node_spawn_timers:
  "filter (\<lambda>tm. snd tm = ReplacementSpawn) (timers (fst (process_node e st)))
     = filter (\<lambda>tm. snd tm = ReplacementSpawn) (timers (fst st))"
  by (simp add: process_node_def Let_def split: option.splits)

lemma tick_loop_spawn_timers:
  "filter (\<lambda>tm. snd tm = ReplacementSpawn) (timers (fst (tick_loop d s)))
     = filter (\<lambda>tm. snd tm = ReplacementSpawn) (timers s)"
proof -
  have "filter (\<lambda>tm. snd tm = ReplacementSpawn) (timers (fst (fold process_node occ st)))
     = filter (\<lambda>tm. snd tm = ReplacementSpawn) (timers (fst st))" for occ st
    by (induction occ arbitrary: st) (simp_all add: process_node_spawn_timers)
  then show ?thesis by (simp add: tick_loop_def Let_def)
qed

text \<open>The state in which the loop over the nodes reaches the \<open>k\<close>-th entry of the occupancy.\<close>

definition loop_state_at :: "tick_draws \<Rightarrow> sim_state \<Rightarrow> nat \<Rightarrow> sim_state \<times> tick_locals" where
  "loop_state_at d s k =
     fold process_node (take k (snd (tick_assigned d s)))
       (rotate_grid s, \<lparr>updated = fst (tick_assigned d s), particleIdsToRemove = {}, explosionsToProcess = 0\<rparr>)"

lemma tick_loop_split:
  assumes "k < length (snd (tick_assigned d s))"
  shows "tick_loop d s =
           fold process_node (drop (Suc k) (snd (tick_assigned d s)))
             (process_node (snd (tick_assigned d s) ! k) (loop_state_at d s k))"
  unfolding tick_loop_def loop_state_at_def Let_def using assms by (rule fold_process_node_split)

lemma loop_state_at_frame:
  "nodes (fst (loop_state_at d s k)) = nodes s"
  "clock (fst (loop_state_at d s k)) = clock s"
  "map pid (updated (snd (loop_state_at d s k))) = map pid (particles s)"
  "\<forall>p \<in> set (updated (snd (loop_state_at d s k))). 1 / 10 \<le> energyLevel p"
proof -
  show "nodes (fst (loop_state_at d s k)) = nodes s" "clock (fst (loop_state_at d s k)) = clock s"
    by (simp_all add: loop_state_at_def)
  show "map pid (updated (snd (loop_state_at d s k))) = map pid (particles s)"
    by (simp add: loop_state_at_def fold_process_node_pids tick_assigned_pids)
  show "\<forall>p \<in> set (updated (snd (loop_state_at d s k))). 1 / 10 \<le> energyLevel p"
    unfolding loop_state_at_def
    apply (rule fold_process_node_invariant)
     apply (simp only: snd_conv tick_locals.simps)
     apply (rule tick_assigned_energy_floor)
    apply (erule process_node_energy_floor)
    done
qed

lemma find_node_by_id:
  assumes "\<exists>n \<in> set ns. nid n = i"
  obtains node where "find (\<lambda>n. nid n = i) ns = Some node"
  using assms by (cases "find (\<lambda>n. nid n = i) ns") (auto simp: find_None_iff)

text \<open>
  C3. When the loop body runs for a node that is found, with at least two distinct
  occupants that are particles of the array: no particle leaves or enters the array;
  if after the collision a participant has energy at least 1.0, exactly one
  SupernovaEvent with the node's position is appended, all occupants of the node are
  added to \<open>particleIdsToRemove\<close> and \<open>explosionsToProcess\<close> grows by one; otherwise none
  of the three changes. For the whole tick: the occupancy is computed before the loop,
  the loop keeps every particle, the marked particles are filtered out after it, the
  number of SupernovaEvents grows by \<open>explosionsToProcess\<close>, and that many
  \<open>ReplacementSpawn\<close> callbacks are registered with the delay 50, none of them run
  inside the update of the particles.
\<close>

theorem supernova_mark_then_filter:
  "(find (\<lambda>n. nid n = nodeId) (nodes s) = Some node \<and> 2 \<le> length pIds \<and> distinct pIds \<and>
    set pIds \<subseteq> pid ` set (updated l) \<longrightarrow>
      (let s' = fst (process_node (nodeId, pIds) (s, l));
           l' = snd (process_node (nodeId, pIds) (s, l));
           triggered = (\<exists>c \<in> set (collidingParticles (updated l) pIds). 1 \<le> energyLevel (updated l' ! c))
       in map pid (updated l') = map pid (updated l) \<and> particles s' = particles s \<and>
          (triggered \<longrightarrow>
             supernovaEvents s' =
               supernovaEvents s @ [\<lparr>sn_id = ''sn-'' @ nodeId @ ''-'' @ show_nat (clock s),
                                     sn_position = position node, sn_timestamp = clock s\<rparr>] \<and>
             particleIdsToRemove l' = particleIdsToRemove l \<union> set pIds \<and>
             explosionsToProcess l' = explosionsToProcess l + 1) \<and>
          (\<not> triggered \<longrightarrow>
             supernovaEvents s' = supernovaEvents s \<and>
             particleIdsToRemove l' = particleIdsToRemove l \<and>
             explosionsToProcess l' = explosionsToProcess l))) \<and>
   tick_loop d s =
     fold process_node (snd (tick_assigned d s))
       (rotate_grid s, \<lparr>updated = fst (tick_assigned d s), particleIdsToRemove = {}, explosionsToProcess = 0\<rparr>) \<and>
   map pid (updated (snd (tick_loop d s))) = map pid (particles s) \<and>
   particles (tick_core d s) =
     filter (\<lambda>p. pid p \<notin> particleIdsToRemove (snd (tick_loop d s))) (updated (snd (tick_loop d s))) \<and>
   length (supernovaEvents (tick_core d s)) =
     length (supernovaEvents s) + explosionsToProcess (snd (tick_loop d s)) \<and>
   filter (\<lambda>tm. snd tm = ReplacementSpawn) (timers (tick_core d s)) =
     filter (\<lambda>tm. snd tm = ReplacementSpawn) (timers s)
       @ replicate (explosionsToProcess (snd (tick_loop d s))) (clock s + 50, ReplacementSpawn) \<and>
   length (particles (tick_core d s)) \<le> length (particles s)"
proof (intro conjI impI)
  assume h: "find (\<lambda>n. nid n = nodeId) (nodes s) = Some node \<and> 2 \<le> length pIds \<and> distinct pIds \<and>
    set pIds \<subseteq> pid ` set (updated l)"
  then have f: "find (\<lambda>n. nid n = nodeId) (nodes s) = Some node" and l2: "1 < length pIds"
    and two: "2 \<le> length pIds" and d: "distinct pIds" and sub: "set pIds \<subseteq> pid ` set (updated l)"
    by simp_all
  note pn = process_node_found [OF f l2, of l, unfolded Let_def]
  note flag = collide_flag [OF d sub two]
  have u: "updated (snd (process_node (nodeId, pIds) (s, l))) = fst (collide (updated l) pIds)"
    unfolding pn by simp
  show "let s' = fst (process_node (nodeId, pIds) (s, l));
           l' = snd (process_node (nodeId, pIds) (s, l));
           triggered = (\<exists>c \<in> set (collidingParticles (updated l) pIds). 1 \<le> energyLevel (updated l' ! c))
       in map pid (updated l') = map pid (updated l) \<and> particles s' = particles s \<and>
          (triggered \<longrightarrow>
             supernovaEvents s' =
               supernovaEvents s @ [\<lparr>sn_id = ''sn-'' @ nodeId @ ''-'' @ show_nat (clock s),
                                     sn_position = position node, sn_timestamp = clock s\<rparr>] \<and>
             particleIdsToRemove l' = particleIdsToRemove l \<union> set pIds \<and>
             explosionsToProcess l' = explosionsToProcess l + 1) \<and>
          (\<not> triggered \<longrightarrow>
             supernovaEvents s' = supernovaEvents s \<and>
             particleIdsToRemove l' = particleIdsToRemove l \<and>
             explosionsToProcess l' = explosionsToProcess l)"
    unfolding Let_def u flag [symmetric]
  proof (intro conjI impI)
    show "map pid (fst (collide (updated l) pIds)) = map pid (updated l)" by (rule collide_pids)
    show "particles (fst (process_node (nodeId, pIds) (s, l))) = particles s" by simp
  next
    assume t: "snd (collide (updated l) pIds)"
    show "supernovaEvents (fst (process_node (nodeId, pIds) (s, l))) =
            supernovaEvents s @ [\<lparr>sn_id = ''sn-'' @ nodeId @ ''-'' @ show_nat (clock s),
                                  sn_position = position node, sn_timestamp = clock s\<rparr>]"
      "particleIdsToRemove (snd (process_node (nodeId, pIds) (s, l))) = particleIdsToRemove l \<union> set pIds"
      "explosionsToProcess (snd (process_node (nodeId, pIds) (s, l))) = explosionsToProcess l + 1"
      unfolding pn using t by simp_all
  next
    assume t: "\<not> snd (collide (updated l) pIds)"
    show "supernovaEvents (fst (process_node (nodeId, pIds) (s, l))) = supernovaEvents s"
      "particleIdsToRemove (snd (process_node (nodeId, pIds) (s, l))) = particleIdsToRemove l"
      "explosionsToProcess (snd (process_node (nodeId, pIds) (s, l))) = explosionsToProcess l"
      unfolding pn using t by simp_all
  qed
next
  show "tick_loop d s =
     fold process_node (snd (tick_assigned d s))
       (rotate_grid s, \<lparr>updated = fst (tick_assigned d s), particleIdsToRemove = {}, explosionsToProcess = 0\<rparr>)"
    by (simp add: tick_loop_def Let_def)
  show "map pid (updated (snd (tick_loop d s))) = map pid (particles s)" by (rule tick_loop_pids)
  show "particles (tick_core d s) =
     filter (\<lambda>p. pid p \<notin> particleIdsToRemove (snd (tick_loop d s))) (updated (snd (tick_loop d s)))"
    by (rule tick_core_particles)
  show "length (supernovaEvents (tick_core d s)) =
     length (supernovaEvents s) + explosionsToProcess (snd (tick_loop d s))"
    by (simp only: tick_core_events tick_loop_explosions)
  show "filter (\<lambda>tm. snd tm = ReplacementSpawn) (timers (tick_core d s)) =
     filter (\<lambda>tm. snd tm = ReplacementSpawn) (timers s)
       @ replicate (explosionsToProcess (snd (tick_loop d s))) (clock s + 50, ReplacementSpawn)"
    by (simp add: tick_core_events tick_loop_spawn_timers)
  show "length (particles (tick_core d s)) \<le> length (particles s)" by (rule length_tick_core)
qed


definition pair_locals :: tick_locals where
  "pair_locals = \<lparr>updated = colliding_pair, particleIdsToRemove = {}, explosionsToProcess = 0\<rparr>"

lemma colliding_pair_occupants:
  "distinct [''A'', ''B'']" "set [''A'', ''B''] \<subseteq> pid ` set colliding_pair"
  by (simp_all add: colliding_pair_def example_particle_def)

lemma colliding_pair_first_energy: "energyLevel (fst (collide colliding_pair [''A'', ''B'']) ! 0) = 1"
proof -
  have fr: "first_refs (map pid colliding_pair) [0, 1]"
    using collidingParticles_first_refs [OF colliding_pair_occupants(2,1)]
    by (simp only: colliding_pair_refs)
  from fold_resonate_occupant(1) [OF fr, of 0]
  have "fst (fold (resonate [0, 1]) [0, 1] (colliding_pair, False)) ! 0
          = resonated colliding_pair [1] 0 0" by simp
  then have "fst (collide colliding_pair [''A'', ''B'']) ! 0 = resonated colliding_pair [1] 0 0"
    by (simp add: collide_def Let_def colliding_pair_refs)
  then show ?thesis
    by (simp add: resonated_def Let_def colliding_pair_def example_particle_def)
qed

lemma show_nat_0 [simp]: "show_nat 0 = ''0''"
  by (simp add: show_nat.simps digit_char_def)

theorem supernova_mark_then_filter_witness:
  "find (\<lambda>n. nid n = ''a'') (nodes example_state) = Some (hd example_nodes) \<and>
   2 \<le> length [''A'', ''B''] \<and> distinct [''A'', ''B''] \<and>
   set [''A'', ''B''] \<subseteq> pid ` set (updated pair_locals) \<and>
   1 \<le> energyLevel (updated (snd (process_node (''a'', [''A'', ''B'']) (example_state, pair_locals))) ! 0) \<and>
   supernovaEvents (fst (process_node (''a'', [''A'', ''B'']) (example_state, pair_locals)))
     = [\<lparr>sn_id = ''sn-a-0'', sn_position = vec 0 0 0, sn_timestamp = 0\<rparr>] \<and>
   particleIdsToRemove (snd (process_node (''a'', [''A'', ''B'']) (example_state, pair_locals)))
     = {''A'', ''B''} \<and>
   explosionsToProcess (snd (process_node (''a'', [''A'', ''B'']) (example_state, pair_locals))) = 1"
proof -
  let ?r = "process_node (''a'', [''A'', ''B'']) (example_state, pair_locals)"
  have h1: "find (\<lambda>n. nid n = ''a'') (nodes example_state) = Some (hd example_nodes)"
    by (simp add: example_nodes_def)
  have h2: "2 \<le> length [''A'', ''B'']" by simp
  have h3: "distinct [''A'', ''B'']" by simp
  have h4: "set [''A'', ''B''] \<subseteq> pid ` set (updated pair_locals)"
    using colliding_pair_occupants(2) by (simp add: pair_locals_def)
  have u: "updated (snd ?r) = fst (collide colliding_pair [''A'', ''B''])"
    using process_node_found [OF h1, of "[''A'', ''B'']" pair_locals]
    by (simp add: Let_def pair_locals_def)
  have e: "1 \<le> energyLevel (updated (snd ?r) ! 0)"
    by (simp add: u colliding_pair_first_energy)
  have "0 \<in> set (collidingParticles (updated pair_locals) [''A'', ''B''])"
    by (simp add: pair_locals_def colliding_pair_refs)
  from this e have t: "\<exists>c \<in> set (collidingParticles (updated pair_locals) [''A'', ''B'']).
      1 \<le> energyLevel (updated (snd ?r) ! c)" by (rule rev_bexI)
  from supernova_mark_then_filter [of "''a''" example_state "hd example_nodes" "[''A'', ''B'']" pair_locals,
      THEN conjunct1, unfolded Let_def] h1 h2 h3 h4 t
  have "supernovaEvents (fst ?r) =
          supernovaEvents example_state @ [\<lparr>sn_id = ''sn-'' @ ''a'' @ ''-'' @ show_nat (clock example_state),
             sn_position = position (hd example_nodes), sn_timestamp = clock example_state\<rparr>]"
    "particleIdsToRemove (snd ?r) = particleIdsToRemove pair_locals \<union> set [''A'', ''B'']"
    "explosionsToProcess (snd ?r) = explosionsToProcess pair_locals + 1"
    by blast+
  then have r: "supernovaEvents (fst ?r) = [\<lparr>sn_id = ''sn-a-0'', sn_position = vec 0 0 0, sn_timestamp = 0\<rparr>]"
    "particleIdsToRemove (snd ?r) = {''A'', ''B''}"
    "explosionsToProcess (snd ?r) = 1"
    by (simp_all add: example_state_def fields_at_def example_nodes_def pair_locals_def)
  show ?thesis by (intro conjI h1 h2 h3 h4 e r)
qed

text \<open>
  C10. With six or more occupants at a node the energy a participant gains,
  \<open>0.2 * (n - 1)\<close>, is at least 1.0. So when the energies in the array are at least 0.1,
  every participant has energy 1.0 after the collision and the collision raises the
  supernova flag. In a tick, where the decay leaves every energy at 0.1 or more
  whatever it was before, a node with six or more occupants has all of them marked for
  removal and none of them among the particles after the update, and a SupernovaEvent
  with the node's position is among the published events.
\<close>

theorem six_occupants_always_explode:
  "(6 \<le> length pIds \<longrightarrow> 1 \<le> 0.2 * real (length pIds - 1)) \<and>
   (distinct pIds \<and> set pIds \<subseteq> pid ` set upd \<and> 6 \<le> length pIds \<and>
    (\<forall>p \<in> set upd. 1 / 10 \<le> energyLevel p) \<longrightarrow>
      (\<forall>c \<in> set (collidingParticles upd pIds). energyLevel (fst (collide upd pIds) ! c) = 1) \<and>
      snd (collide upd pIds)) \<and>
   (distinct (map pid (particles s)) \<and> (nodeId, pIds) \<in> set (snd (tick_assigned d s)) \<and>
    6 \<le> length pIds \<longrightarrow>
      set pIds \<subseteq> particleIdsToRemove (snd (tick_loop d s)) \<and>
      (\<forall>p \<in> set (particles (tick_core d s)). pid p \<notin> set pIds) \<and>
      (\<exists>ev \<in> set (supernovaEvents (tick_core d s)).
         sn_id ev = ''sn-'' @ nodeId @ ''-'' @ show_nat (clock s) \<and> sn_timestamp ev = clock s \<and>
         (\<exists>node. find (\<lambda>n. nid n = nodeId) (nodes s) = Some node \<and> sn_position ev = position node)))"
proof (intro conjI impI)
  assume "6 \<le> length pIds"
  then have "5 \<le> real (length pIds - 1)" by simp
  then show "1 \<le> 0.2 * real (length pIds - 1)" by simp
next
  assume h: "distinct pIds \<and> set pIds \<subseteq> pid ` set upd \<and> 6 \<le> length pIds \<and>
    (\<forall>p \<in> set upd. 1 / 10 \<le> energyLevel p)"
  then show "\<forall>c \<in> set (collidingParticles upd pIds). energyLevel (fst (collide upd pIds) ! c) = 1"
    by (intro collide_many(1)) simp_all
  from h show "snd (collide upd pIds)" by (intro collide_many(2)) simp_all
next
  assume h: "distinct (map pid (particles s)) \<and> (nodeId, pIds) \<in> set (snd (tick_assigned d s)) \<and>
    6 \<le> length pIds"
  let ?occ = "snd (tick_assigned d s)"
  from h have dp: "distinct (map pid (particles s))" and e: "(nodeId, pIds) \<in> set ?occ"
    and six: "6 \<le> length pIds" by simp_all
  from e obtain k where k: "k < length ?occ" "?occ ! k = (nodeId, pIds)"
    by (auto simp: in_set_conv_nth)
  let ?st = "loop_state_at d s k"
  have st: "?st = (fst ?st, snd ?st)" by simp
  note fr = loop_state_at_frame [of d s k]
  have d: "distinct pIds"
    using distinct_occupants_entry [OF tick_assigned_disjoint [OF dp] e] by simp
  have "set pIds \<subseteq> pid ` set (fst (tick_assigned d s))"
    using tick_assigned_entry(1) [OF e] by simp
  also have "\<dots> = set (map pid (updated (snd ?st)))"
    by (simp only: set_map [symmetric] tick_assigned_pids fr(3))
  finally have sub: "set pIds \<subseteq> pid ` set (updated (snd ?st))" by simp
  from tick_assigned_entry(2) [OF e] have "\<exists>n \<in> set (nodes s). nid n = nodeId" by simp
  then obtain node where node: "find (\<lambda>n. nid n = nodeId) (nodes s) = Some node"
    by (rule find_node_by_id)
  then have node': "find (\<lambda>n. nid n = nodeId) (nodes (fst ?st)) = Some node" by (simp only: fr(1))
  have flag: "snd (collide (updated (snd ?st)) pIds)"
    using d sub six fr(4) by (rule collide_many(2))
  from six have l1: "1 < length pIds" by simp
  let ?ev = "\<lparr>sn_id = ''sn-'' @ nodeId @ ''-'' @ show_nat (clock s),
              sn_position = position node, sn_timestamp = clock s\<rparr>"
  let ?next = "process_node (nodeId, pIds) (fst ?st, snd ?st)"
  note found = process_node_found [OF node' l1, of "snd ?st", unfolded Let_def]
  have "particleIdsToRemove (snd ?next) = particleIdsToRemove (snd ?st) \<union> set pIds"
    unfolding found using flag by simp
  then have nx1: "set pIds \<subseteq> particleIdsToRemove (snd ?next)" by simp
  have "supernovaEvents (fst ?next) = supernovaEvents (fst ?st) @ [?ev]"
    unfolding found using flag by (simp add: fr(2))
  then have nx2: "?ev \<in> set (supernovaEvents (fst ?next))" by simp
  have loop: "tick_loop d s = fold process_node (drop (Suc k) ?occ) ?next"
    using tick_loop_split [OF k(1)] by (simp only: k(2) prod.collapse)
  show marks: "set pIds \<subseteq> particleIdsToRemove (snd (tick_loop d s))"
    unfolding loop using nx1 fold_process_node_marks_grow [of ?next "drop (Suc k) ?occ"]
    by (rule subset_trans)
  then show "\<forall>p \<in> set (particles (tick_core d s)). pid p \<notin> set pIds"
    by (auto simp: tick_core_particles)
  have "?ev \<in> set (supernovaEvents (tick_core d s))"
    unfolding tick_core_events loop
    using nx2 fold_process_node_supernovas_grow [of ?next "drop (Suc k) ?occ"] by (rule rev_subsetD)
  with node show "\<exists>ev \<in> set (supernovaEvents (tick_core d s)).
         sn_id ev = ''sn-'' @ nodeId @ ''-'' @ show_nat (clock s) \<and> sn_timestamp ev = clock s \<and>
         (\<exists>node. find (\<lambda>n. nid n = nodeId) (nodes s) = Some node \<and> sn_position ev = position node)"
    by (intro bexI [of _ ?ev]) simp_all
qed


definition six_ids :: "string list" where
  "six_ids = [''1'', ''2'', ''3'', ''4'', ''5'', ''6'']"

definition resting_particle :: "string \<Rightarrow> particle_state" where
  "resting_particle i = example_particle i 200 (4 / 10) (1 / 10)"

definition six_state :: sim_state where
  \<comment> \<open>Six particles at rest at the frequency 200, the frequency of the node \<open>a\<close>.\<close>
  "six_state = example_state\<lparr>particles := map resting_particle six_ids\<rparr>"

definition calm_draws :: tick_draws where
  \<comment> \<open>Every drift draw is 0.5: no jitter.\<close>
  "calm_draws = \<lparr>drift_draw = (\<lambda>i. mk_rnd (1 / 2)), stabilize_draws = example_draws ''s''\<rparr>"

lemma six_state_fields [simp]:
  "nodes six_state = example_nodes" "clock six_state = 0"
  "gridAngularVelocity six_state = vec 0 0 0"
  "particles six_state = map resting_particle six_ids"
  by (simp_all add: six_state_def example_state_def fields_at_def)

lemma calm_drift:
  "drift_particle ns (multiplyScalar (97 / 100) (vec 0 0 0)) (mk_rnd (1 / 2))
     (resting_particle i) = resting_particle i"
  by (simp add: drift_particle_def Let_def multiplyScalar_def vec_def lengthSq_def mk_rnd.rep_eq
        resting_particle_def example_particle_def DEFAULT_AMPLITUDE_def)

lemma six_drift_all:
  "drift_all calm_draws (rotate_grid six_state) = map resting_particle six_ids"
proof -
  have "map (\<lambda>(i, p). drift_particle ns (multiplyScalar (97 / 100) (vec 0 0 0)) (mk_rnd (1 / 2)) p)
          (enumerate k (map resting_particle ids))
        = map resting_particle ids" for ns k ids
    by (induction ids arbitrary: k) (simp_all add: calm_drift)
  then show ?thesis by (simp add: drift_all_def calm_draws_def)
qed

lemma nearest_to_200: "findNearestNode example_nodes 200 = Some (hd example_nodes)"
  by (simp add: findNearestNode_def example_nodes_def)

lemma six_occupancy: "snd (tick_assigned calm_draws six_state) = [(''a'', six_ids)]"
proof -
  have "nid (hd example_nodes) = ''a''" by (simp add: example_nodes_def)
  then show ?thesis
    unfolding tick_assigned_def Let_def six_drift_all
    by (simp add: six_ids_def assign_targets_step resting_particle_def example_particle_def
          nearest_to_200 del: assign_targets.simps(2))
qed

theorem six_occupants_always_explode_witness:
  "distinct (map pid (particles six_state)) \<and>
   (''a'', six_ids) \<in> set (snd (tick_assigned calm_draws six_state)) \<and> 6 \<le> length six_ids \<and>
   distinct six_ids \<and> set six_ids \<subseteq> pid ` set (particles six_state) \<and>
   energyLevel (hd (particles six_state)) = 1 / 10 \<and>
   1 \<le> 0.2 * real (length six_ids - 1) \<and>
   snd (collide (particles six_state) six_ids) \<and>
   set six_ids \<subseteq> particleIdsToRemove (snd (tick_loop calm_draws six_state)) \<and>
   particles (tick_core calm_draws six_state) = []"
proof -
  have h1: "distinct (map pid (particles six_state))"
    by (simp add: six_ids_def resting_particle_def example_particle_def)
  have h2: "(''a'', six_ids) \<in> set (snd (tick_assigned calm_draws six_state))"
    by (simp add: six_occupancy)
  have h3: "6 \<le> length six_ids" by (simp add: six_ids_def)
  have h4: "distinct six_ids" by (simp add: six_ids_def)
  have h5: "set six_ids \<subseteq> pid ` set (particles six_state)"
    by (simp add: six_ids_def resting_particle_def example_particle_def)
  have h6: "\<forall>p \<in> set (particles six_state). 1 / 10 \<le> energyLevel p"
    by (simp add: six_ids_def resting_particle_def example_particle_def)
  have h7: "energyLevel (hd (particles six_state)) = 1 / 10"
    by (simp add: six_ids_def resting_particle_def example_particle_def)
  note t = six_occupants_always_explode [of six_ids "particles six_state" six_state "''a''" calm_draws]
  from t h3 have c1: "1 \<le> 0.2 * real (length six_ids - 1)" by blast
  from t h3 h4 h5 h6 have c2: "snd (collide (particles six_state) six_ids)" by blast
  from t h1 h2 h3 have c3: "set six_ids \<subseteq> particleIdsToRemove (snd (tick_loop calm_draws six_state))"
    and c4: "\<forall>p \<in> set (particles (tick_core calm_draws six_state)). pid p \<notin> set six_ids"
    by blast+
  have "pid ` set (particles (tick_core calm_draws six_state)) \<subseteq> set six_ids"
  proof -
    have "set (particles (tick_core calm_draws six_state))
            \<subseteq> set (updated (snd (tick_loop calm_draws six_state)))"
      by (simp add: tick_core_particles)
    then have "pid ` set (particles (tick_core calm_draws six_state))
            \<subseteq> set (map pid (updated (snd (tick_loop calm_draws six_state))))"
      by auto
    also have "\<dots> = set (map pid (particles six_state))" by (simp only: tick_loop_pids)
    also have "\<dots> = set six_ids" by (simp add: six_ids_def resting_particle_def example_particle_def)
    finally show ?thesis .
  qed
  with c4 have c5: "particles (tick_core calm_draws six_state) = []"
    by (cases "particles (tick_core calm_draws six_state)") auto
  show ?thesis by (intro conjI h1 h2 h3 h4 h5 h7 c1 c2 c3 c5)
qed

section \<open>The angular velocity\<close>

definition torque_of :: "intersection_node \<Rightarrow> particle_state \<Rightarrow> vec3" where
  \<comment> \<open>In the words of the specification: (normalized node position) x energyLevel x 0.0005.\<close>
  "torque_of node p = multiplyScalar (energyLevel p * 0.0005) (normalize (position node))"

definition entry_torques ::
  "intersection_node list \<Rightarrow> particle_state list \<Rightarrow> string \<times> string list \<Rightarrow> vec3 list" where
  \<comment> \<open>The torques of the occupants of one node: none unless the node is a corner, and then
      one for each occupant whose energy in the array \<open>ps\<close> is above 0.2.\<close>
  "entry_torques ns ps e =
     (case find (\<lambda>n. nid n = fst e) ns of
        None \<Rightarrow> []
      | Some node \<Rightarrow>
          if isCorner node
          then map (torque_of node)
                 (filter (\<lambda>p. energyLevel p > 0.2)
                    (List.map_filter (\<lambda>i. find (\<lambda>p. pid p = i) ps) (snd e)))
          else [])"

definition corner_torques ::
  "intersection_node list \<Rightarrow> particle_state list \<Rightarrow> occupancy \<Rightarrow> vec3 list" where
  "corner_torques ns ps occ = concat (map (entry_torques ns ps) occ)"

lemma fold_corner_torque_velocity:
  "gridAngularVelocity (fold (corner_torque node upd) pIds s) =
     foldl addv (gridAngularVelocity s)
       (map (torque_of node)
          (filter (\<lambda>p. energyLevel p > 0.2) (List.map_filter (\<lambda>i. find (\<lambda>p. pid p = i) upd) pIds)))"
proof (induction pIds arbitrary: s)
  case Nil
  then show ?case by simp
next
  case (Cons i pIds)
  show ?case
  proof (cases "find (\<lambda>p. pid p = i) upd")
    case None
    then have "corner_torque node upd i s = s" by (simp add: corner_torque_def)
    with None Cons [of s] show ?thesis by simp
  next
    case (Some p)
    show ?thesis
    proof (cases "energyLevel p > 0.2")
      case True
      with Some have "gridAngularVelocity (corner_torque node upd i s)
          = addv (gridAngularVelocity s) (torque_of node p)"
        by (simp add: corner_torque_def torque_of_def Let_def)
      with Some True Cons [of "corner_torque node upd i s"] show ?thesis by simp
    next
      case False
      with Some have "corner_torque node upd i s = s" by (simp add: corner_torque_def)
      with Some False Cons [of s] show ?thesis by simp
    qed
  qed
qed

lemma process_node_velocity:
  "gridAngularVelocity (fst (process_node e st)) =
     foldl addv (gridAngularVelocity (fst st)) (entry_torques (nodes (fst st)) (updated (snd st)) e)"
  by (simp add: process_node_def Let_def entry_torques_def fold_corner_torque_velocity
        split: option.splits)

text \<open>A collision at a node changes no particle whose id is not an occupant of the node.\<close>

lemma collidingParticles_pid:
  "c \<in> set (collidingParticles upd pIds) \<Longrightarrow> pid (upd ! c) \<in> set pIds"
proof (induction pIds)
  case Nil
  then show ?case by simp
next
  case (Cons i pIds)
  then show ?case
    by (auto simp: collidingParticles_Cons split: option.splits dest: findIndex_Some)
qed

lemma resonate_frame_pid:
  assumes "pid (fst st ! j) \<noteq> pid (fst st ! c)"
  shows "fst (resonate refs c st) ! j = fst st ! j"
proof (cases rule: resonate_cases [of refs c st])
  case same
  then show ?thesis by simp
next
  case (changed idx others)
  from findIndex_Some [OF changed(1)] have "pid (fst st ! idx) = pid (fst st ! c)" by simp
  with assms have "j \<noteq> idx" by auto
  then show ?thesis unfolding changed(4) by simp
qed

lemma resonate_nth_pid: "pid (fst (resonate refs c st) ! i) = pid (fst st ! i)"
proof (cases rule: resonate_cases [of refs c st])
  case same
  then show ?thesis by simp
next
  case (changed idx others)
  from findIndex_Some [OF changed(1)] have "idx < length (fst st)" by simp
  then show ?thesis unfolding changed(4) by (cases "i = idx") simp_all
qed

lemma fold_resonate_frame_pid:
  assumes "\<forall>c \<in> set cs. pid (fst st ! c) \<in> P" "pid (fst st ! j) \<notin> P"
  shows "fst (fold (resonate refs) cs st) ! j = fst st ! j"
  using assms
proof (induction cs arbitrary: st)
  case Nil
  then show ?case by simp
next
  case (Cons c cs)
  from Cons.prems have "pid (fst st ! j) \<noteq> pid (fst st ! c)" by auto
  then have "fst (resonate refs c st) ! j = fst st ! j" by (rule resonate_frame_pid)
  moreover have "fst (fold (resonate refs) cs (resonate refs c st)) ! j = fst (resonate refs c st) ! j"
    using Cons.prems by (intro Cons.IH) (simp_all add: resonate_nth_pid)
  ultimately show ?case by simp
qed

lemma collide_frame_pid:
  assumes "pid (upd ! j) \<notin> set pIds"
  shows "fst (collide upd pIds) ! j = upd ! j"
proof (cases "1 < length (collidingParticles upd pIds)")
  case True
  have "fst (fold (resonate (collidingParticles upd pIds)) (collidingParticles upd pIds) (upd, False)) ! j
          = fst (upd, False) ! j"
    using assms by (intro fold_resonate_frame_pid [where P = "set pIds"]) (simp_all add: collidingParticles_pid)
  with True show ?thesis by (simp add: collide_def Let_def)
next
  case False
  then show ?thesis by (simp add: collide_def Let_def)
qed

lemma find_same:
  "map f xs = map f ys \<Longrightarrow> (\<forall>j < length xs. f (xs ! j) = v \<longrightarrow> ys ! j = xs ! j)
     \<Longrightarrow> find (\<lambda>x. f x = v) ys = find (\<lambda>x. f x = v) xs"
proof (induction xs arbitrary: ys)
  case Nil
  then show ?case by simp
next
  case (Cons x xs)
  from Cons.prems(1) obtain y ys' where ys: "ys = y # ys'" "f y = f x" "map f xs = map f ys'"
    by (cases ys) auto
  show ?case
  proof (cases "f x = v")
    case True
    with Cons.prems(2) [THEN spec, of 0] ys show ?thesis by simp
  next
    case False
    have "\<forall>j < length xs. f (xs ! j) = v \<longrightarrow> ys' ! j = xs ! j"
    proof (intro allI impI)
      fix j assume "j < length xs" "f (xs ! j) = v"
      with Cons.prems(2) [THEN spec, of "Suc j"] ys(1) show "ys' ! j = xs ! j" by simp
    qed
    from Cons.IH [OF ys(3) this] False ys show ?thesis by simp
  qed
qed

lemma process_node_updated:
  "updated (snd (process_node e st)) = updated (snd st) \<or>
   updated (snd (process_node e st)) = fst (collide (updated (snd st)) (snd e))"
  by (simp add: process_node_def Let_def split: option.splits)

lemma process_node_find:
  assumes "i \<notin> set (snd e)"
  shows "find (\<lambda>p. pid p = i) (updated (snd (process_node e st))) = find (\<lambda>p. pid p = i) (updated (snd st))"
proof (rule find_same)
  show "map pid (updated (snd st)) = map pid (updated (snd (process_node e st)))"
    by (simp add: process_node_pids)
  show "\<forall>j < length (updated (snd st)). pid (updated (snd st) ! j) = i \<longrightarrow>
          updated (snd (process_node e st)) ! j = updated (snd st) ! j"
  proof (intro allI impI)
    fix j assume "pid (updated (snd st) ! j) = i"
    with assms have "pid (updated (snd st) ! j) \<notin> set (snd e)" by simp
    then have "fst (collide (updated (snd st)) (snd e)) ! j = updated (snd st) ! j"
      by (rule collide_frame_pid)
    with process_node_updated [of e st]
    show "updated (snd (process_node e st)) ! j = updated (snd st) ! j" by auto
  qed
qed

lemma map_filter_cong:
  "(\<forall>x \<in> set xs. f x = g x) \<Longrightarrow> List.map_filter f xs = List.map_filter g xs"
  by (induction xs) (simp_all split: option.splits)

lemma entry_torques_cong:
  assumes "\<forall>i \<in> set (snd e). find (\<lambda>p. pid p = i) ps' = find (\<lambda>p. pid p = i) ps"
  shows "entry_torques ns ps' e = entry_torques ns ps e"
proof -
  have h: "List.map_filter (\<lambda>i. find (\<lambda>p. pid p = i) ps') (snd e)
          = List.map_filter (\<lambda>i. find (\<lambda>p. pid p = i) ps) (snd e)"
    using assms by (rule map_filter_cong)
  show ?thesis unfolding entry_torques_def h ..
qed

lemma fold_process_node_velocity:
  assumes "distinct (occupants occ)"
  shows "gridAngularVelocity (fst (fold process_node occ st)) =
           foldl addv (gridAngularVelocity (fst st))
             (corner_torques (nodes (fst st)) (updated (snd st)) occ)"
  using assms
proof (induction occ arbitrary: st)
  case Nil
  then show ?case by (simp add: corner_torques_def)
next
  case (Cons e occ)
  obtain k vs where e: "e = (k, vs)" by (cases e)
  from Cons.prems have d: "distinct (occupants occ)" and dis: "set vs \<inter> set (occupants occ) = {}"
    unfolding e by auto
  let ?st = "process_node e st"
  have "entry_torques (nodes (fst ?st)) (updated (snd ?st)) e' =
          entry_torques (nodes (fst st)) (updated (snd st)) e'" if "e' \<in> set occ" for e'
  proof -
    have "\<forall>i \<in> set (snd e'). i \<notin> set (snd e)"
      using occupants_entry [OF that] dis unfolding e by auto
    then have "\<forall>i \<in> set (snd e'). find (\<lambda>p. pid p = i) (updated (snd ?st))
        = find (\<lambda>p. pid p = i) (updated (snd st))"
      using process_node_find [of _ e st] by blast
    then show ?thesis by (simp add: entry_torques_cong)
  qed
  then have "corner_torques (nodes (fst ?st)) (updated (snd ?st)) occ
      = corner_torques (nodes (fst st)) (updated (snd st)) occ"
    unfolding corner_torques_def by (intro arg_cong [of _ _ concat] map_cong) simp_all
  with Cons.IH [OF d, of ?st] show ?case
    by (simp add: process_node_velocity corner_torques_def)
qed

lemma tick_core_velocity:
  assumes "distinct (map pid (particles s))"
  shows "gridAngularVelocity (tick_core d s) =
           foldl addv (multiplyScalar (97 / 100) (gridAngularVelocity s))
             (corner_torques (nodes s) (fst (tick_assigned d s)) (snd (tick_assigned d s)))"
  using fold_process_node_velocity [OF tick_assigned_disjoint [OF assms, of d],
      of "(rotate_grid s, \<lparr>updated = fst (tick_assigned d s), particleIdsToRemove = {}, explosionsToProcess = 0\<rparr>)"]
  by (simp add: tick_core_events tick_loop_def Let_def)


text \<open>
  C6. A tick first multiplies the angular velocity by 0.97; the drift and the step of the
  orientation read the damped value. The loop over the nodes then adds, in the order of
  the occupancy, one torque (normalized node position) x energyLevel x 0.0005 for each
  occupant of a corner node whose energy after the decay is above 0.2, and nothing
  else (particles with distinct ids). \<open>spawnParticle\<close>, the callbacks of \<open>setTimeout\<close>
  and the passing of time leave the angular velocity as it is: a step of the service
  that changes it is a tick.
\<close>

theorem angular_velocity_damped_then_corner_torque:
  "(distinct (map pid (particles s)) \<longrightarrow>
      gridAngularVelocity (processFieldDynamics td s) =
        foldl addv (multiplyScalar 0.97 (gridAngularVelocity s))
          (corner_torques (nodes s) (fst (tick_assigned td s)) (snd (tick_assigned td s)))) \<and>
   gridAngularVelocity (rotate_grid s) = multiplyScalar 0.97 (gridAngularVelocity s) \<and>
   gridAngularVelocity (spawnParticle pos d s) = gridAngularVelocity s \<and>
   gridAngularVelocity (fire i d s) = gridAngularVelocity s \<and>
   (step s s' \<longrightarrow> (\<exists>td'. s' = processFieldDynamics td' s) \<or> gridAngularVelocity s' = gridAngularVelocity s)"
proof (intro conjI impI)
  assume "distinct (map pid (particles s))"
  from tick_core_velocity [OF this, of td]
  show "gridAngularVelocity (processFieldDynamics td s) =
        foldl addv (multiplyScalar 0.97 (gridAngularVelocity s))
          (corner_torques (nodes s) (fst (tick_assigned td s)) (snd (tick_assigned td s)))"
    by (simp add: processFieldDynamics_def Let_def)
next
  show "gridAngularVelocity (rotate_grid s) = multiplyScalar 0.97 (gridAngularVelocity s)" by simp
  show "gridAngularVelocity (spawnParticle pos d s) = gridAngularVelocity s" by simp
  show "gridAngularVelocity (fire i d s) = gridAngularVelocity s" by simp
next
  assume "step s s'"
  then show "(\<exists>td'. s' = processFieldDynamics td' s) \<or> gridAngularVelocity s' = gridAngularVelocity s"
    by (cases rule: step.cases) auto
qed

definition corner_node :: intersection_node where
  "corner_node = \<lparr>nid = ''k'', position = vec 4 4 4, frequency = 200, baseColor = (0, 0, 0),
                  intensity = 0, isCorner = True\<rparr>"

definition corner_state :: sim_state where
  \<comment> \<open>One particle with energy 0.5 at rest at the frequency of the only node, a corner.\<close>
  "corner_state =
     (fields_at 0)\<lparr>nodes := [corner_node], particles := [example_particle ''1'' 200 (4 / 10) (5 / 10)]\<rparr>"

lemma corner_state_fields [simp]:
  "nodes corner_state = [corner_node]"
  "particles corner_state = [example_particle ''1'' 200 (4 / 10) (5 / 10)]"
  "gridAngularVelocity corner_state = vec 0 0 0"
  by (simp_all add: corner_state_def fields_at_def)

lemma corner_assigned:
  "tick_assigned calm_draws corner_state =
     ([(example_particle ''1'' 200 (4 / 10) (5 / 10))\<lparr>energyLevel := 498 / 1000, targetNodeId := Some ''k''\<rparr>],
      [(''k'', [''1''])])"
  by (simp add: tick_assigned_def Let_def drift_all_def calm_draws_def drift_particle_def
        multiplyScalar_def vec_def lengthSq_def mk_rnd.rep_eq example_particle_def
        DEFAULT_AMPLITUDE_def findNearestNode_def corner_node_def)

theorem angular_velocity_damped_then_corner_torque_witness:
  "distinct (map pid (particles corner_state)) \<and>
   step corner_state (spawnParticle None (example_draws ''2'') corner_state) \<and>
   gridAngularVelocity (processFieldDynamics calm_draws corner_state) =
     multiplyScalar (498 / 1000 * (5 / 10000)) (normalize (vec 4 4 4)) \<and>
   gridAngularVelocity (spawnParticle None (example_draws ''2'') corner_state) = vec 0 0 0"
proof -
  have h1: "distinct (map pid (particles corner_state))" by simp
  have h2: "step corner_state (spawnParticle None (example_draws ''2'') corner_state)"
    by (rule s_spawn)
  note t = angular_velocity_damped_then_corner_torque
    [of corner_state calm_draws None "example_draws ''2''" 0
        "spawnParticle None (example_draws ''2'') corner_state"]
  from t h1 have "gridAngularVelocity (processFieldDynamics calm_draws corner_state) =
        foldl addv (multiplyScalar 0.97 (gridAngularVelocity corner_state))
          (corner_torques (nodes corner_state) (fst (tick_assigned calm_draws corner_state))
             (snd (tick_assigned calm_draws corner_state)))"
    by blast
  then have c1: "gridAngularVelocity (processFieldDynamics calm_draws corner_state) =
     multiplyScalar (498 / 1000 * (5 / 10000)) (normalize (vec 4 4 4))"
    unfolding corner_assigned
    by (simp add: corner_torques_def entry_torques_def torque_of_def corner_node_def
          example_particle_def addv_def multiplyScalar_def vec_def)
  from t have "gridAngularVelocity (spawnParticle None (example_draws ''2'') corner_state)
      = gridAngularVelocity corner_state" by blast
  then have c2: "gridAngularVelocity (spawnParticle None (example_draws ''2'') corner_state) = vec 0 0 0"
    by simp
  show ?thesis by (intro conjI h1 h2 c1 c2)
qed

section \<open>The bounds in the states the service reaches\<close>

definition in_band :: "particle_state \<Rightarrow> bool" where
  "in_band p \<longleftrightarrow> 100 \<le> locationalFrequency p \<and> locationalFrequency p \<le> 999"

lemma drift_particle_in_band: "in_band (drift_particle ns v r p)"
  by (simp add: drift_particle_def Let_def in_band_def)

lemma drift_particle_in_bounds: "in_bounds p \<Longrightarrow> in_bounds (drift_particle ns v r p)"
  by (simp add: drift_particle_def Let_def in_bounds_def DEFAULT_AMPLITUDE_def)

lemma measured_in_bounds: "measured q = measured p \<Longrightarrow> in_bounds q = in_bounds p"
  by (simp add: measured_def in_bounds_def)

lemma measured_in_band: "measured q = measured p \<Longrightarrow> in_band q = in_band p"
  by (simp add: measured_def in_band_def)

lemma tick_assigned_in_band: "p \<in> set (fst (tick_assigned d s)) \<Longrightarrow> in_band p"
proof -
  assume "p \<in> set (fst (tick_assigned d s))"
  then obtain i q where "measured p = measured (drift_particle (nodes s)
      (multiplyScalar (97 / 100) (gridAngularVelocity s)) (drift_draw d i) q)"
    by (rule tick_assigned_elem)
  from measured_in_band [OF this] show ?thesis by (simp add: drift_particle_in_band)
qed

lemma tick_assigned_in_bounds:
  assumes "\<forall>q \<in> set (particles s). in_bounds q" "p \<in> set (fst (tick_assigned d s))"
  shows "in_bounds p"
proof -
  from assms(2) obtain i q where q: "q \<in> set (particles s)" "measured p = measured (drift_particle (nodes s)
      (multiplyScalar (97 / 100) (gridAngularVelocity s)) (drift_draw d i) q)"
    by (rule tick_assigned_elem)
  from measured_in_bounds [OF q(2)] assms(1) q(1) show ?thesis
    by (simp add: drift_particle_in_bounds)
qed

lemma carried_in_band: "carried q = carried p \<Longrightarrow> in_band q = in_band p"
  by (simp add: carried_def in_band_def)

lemma tick_core_in_band: "p \<in> set (particles (tick_core d s)) \<Longrightarrow> in_band p"
proof -
  assume "p \<in> set (particles (tick_core d s))"
  then have "p \<in> set (updated (snd (tick_loop d s)))" by (simp add: tick_core_particles)
  with tick_loop_carried [of d s] obtain q where "q \<in> set (fst (tick_assigned d s))"
    "carried q = carried p" by (rule carried_in_set)
  with tick_assigned_in_band [of q d s] carried_in_band [of q p] show ?thesis by simp
qed

lemma tick_core_in_bounds:
  assumes "\<forall>q \<in> set (particles s). in_bounds q"
  shows "\<forall>p \<in> set (particles (tick_core d s)). in_bounds p"
proof -
  have "\<forall>p \<in> set (updated (snd (tick_loop d s))). in_bounds p"
    unfolding tick_loop_def Let_def
    apply (rule fold_process_node_invariant)
     apply (simp only: snd_conv tick_locals.simps)
     apply (intro ballI, erule tick_assigned_in_bounds [OF assms])
    apply (erule process_node_in_bounds)
    done
  then show ?thesis by (simp add: tick_core_particles)
qed

lemma newParticle_in_bounds: "in_bounds (newParticle f d)"
  by (simp add: newParticle_def in_bounds_def DEFAULT_AMPLITUDE_def)

lemma spawnParticle_in_bounds:
  assumes "\<forall>q \<in> set (particles s). in_bounds q"
  shows "\<forall>p \<in> set (particles (spawnParticle pos d s)). in_bounds p"
proof (cases "length (particles s) < MAX_PARTICLES")
  case True
  have "in_bounds (q\<lparr>targetNodeId := t\<rparr>) = in_bounds q" for q t by (simp add: in_bounds_def)
  with assms newParticle_in_bounds show ?thesis
    by (auto simp: spawnParticle_particles [OF True])
next
  case False
  with assms show ?thesis by (simp add: spawnParticle_def)
qed

lemma reachable_in_bounds: "reachable s \<Longrightarrow> \<forall>p \<in> set (particles s). in_bounds p"
proof (induction rule: reachable.induct)
  case (r_init t0 d)
  show ?case unfolding constructor_def
    by (rule spawnParticle_in_bounds) (simp add: initializeNodes_def fields_at_def)
next
  case (r_step s s')
  from r_step.hyps(2) show ?case
  proof (cases rule: step.cases)
    case (s_tick td)
    show ?thesis
      unfolding s_tick processFieldDynamics_def Let_def
      using tick_core_in_bounds [OF r_step.IH, of td]
        spawnParticle_in_bounds [of "tick_core td s" None "stabilize_draws td"]
      by simp
  next
    case (s_spawn pos d)
    with spawnParticle_in_bounds [OF r_step.IH] show ?thesis by simp
  next
    case (s_fire i d)
    let ?s = "s\<lparr>timers := take i (timers s) @ drop (Suc i) (timers s)\<rparr>"
    show ?thesis
    proof (cases "snd (timers s ! i)")
      case ReplacementSpawn
      from r_step.IH spawnParticle_in_bounds [of ?s None d]
      show ?thesis unfolding s_fire fire_def run_task_def ReplacementSpawn by simp
    qed (use r_step.IH in \<open>simp_all add: s_fire fire_def run_task_def\<close>)
  next
    case (s_time t)
    with r_step.IH show ?thesis by simp
  qed
qed

text \<open>The frequency a spawn without a position draws from the configured grid is in the band.\<close>

lemma grid_spawn_in_band:
  assumes "ns = generate_nodes GRID_SIZE"
  shows "100 \<le> spawn_frequency None d ns \<and> spawn_frequency None d ns \<le> 999"
proof (cases "filter (\<lambda>n. \<not> isCorner n) ns = []")
  case True
  from Rep_rnd_range [of "rnd_fallback d"]
  have "0 \<le> Rep_rnd (rnd_fallback d) * 600" "Rep_rnd (rnd_fallback d) * 600 \<le> 600"
    by (simp_all add: less_imp_le)
  with True show ?thesis
    by (simp add: spawn_frequency_def Let_def)
next
  case False
  let ?nc = "filter (\<lambda>n. \<not> isCorner n) ns"
  let ?k = "nat \<lfloor>Rep_rnd (rnd_pick d) * real (length ?nc)\<rfloor>"
  from False have "?k < length ?nc" by (intro pick_in_range) simp_all
  then have "?nc ! ?k \<in> set ?nc" by (rule nth_mem)
  then have "?nc ! ?k \<in> set (generate_nodes GRID_SIZE)" using assms by simp
  then have "196 \<le> frequency (?nc ! ?k) \<and> frequency (?nc ! ?k) \<le> 484"
    by (rule grid_frequency_range)
  moreover have "spawn_frequency None d ns = frequency (?nc ! ?k) + (Rep_rnd (rnd_jitter d) - 5 / 10) * 10"
    using False by (simp add: spawn_frequency_def Let_def)
  moreover from Rep_rnd_range [of "rnd_jitter d"]
  have "- 5 \<le> (Rep_rnd (rnd_jitter d) - 5 / 10) * 10" "(Rep_rnd (rnd_jitter d) - 5 / 10) * 10 \<le> 5"
    by (simp_all add: less_imp_le)
  ultimately show ?thesis by linarith
qed

lemma tick_in_band:
  assumes "reachable s"
  shows "\<forall>p \<in> set (particles (processFieldDynamics td s)). in_band p"
proof (cases "globalAmplitude (tick_core td s) \<ge> 7 / 10 \<and> length (particles (tick_core td s)) < 3")
  case False
  then show ?thesis using tick_core_in_band by (auto simp: processFieldDynamics_def Let_def)
next
  case True
  then have l: "length (particles (tick_core td s)) < MAX_PARTICLES" by (simp add: MAX_PARTICLES_def)
  have n: "nodes (tick_core td s) = generate_nodes GRID_SIZE"
    using reachable_nodes [OF assms] by simp
  have "in_band (q\<lparr>targetNodeId := t\<rparr>) = in_band q" for q t by (simp add: in_band_def)
  moreover have "in_band (newParticle (spawn_frequency None (stabilize_draws td) (nodes (tick_core td s)))
      (stabilize_draws td))"
    using grid_spawn_in_band [OF n, of "stabilize_draws td"] by (simp add: in_band_def newParticle_def)
  ultimately have "\<forall>p \<in> set (particles (spawnParticle None (stabilize_draws td) (tick_core td s))). in_band p"
    using tick_core_in_band [of _ td s] by (auto simp: spawnParticle_particles [OF l])
  with True show ?thesis by (simp add: processFieldDynamics_def Let_def)
qed

text \<open>
  C1. In every state the service reaches the amplitude, the harmonic factor and the
  energy of every particle are within their bounds (\<open>reachable_in_bounds\<close>), and after
  a tick every locational frequency is in \<open>[100, 999]\<close> (\<open>tick_in_band\<close>). After a
  spawn the locational frequency can be outside the band: \<open>calculateNodeFrequency\<close>
  takes the remainder with \<open>%\<close>, which is negative for a negative sum, and nothing
  clamps the result. A spawn at the position (0, -30, 0) gives the frequency 40.
\<close>

theorem spawn_outside_band:
  "reachable (spawnParticle (Some (vec 0 (- 30) 0)) d (constructor t0 d0)) \<and>
   locationalFrequency (last (particles (spawnParticle (Some (vec 0 (- 30) 0)) d (constructor t0 d0)))) = 40 \<and>
   \<not> in_band (last (particles (spawnParticle (Some (vec 0 (- 30) 0)) d (constructor t0 d0))))"
proof -
  have r: "reachable (spawnParticle (Some (vec 0 (- 30) 0)) d (constructor t0 d0))"
    by (rule r_step [OF r_init s_spawn])
  have "js_trunc (- 60 / 899) = 0"
  proof -
    have "\<lceil>- 60 / 899 :: real\<rceil> = 0" by (simp add: ceiling_eq_iff)
    then show ?thesis by (simp add: js_trunc_def)
  qed
  then have "js_rem (- 60) 899 = - 60" by (simp add: js_rem_def)
  moreover have "js_round (real_of_int 40) = real_of_int 40" by (rule js_round_of_int)
  ultimately have c: "calculateNodeFrequency (vec 0 (- 30) 0) = 40"
    by (simp add: calculateNodeFrequency_def Let_def vec_def FREQ_LOW_def FREQ_HIGH_def)
  have l: "length (particles (constructor t0 d0)) < MAX_PARTICLES" by (simp add: MAX_PARTICLES_def)
  have f: "locationalFrequency (last (particles (spawnParticle (Some (vec 0 (- 30) 0)) d (constructor t0 d0)))) = 40"
    by (simp add: last_spawnParticle [OF l] newParticle_def spawn_frequency_def c)
  then have "\<not> in_band (last (particles (spawnParticle (Some (vec 0 (- 30) 0)) d (constructor t0 d0))))"
    by (simp add: in_band_def)
  with r f show ?thesis by (intro conjI)
qed

section \<open>The lifetime of the events\<close>

lemma timestamp_of_id:
  assumes "n @ CHR ''-'' # show_nat a = n' @ CHR ''-'' # show_nat b"
  shows "a = b"
proof -
  from assms have "rev (n @ CHR ''-'' # show_nat a) = rev (n' @ CHR ''-'' # show_nat b)"
    by (rule arg_cong)
  then have e: "rev (show_nat a) @ CHR ''-'' # rev n = rev (show_nat b) @ CHR ''-'' # rev n'"
    by (simp only: rev_append rev.simps append_assoc append_Cons append_Nil)
  have na: "CHR ''-'' \<notin> set (rev (show_nat a))" by (simp only: set_rev show_nat_no_sep not_False_eq_True)
  have nb: "CHR ''-'' \<notin> set (rev (show_nat b))" by (simp only: set_rev show_nat_no_sep not_False_eq_True)
  from split_at_sep [OF na nb e] have "rev (show_nat a) = rev (show_nat b)" by (rule conjunct1)
  then have "show_nat a = show_nat b" by (simp only: rev_is_rev_conv)
  then show ?thesis by (rule show_nat_inj)
qed

definition stamped :: "nat \<Rightarrow> string \<Rightarrow> bool" where
  \<comment> \<open>The id ends in \<open>-\<close> and the time \<open>t\<close>.\<close>
  "stamped t i \<longleftrightarrow> (\<exists>n. i = n @ CHR ''-'' # show_nat t)"

lemma stamped_same: "stamped a i \<Longrightarrow> stamped b i \<Longrightarrow> a = b"
  unfolding stamped_def by (elim exE) (rule timestamp_of_id, simp only:)

lemma stamped_collision_id [simp]: "stamped t (n @ CHR ''-'' # show_nat t)"
  unfolding stamped_def by (rule exI [of _ n]) (rule refl)

lemma stamped_supernova_id [simp]:
  "stamped t (CHR ''s'' # CHR ''n'' # CHR ''-'' # n @ CHR ''-'' # show_nat t)"
  unfolding stamped_def by (rule exI [of _ "''sn-'' @ n"]) (simp only: append_Cons append_Nil)

definition new_timer :: "nat \<Rightarrow> nat \<times> task \<Rightarrow> bool" where
  \<comment> \<open>The callbacks that a tick at the time \<open>t\<close> registers.\<close>
  "new_timer t tm \<longleftrightarrow>
     (case snd tm of
        RemoveCollision i \<Rightarrow> fst tm = t + 1500 \<and> stamped t i
      | RemoveSupernova i \<Rightarrow> fst tm = t + 2000 \<and> stamped t i
      | ReplacementSpawn \<Rightarrow> fst tm = t + 50)"

lemma new_timer_simps [simp]:
  "new_timer t (due, RemoveCollision i) \<longleftrightarrow> due = t + 1500 \<and> stamped t i"
  "new_timer t (due, RemoveSupernova i) \<longleftrightarrow> due = t + 2000 \<and> stamped t i"
  "new_timer t (due, ReplacementSpawn) \<longleftrightarrow> due = t + 50"
  by (simp_all add: new_timer_def)

lemma new_timer_due: "new_timer t tm \<Longrightarrow> t + 50 \<le> fst tm"
  by (cases tm, cases "snd tm") (simp_all add: new_timer_def)

definition appends :: "sim_state \<Rightarrow> sim_state \<Rightarrow> bool" where
  \<comment> \<open>From \<open>s\<close> to \<open>s'\<close> no time passes, no event and no callback is taken away, each new
      event is stamped with the time and comes with the callback of its removal.\<close>
  "appends s s' \<longleftrightarrow>
     clock s' = clock s \<and>
     set (collisionEvents s) \<subseteq> set (collisionEvents s') \<and>
     set (supernovaEvents s) \<subseteq> set (supernovaEvents s') \<and>
     set (timers s) \<subseteq> set (timers s') \<and>
     (\<forall>e \<in> set (collisionEvents s') - set (collisionEvents s).
        ce_timestamp e = clock s \<and> stamped (clock s) (ce_id e) \<and>
        (clock s + 1500, RemoveCollision (ce_id e)) \<in> set (timers s')) \<and>
     (\<forall>e \<in> set (supernovaEvents s') - set (supernovaEvents s).
        sn_timestamp e = clock s \<and> stamped (clock s) (sn_id e) \<and>
        (clock s + 2000, RemoveSupernova (sn_id e)) \<in> set (timers s')) \<and>
     (\<forall>tm \<in> set (timers s') - set (timers s). new_timer (clock s) tm)"

lemma appendsI:
  assumes "clock s' = clock s"
    "set (collisionEvents s) \<subseteq> set (collisionEvents s')"
    "set (supernovaEvents s) \<subseteq> set (supernovaEvents s')"
    "set (timers s) \<subseteq> set (timers s')"
    "\<And>e. e \<in> set (collisionEvents s') \<Longrightarrow> e \<notin> set (collisionEvents s) \<Longrightarrow>
        ce_timestamp e = clock s \<and> stamped (clock s) (ce_id e) \<and>
        (clock s + 1500, RemoveCollision (ce_id e)) \<in> set (timers s')"
    "\<And>e. e \<in> set (supernovaEvents s') \<Longrightarrow> e \<notin> set (supernovaEvents s) \<Longrightarrow>
        sn_timestamp e = clock s \<and> stamped (clock s) (sn_id e) \<and>
        (clock s + 2000, RemoveSupernova (sn_id e)) \<in> set (timers s')"
    "\<And>tm. tm \<in> set (timers s') \<Longrightarrow> tm \<notin> set (timers s) \<Longrightarrow> new_timer (clock s) tm"
  shows "appends s s'"
proof -
  have "ce_timestamp e = clock s \<and> stamped (clock s) (ce_id e) \<and>
        (clock s + 1500, RemoveCollision (ce_id e)) \<in> set (timers s')"
    if "e \<in> set (collisionEvents s') - set (collisionEvents s)" for e
    using that by (intro assms(5)) simp_all
  moreover have "sn_timestamp e = clock s \<and> stamped (clock s) (sn_id e) \<and>
        (clock s + 2000, RemoveSupernova (sn_id e)) \<in> set (timers s')"
    if "e \<in> set (supernovaEvents s') - set (supernovaEvents s)" for e
    using that by (intro assms(6)) simp_all
  moreover have "new_timer (clock s) tm" if "tm \<in> set (timers s') - set (timers s)" for tm
    using that by (intro assms(7)) simp_all
  ultimately show ?thesis
    unfolding appends_def using assms(1-4) by blast
qed

lemma appendsD:
  assumes "appends s s'"
  shows "clock s' = clock s"
    "set (collisionEvents s) \<subseteq> set (collisionEvents s')"
    "set (supernovaEvents s) \<subseteq> set (supernovaEvents s')"
    "set (timers s) \<subseteq> set (timers s')"
    "\<And>e. e \<in> set (collisionEvents s') \<Longrightarrow> e \<notin> set (collisionEvents s) \<Longrightarrow>
        ce_timestamp e = clock s \<and> stamped (clock s) (ce_id e) \<and>
        (clock s + 1500, RemoveCollision (ce_id e)) \<in> set (timers s')"
    "\<And>e. e \<in> set (supernovaEvents s') \<Longrightarrow> e \<notin> set (supernovaEvents s) \<Longrightarrow>
        sn_timestamp e = clock s \<and> stamped (clock s) (sn_id e) \<and>
        (clock s + 2000, RemoveSupernova (sn_id e)) \<in> set (timers s')"
    "\<And>tm. tm \<in> set (timers s') \<Longrightarrow> tm \<notin> set (timers s) \<Longrightarrow> new_timer (clock s) tm"
proof -
  note a = assms [unfolded appends_def]
  from a show "clock s' = clock s" by (rule conjunct1)
  from a show "set (collisionEvents s) \<subseteq> set (collisionEvents s')" by (elim conjE)
  from a show "set (supernovaEvents s) \<subseteq> set (supernovaEvents s')" by (elim conjE)
  from a show "set (timers s) \<subseteq> set (timers s')" by (elim conjE)
  from a have b: "\<forall>e \<in> set (collisionEvents s') - set (collisionEvents s).
        ce_timestamp e = clock s \<and> stamped (clock s) (ce_id e) \<and>
        (clock s + 1500, RemoveCollision (ce_id e)) \<in> set (timers s')" by (elim conjE)
  show "ce_timestamp e = clock s \<and> stamped (clock s) (ce_id e) \<and>
        (clock s + 1500, RemoveCollision (ce_id e)) \<in> set (timers s')"
    if "e \<in> set (collisionEvents s')" "e \<notin> set (collisionEvents s)" for e
    using b that by (intro bspec [OF b]) simp
  from a have c: "\<forall>e \<in> set (supernovaEvents s') - set (supernovaEvents s).
        sn_timestamp e = clock s \<and> stamped (clock s) (sn_id e) \<and>
        (clock s + 2000, RemoveSupernova (sn_id e)) \<in> set (timers s')" by (elim conjE)
  show "sn_timestamp e = clock s \<and> stamped (clock s) (sn_id e) \<and>
        (clock s + 2000, RemoveSupernova (sn_id e)) \<in> set (timers s')"
    if "e \<in> set (supernovaEvents s')" "e \<notin> set (supernovaEvents s)" for e
    using that by (intro bspec [OF c]) simp
  from a have d: "\<forall>tm \<in> set (timers s') - set (timers s). new_timer (clock s) tm" by (elim conjE)
  show "new_timer (clock s) tm" if "tm \<in> set (timers s')" "tm \<notin> set (timers s)" for tm
    using that by (intro bspec [OF d]) simp
qed

lemma appends_refl: "appends s s"
  by (rule appendsI) simp_all

lemma appends_same:
  assumes "clock s' = clock s" "collisionEvents s' = collisionEvents s"
    "supernovaEvents s' = supernovaEvents s" "timers s' = timers s"
  shows "appends s s'"
  by (rule appendsI) (simp_all add: assms)

lemma appends_trans:
  assumes "appends s s'" "appends s' s''"
  shows "appends s s''"
proof (rule appendsI)
  note a = appendsD [OF assms(1)] and b = appendsD [OF assms(2)]
  show "clock s'' = clock s" by (simp only: a(1) b(1))
  show "set (collisionEvents s) \<subseteq> set (collisionEvents s'')" using a(2) b(2) by (rule subset_trans)
  show "set (supernovaEvents s) \<subseteq> set (supernovaEvents s'')" using a(3) b(3) by (rule subset_trans)
  show "set (timers s) \<subseteq> set (timers s'')" using a(4) b(4) by (rule subset_trans)
  show "ce_timestamp e = clock s \<and> stamped (clock s) (ce_id e) \<and>
        (clock s + 1500, RemoveCollision (ce_id e)) \<in> set (timers s'')"
    if h: "e \<in> set (collisionEvents s'')" "e \<notin> set (collisionEvents s)" for e
  proof (cases "e \<in> set (collisionEvents s')")
    case True
    from a(5) [OF True h(2)] b(4) show ?thesis by blast
  next
    case False
    from b(5) [OF h(1) False] show ?thesis by (simp only: a(1)) 
  qed
  show "sn_timestamp e = clock s \<and> stamped (clock s) (sn_id e) \<and>
        (clock s + 2000, RemoveSupernova (sn_id e)) \<in> set (timers s'')"
    if h: "e \<in> set (supernovaEvents s'')" "e \<notin> set (supernovaEvents s)" for e
  proof (cases "e \<in> set (supernovaEvents s')")
    case True
    from a(6) [OF True h(2)] b(4) show ?thesis by blast
  next
    case False
    from b(6) [OF h(1) False] show ?thesis by (simp only: a(1))
  qed
  show "new_timer (clock s) tm" if h: "tm \<in> set (timers s'')" "tm \<notin> set (timers s)" for tm
  proof (cases "tm \<in> set (timers s')")
    case True
    from a(7) [OF True h(2)] show ?thesis .
  next
    case False
    from b(7) [OF h(1) False] show ?thesis by (simp only: a(1))
  qed
qed

lemma process_node_appends: "appends (fst st) (fst (process_node e st))"
proof (cases "find (\<lambda>n. nid n = fst e) (nodes (fst st))")
  case None
  then have "process_node e st = st" by (simp add: process_node_def Let_def)
  then show ?thesis by (simp only: appends_refl)
next
  case (Some node)
  show ?thesis
  proof (cases "1 < length (snd e)")
    case False
    with Some have "fst (process_node e st) =
        (if isCorner node then fold (corner_torque node (updated (snd st))) (snd e) (fst st) else fst st)"
      by (simp add: process_node_def Let_def)
    then show ?thesis by (intro appends_same) simp_all
  next
    case True
    define t where "t = clock (fst st)"
    define ce where "ce = \<lparr>ce_id = fst e @ ''-'' @ show_nat t, ce_nodeId = fst e,
                ce_particleIds = snd e, ce_timestamp = t\<rparr>"
    define sn where "sn = \<lparr>sn_id = ''sn-'' @ fst e @ ''-'' @ show_nat t,
                sn_position = position node, sn_timestamp = t\<rparr>"
    define tc where "tc = (t + 1500, RemoveCollision (ce_id ce))"
    define ts where "ts = (t + 2000, RemoveSupernova (sn_id sn))"
    have pn: "process_node e st = process_node (fst e, snd e) (fst st, snd st)" by simp
    note found = process_node_found [OF Some True, of "snd st", unfolded Let_def, folded pn,
        folded t_def, folded ce_def sn_def, folded tc_def ts_def]
    have ce: "ce_timestamp ce = t" "stamped t (ce_id ce)" by (simp_all add: ce_def)
    have sn: "sn_timestamp sn = t" "stamped t (sn_id sn)" by (simp_all add: sn_def)
    have ntc: "new_timer t tc" unfolding tc_def by (simp add: ce)
    have nts: "new_timer t ts" unfolding ts_def by (simp add: sn)
    show ?thesis
    proof (cases "snd (collide (updated (snd st)) (snd e))")
      case True
      have f: "clock (fst (process_node e st)) = t"
        "collisionEvents (fst (process_node e st)) = collisionEvents (fst st) @ [ce]"
        "supernovaEvents (fst (process_node e st)) = supernovaEvents (fst st) @ [sn]"
        "timers (fst (process_node e st)) = timers (fst st) @ [tc, ts]"
        unfolding found using True by (simp_all add: t_def)
      show ?thesis
      proof (rule appendsI)
        show "clock (fst (process_node e st)) = clock (fst st)" by (simp only: f t_def)
        show "set (collisionEvents (fst st)) \<subseteq> set (collisionEvents (fst (process_node e st)))"
          unfolding f by auto
        show "set (supernovaEvents (fst st)) \<subseteq> set (supernovaEvents (fst (process_node e st)))"
          unfolding f by auto
        show "set (timers (fst st)) \<subseteq> set (timers (fst (process_node e st)))"
          unfolding f by auto
      next
        fix ev assume "ev \<in> set (collisionEvents (fst (process_node e st)))"
          "ev \<notin> set (collisionEvents (fst st))"
        then have "ev = ce" unfolding f by simp
        then show "ce_timestamp ev = clock (fst st) \<and> stamped (clock (fst st)) (ce_id ev) \<and>
                     (clock (fst st) + 1500, RemoveCollision (ce_id ev))
                       \<in> set (timers (fst (process_node e st)))"
          unfolding f t_def [symmetric] using ce by (simp add: tc_def)
      next
        fix ev assume "ev \<in> set (supernovaEvents (fst (process_node e st)))"
          "ev \<notin> set (supernovaEvents (fst st))"
        then have "ev = sn" unfolding f by simp
        then show "sn_timestamp ev = clock (fst st) \<and> stamped (clock (fst st)) (sn_id ev) \<and>
                     (clock (fst st) + 2000, RemoveSupernova (sn_id ev))
                       \<in> set (timers (fst (process_node e st)))"
          unfolding f t_def [symmetric] using sn by (simp add: ts_def)
      next
        fix tm assume "tm \<in> set (timers (fst (process_node e st)))" "tm \<notin> set (timers (fst st))"
        then have "tm = tc \<or> tm = ts" unfolding f by simp
        then show "new_timer (clock (fst st)) tm" unfolding t_def [symmetric] using ntc nts by blast
      qed
    next
      case False
      have f: "clock (fst (process_node e st)) = t"
        "collisionEvents (fst (process_node e st)) = collisionEvents (fst st) @ [ce]"
        "supernovaEvents (fst (process_node e st)) = supernovaEvents (fst st)"
        "timers (fst (process_node e st)) = timers (fst st) @ [tc]"
        unfolding found using False by (simp_all add: t_def)
      show ?thesis
      proof (rule appendsI)
        show "clock (fst (process_node e st)) = clock (fst st)" by (simp only: f t_def)
        show "set (collisionEvents (fst st)) \<subseteq> set (collisionEvents (fst (process_node e st)))"
          unfolding f by auto
        show "set (supernovaEvents (fst st)) \<subseteq> set (supernovaEvents (fst (process_node e st)))"
          unfolding f by auto
        show "set (timers (fst st)) \<subseteq> set (timers (fst (process_node e st)))"
          unfolding f by auto
      next
        fix ev assume "ev \<in> set (collisionEvents (fst (process_node e st)))"
          "ev \<notin> set (collisionEvents (fst st))"
        then have "ev = ce" unfolding f by simp
        then show "ce_timestamp ev = clock (fst st) \<and> stamped (clock (fst st)) (ce_id ev) \<and>
                     (clock (fst st) + 1500, RemoveCollision (ce_id ev))
                       \<in> set (timers (fst (process_node e st)))"
          unfolding f t_def [symmetric] using ce by (simp add: tc_def)
      next
        fix ev assume "ev \<in> set (supernovaEvents (fst (process_node e st)))"
          "ev \<notin> set (supernovaEvents (fst st))"
        then show "sn_timestamp ev = clock (fst st) \<and> stamped (clock (fst st)) (sn_id ev) \<and>
                     (clock (fst st) + 2000, RemoveSupernova (sn_id ev))
                       \<in> set (timers (fst (process_node e st)))"
          unfolding f by simp
      next
        fix tm assume "tm \<in> set (timers (fst (process_node e st)))" "tm \<notin> set (timers (fst st))"
        then have "tm = tc" unfolding f by simp
        then show "new_timer (clock (fst st)) tm" unfolding t_def [symmetric] using ntc by blast
      qed
    qed
  qed
qed

lemma fold_process_node_appends: "appends (fst st) (fst (fold process_node occ st))"
proof (induction occ arbitrary: st)
  case Nil
  show ?case by (simp add: appends_refl)
next
  case (Cons e occ)
  from process_node_appends [of st e] Cons [of "process_node e st"] show ?case
    by (simp only: fold_simps) (rule appends_trans)
qed

lemma tick_loop_appends: "appends s (fst (tick_loop d s))"
proof -
  have "appends s (rotate_grid s)" by (rule appends_same) simp_all
  moreover have "appends (rotate_grid s) (fst (tick_loop d s))"
    unfolding tick_loop_def Let_def
    using fold_process_node_appends [of "(rotate_grid s, l)" occ for l occ] by simp
  ultimately show ?thesis by (rule appends_trans)
qed

lemma tick_core_appends: "appends s (tick_core d s)"
proof -
  let ?l = "fst (tick_loop d s)"
  have "appends ?l (tick_core d s)"
  proof (rule appendsI)
    show "clock (tick_core d s) = clock ?l" by simp
    show "set (collisionEvents ?l) \<subseteq> set (collisionEvents (tick_core d s))"
      by (simp only: tick_core_events subset_refl)
    show "set (supernovaEvents ?l) \<subseteq> set (supernovaEvents (tick_core d s))"
      by (simp only: tick_core_events subset_refl)
    show "set (timers ?l) \<subseteq> set (timers (tick_core d s))"
      unfolding tick_core_events by auto
  next
    fix e assume "e \<in> set (collisionEvents (tick_core d s))" "e \<notin> set (collisionEvents ?l)"
    then have False by (simp only: tick_core_events)
    then show "ce_timestamp e = clock ?l \<and> stamped (clock ?l) (ce_id e) \<and>
        (clock ?l + 1500, RemoveCollision (ce_id e)) \<in> set (timers (tick_core d s))" ..
  next
    fix e assume "e \<in> set (supernovaEvents (tick_core d s))" "e \<notin> set (supernovaEvents ?l)"
    then have False by (simp only: tick_core_events)
    then show "sn_timestamp e = clock ?l \<and> stamped (clock ?l) (sn_id e) \<and>
        (clock ?l + 2000, RemoveSupernova (sn_id e)) \<in> set (timers (tick_core d s))" ..
  next
    fix tm assume "tm \<in> set (timers (tick_core d s))" "tm \<notin> set (timers ?l)"
    then have "tm = (clock s + 50, ReplacementSpawn)" unfolding tick_core_events by auto
    then show "new_timer (clock ?l) tm" by simp
  qed
  with tick_loop_appends [of s d] show ?thesis by (rule appends_trans)
qed

lemma processFieldDynamics_events:
  "collisionEvents (processFieldDynamics d s) = collisionEvents (tick_core d s)"
  "supernovaEvents (processFieldDynamics d s) = supernovaEvents (tick_core d s)"
  "timers (processFieldDynamics d s) = timers (tick_core d s)"
  by (simp_all add: processFieldDynamics_def Let_def)

lemma processFieldDynamics_appends: "appends s (processFieldDynamics d s)"
proof -
  have "appends (tick_core d s) (processFieldDynamics d s)"
    by (rule appends_same) (simp_all add: processFieldDynamics_events)
  with tick_core_appends [of s d] show ?thesis by (rule appends_trans)
qed

definition timers_ok :: "sim_state \<Rightarrow> bool" where
  \<comment> \<open>No pending callback is overdue, and each was registered at a time that has come;
      every published event is stamped with its time and has its removal pending.\<close>
  "timers_ok s \<longleftrightarrow>
     (\<forall>tm \<in> set (timers s). clock s \<le> fst tm \<and> (\<exists>t \<le> clock s. new_timer t tm)) \<and>
     (\<forall>e \<in> set (collisionEvents s).
        stamped (ce_timestamp e) (ce_id e) \<and>
        (ce_timestamp e + 1500, RemoveCollision (ce_id e)) \<in> set (timers s)) \<and>
     (\<forall>e \<in> set (supernovaEvents s).
        stamped (sn_timestamp e) (sn_id e) \<and>
        (sn_timestamp e + 2000, RemoveSupernova (sn_id e)) \<in> set (timers s))"

lemma timers_okI:
  assumes "\<And>tm. tm \<in> set (timers s) \<Longrightarrow> clock s \<le> fst tm \<and> (\<exists>t \<le> clock s. new_timer t tm)"
    "\<And>e. e \<in> set (collisionEvents s) \<Longrightarrow>
        stamped (ce_timestamp e) (ce_id e) \<and>
        (ce_timestamp e + 1500, RemoveCollision (ce_id e)) \<in> set (timers s)"
    "\<And>e. e \<in> set (supernovaEvents s) \<Longrightarrow>
        stamped (sn_timestamp e) (sn_id e) \<and>
        (sn_timestamp e + 2000, RemoveSupernova (sn_id e)) \<in> set (timers s)"
  shows "timers_ok s"
  unfolding timers_ok_def using assms by blast

lemma timers_okD:
  assumes "timers_ok s"
  shows "\<And>tm. tm \<in> set (timers s) \<Longrightarrow> clock s \<le> fst tm"
    "\<And>tm. tm \<in> set (timers s) \<Longrightarrow> \<exists>t \<le> clock s. new_timer t tm"
    "\<And>e. e \<in> set (collisionEvents s) \<Longrightarrow> stamped (ce_timestamp e) (ce_id e)"
    "\<And>e. e \<in> set (collisionEvents s) \<Longrightarrow>
        (ce_timestamp e + 1500, RemoveCollision (ce_id e)) \<in> set (timers s)"
    "\<And>e. e \<in> set (supernovaEvents s) \<Longrightarrow> stamped (sn_timestamp e) (sn_id e)"
    "\<And>e. e \<in> set (supernovaEvents s) \<Longrightarrow>
        (sn_timestamp e + 2000, RemoveSupernova (sn_id e)) \<in> set (timers s)"
  using assms unfolding timers_ok_def by blast+

lemma appends_timers_ok:
  assumes "appends s s'" "timers_ok s"
  shows "timers_ok s'"
proof (rule timers_okI)
  note a = appendsD [OF assms(1)] and k = timers_okD [OF assms(2)]
  show "clock s' \<le> fst tm \<and> (\<exists>t \<le> clock s'. new_timer t tm)" if h: "tm \<in> set (timers s')" for tm
  proof (cases "tm \<in> set (timers s)")
    case True
    from k(1) [OF True] k(2) [OF True] show ?thesis by (simp only: a(1) simp_thms)
  next
    case False
    from a(7) [OF h False] have n: "new_timer (clock s) tm" .
    from new_timer_due [OF n] have "clock s \<le> fst tm" by simp
    with n show ?thesis unfolding a(1) by blast
  qed
  show "stamped (ce_timestamp e) (ce_id e) \<and>
        (ce_timestamp e + 1500, RemoveCollision (ce_id e)) \<in> set (timers s')"
    if h: "e \<in> set (collisionEvents s')" for e
  proof (cases "e \<in> set (collisionEvents s)")
    case True
    from k(3) [OF True] k(4) [OF True] a(4) show ?thesis by blast
  next
    case False
    from a(5) [OF h False] show ?thesis by simp
  qed
  show "stamped (sn_timestamp e) (sn_id e) \<and>
        (sn_timestamp e + 2000, RemoveSupernova (sn_id e)) \<in> set (timers s')"
    if h: "e \<in> set (supernovaEvents s')" for e
  proof (cases "e \<in> set (supernovaEvents s)")
    case True
    from k(5) [OF True] k(6) [OF True] a(4) show ?thesis by blast
  next
    case False
    from a(6) [OF h False] show ?thesis by simp
  qed
qed

lemma time_timers_ok:
  assumes "timers_ok s" "clock s \<le> t" "\<forall>tm \<in> set (timers s). t \<le> fst tm"
  shows "timers_ok (s\<lparr>clock := t\<rparr>)"
proof (rule timers_okI)
  note k = timers_okD [OF assms(1)]
  show "clock (s\<lparr>clock := t\<rparr>) \<le> fst tm \<and> (\<exists>t' \<le> clock (s\<lparr>clock := t\<rparr>). new_timer t' tm)"
    if "tm \<in> set (timers (s\<lparr>clock := t\<rparr>))" for tm
  proof -
    from that have m: "tm \<in> set (timers s)" by simp
    from k(2) [OF m] obtain t' where "t' \<le> clock s" "new_timer t' tm" by blast
    with assms(2) have "\<exists>t' \<le> t. new_timer t' tm" by (intro exI [of _ t']) simp
    with assms(3) m show ?thesis by simp
  qed
  show "stamped (ce_timestamp e) (ce_id e) \<and>
        (ce_timestamp e + 1500, RemoveCollision (ce_id e)) \<in> set (timers (s\<lparr>clock := t\<rparr>))"
    if "e \<in> set (collisionEvents (s\<lparr>clock := t\<rparr>))" for e
    using that k(3) [of e] k(4) [of e] by simp
  show "stamped (sn_timestamp e) (sn_id e) \<and>
        (sn_timestamp e + 2000, RemoveSupernova (sn_id e)) \<in> set (timers (s\<lparr>clock := t\<rparr>))"
    if "e \<in> set (supernovaEvents (s\<lparr>clock := t\<rparr>))" for e
    using that k(5) [of e] k(6) [of e] by simp
qed

lemma in_set_remove_nth:
  assumes "x \<in> set xs" "x \<noteq> xs ! i"
  shows "x \<in> set (take i xs @ drop (Suc i) xs)"
proof (cases "i < length xs")
  case True
  then have "xs = take i xs @ xs ! i # drop (Suc i) xs" by (rule id_take_nth_drop)
  then have "set xs = set (take i xs @ xs ! i # drop (Suc i) xs)" by (rule arg_cong)
  with assms show ?thesis by auto
next
  case False
  with assms(1) show ?thesis by simp
qed

lemma set_remove_nth: "set (take i xs @ drop (Suc i) xs) \<subseteq> set xs"
  by (auto dest: in_set_takeD in_set_dropD)

lemma fire_events:
  "collisionEvents (fire i d s) =
     (case snd (timers s ! i) of
        RemoveCollision k \<Rightarrow> filter (\<lambda>e. ce_id e \<noteq> k) (collisionEvents s)
      | _ \<Rightarrow> collisionEvents s)"
  "supernovaEvents (fire i d s) =
     (case snd (timers s ! i) of
        RemoveSupernova k \<Rightarrow> filter (\<lambda>e. sn_id e \<noteq> k) (supernovaEvents s)
      | _ \<Rightarrow> supernovaEvents s)"
  "timers (fire i d s) = take i (timers s) @ drop (Suc i) (timers s)"
  by (simp_all add: fire_def run_task_def split: task.splits)

lemma fire_timers_ok:
  assumes "timers_ok s"
  shows "timers_ok (fire i d s)"
proof (rule timers_okI)
  note k = timers_okD [OF assms]
  show "clock (fire i d s) \<le> fst tm \<and> (\<exists>t \<le> clock (fire i d s). new_timer t tm)"
    if "tm \<in> set (timers (fire i d s))" for tm
  proof -
    from that set_remove_nth [of i "timers s"] have m: "tm \<in> set (timers s)"
      unfolding fire_events by (rule rev_subsetD)
    from k(1) [OF m] k(2) [OF m] show ?thesis by simp
  qed
  show "stamped (ce_timestamp e) (ce_id e) \<and>
        (ce_timestamp e + 1500, RemoveCollision (ce_id e)) \<in> set (timers (fire i d s))"
    if h: "e \<in> set (collisionEvents (fire i d s))" for e
  proof -
    from h have m: "e \<in> set (collisionEvents s)"
      and n: "snd (timers s ! i) \<noteq> RemoveCollision (ce_id e)"
      unfolding fire_events by (auto split: task.splits)
    from n have "(ce_timestamp e + 1500, RemoveCollision (ce_id e)) \<noteq> timers s ! i"
      by (cases "timers s ! i") auto
    with k(4) [OF m] have "(ce_timestamp e + 1500, RemoveCollision (ce_id e)) \<in> set (timers (fire i d s))"
      unfolding fire_events by (rule in_set_remove_nth)
    with k(3) [OF m] show ?thesis by simp
  qed
  show "stamped (sn_timestamp e) (sn_id e) \<and>
        (sn_timestamp e + 2000, RemoveSupernova (sn_id e)) \<in> set (timers (fire i d s))"
    if h: "e \<in> set (supernovaEvents (fire i d s))" for e
  proof -
    from h have m: "e \<in> set (supernovaEvents s)"
      and n: "snd (timers s ! i) \<noteq> RemoveSupernova (sn_id e)"
      unfolding fire_events by (auto split: task.splits)
    from n have "(sn_timestamp e + 2000, RemoveSupernova (sn_id e)) \<noteq> timers s ! i"
      by (cases "timers s ! i") auto
    with k(6) [OF m] have "(sn_timestamp e + 2000, RemoveSupernova (sn_id e)) \<in> set (timers (fire i d s))"
      unfolding fire_events by (rule in_set_remove_nth)
    with k(5) [OF m] show ?thesis by simp
  qed
qed

lemma spawnParticle_appends: "appends s (spawnParticle pos d s)"
  by (rule appends_same) simp_all

lemma step_timers_ok:
  assumes "step s s'" "timers_ok s"
  shows "timers_ok s'"
  using assms(1)
proof (cases rule: step.cases)
  case (s_tick td)
  from processFieldDynamics_appends assms(2) show ?thesis unfolding s_tick by (rule appends_timers_ok)
next
  case (s_spawn pos d)
  from spawnParticle_appends assms(2) show ?thesis unfolding s_spawn by (rule appends_timers_ok)
next
  case (s_fire i d)
  from assms(2) show ?thesis unfolding s_fire(1) by (rule fire_timers_ok)
next
  case (s_time t)
  from assms(2) s_time(2,3) show ?thesis unfolding s_time(1) by (rule time_timers_ok)
qed

lemma reachable_timers_ok: "reachable s \<Longrightarrow> timers_ok s"
proof (induction rule: reachable.induct)
  case (r_init t0 d)
  show ?case by (rule timers_okI) simp_all
next
  case (r_step s s')
  from r_step.hyps(2) r_step.IH show ?case by (rule step_timers_ok)
qed

lemma step_clock: "step s s' \<Longrightarrow> clock s \<le> clock s'"
  by (erule step.cases) simp_all

lemma steps_reachable:
  assumes "step\<^sup>*\<^sup>* s s'" "reachable s"
  shows "reachable s' \<and> clock s \<le> clock s'"
  using assms
proof (induction rule: rtranclp_induct)
  case base
  then show ?case by simp
next
  case (step y z)
  then have "reachable y" "clock s \<le> clock y" by simp_all
  moreover from step.hyps(2) have "clock y \<le> clock z" by (rule step_clock)
  ultimately show ?case using step.hyps(2) by (auto intro: r_step)
qed

lemma removal_due:
  assumes "timers_ok s" "e \<in> set (collisionEvents s)" "(due, RemoveCollision (ce_id e)) \<in> set (timers s)"
  shows "due = ce_timestamp e + 1500"
proof -
  note k = timers_okD [OF assms(1)]
  from k(2) [OF assms(3)] obtain t where "new_timer t (due, RemoveCollision (ce_id e))" by blast
  then have t: "due = t + 1500" "stamped t (ce_id e)" by simp_all
  from t(2) k(3) [OF assms(2)] have "t = ce_timestamp e" by (rule stamped_same)
  with t(1) show ?thesis by simp
qed

lemma supernova_removal_due:
  assumes "timers_ok s" "e \<in> set (supernovaEvents s)" "(due, RemoveSupernova (sn_id e)) \<in> set (timers s)"
  shows "due = sn_timestamp e + 2000"
proof -
  note k = timers_okD [OF assms(1)]
  from k(2) [OF assms(3)] obtain t where "new_timer t (due, RemoveSupernova (sn_id e))" by blast
  then have t: "due = t + 2000" "stamped t (sn_id e)" by simp_all
  from t(2) k(5) [OF assms(2)] have "t = sn_timestamp e" by (rule stamped_same)
  with t(1) show ?thesis by simp
qed

lemma step_keeps_collision:
  assumes "timers_ok s" "step s s'" "e \<in> set (collisionEvents s)" "clock s' < ce_timestamp e + 1500"
  shows "e \<in> set (collisionEvents s')"
  using assms(2)
proof (cases rule: step.cases)
  case (s_tick td)
  from appendsD(2) [OF processFieldDynamics_appends] assms(3) show ?thesis
    unfolding s_tick by (rule subsetD)
next
  case (s_spawn pos d)
  with assms(3) show ?thesis by simp
next
  case (s_fire i d)
  have "snd (timers s ! i) \<noteq> RemoveCollision (ce_id e)"
  proof
    assume r: "snd (timers s ! i) = RemoveCollision (ce_id e)"
    from s_fire(2) have "timers s ! i \<in> set (timers s)" by (rule nth_mem)
    with r have "(fst (timers s ! i), RemoveCollision (ce_id e)) \<in> set (timers s)"
      by (cases "timers s ! i") simp
    with assms(1,3) have "fst (timers s ! i) = ce_timestamp e + 1500" by (rule removal_due)
    with s_fire(3) assms(4) show False unfolding s_fire(1) by simp
  qed
  with assms(3) show ?thesis unfolding s_fire(1) fire_events by (auto split: task.splits)
next
  case (s_time t)
  with assms(3) show ?thesis by simp
qed

lemma step_keeps_supernova:
  assumes "timers_ok s" "step s s'" "e \<in> set (supernovaEvents s)" "clock s' < sn_timestamp e + 2000"
  shows "e \<in> set (supernovaEvents s')"
  using assms(2)
proof (cases rule: step.cases)
  case (s_tick td)
  from appendsD(3) [OF processFieldDynamics_appends] assms(3) show ?thesis
    unfolding s_tick by (rule subsetD)
next
  case (s_spawn pos d)
  with assms(3) show ?thesis by simp
next
  case (s_fire i d)
  have "snd (timers s ! i) \<noteq> RemoveSupernova (sn_id e)"
  proof
    assume r: "snd (timers s ! i) = RemoveSupernova (sn_id e)"
    from s_fire(2) have "timers s ! i \<in> set (timers s)" by (rule nth_mem)
    with r have "(fst (timers s ! i), RemoveSupernova (sn_id e)) \<in> set (timers s)"
      by (cases "timers s ! i") simp
    with assms(1,3) have "fst (timers s ! i) = sn_timestamp e + 2000" by (rule supernova_removal_due)
    with s_fire(3) assms(4) show False unfolding s_fire(1) by simp
  qed
  with assms(3) show ?thesis unfolding s_fire(1) fire_events by (auto split: task.splits)
next
  case (s_time t)
  with assms(3) show ?thesis by simp
qed

lemma steps_keep_collision:
  assumes "step\<^sup>*\<^sup>* s s'" "reachable s" "e \<in> set (collisionEvents s)"
    "clock s' < ce_timestamp e + 1500"
  shows "e \<in> set (collisionEvents s')"
  using assms(1,4)
proof (induction rule: rtranclp_induct)
  case base
  from assms(3) show ?case .
next
  case (step y z)
  from step.hyps(2) have "clock y \<le> clock z" by (rule step_clock)
  with step.prems have "clock y < ce_timestamp e + 1500" by simp
  then have m: "e \<in> set (collisionEvents y)" by (rule step.IH)
  from steps_reachable [OF step.hyps(1) assms(2)] have "timers_ok y"
    by (intro reachable_timers_ok) simp
  then show ?case using step.hyps(2) m step.prems by (rule step_keeps_collision)
qed

lemma steps_keep_supernova:
  assumes "step\<^sup>*\<^sup>* s s'" "reachable s" "e \<in> set (supernovaEvents s)"
    "clock s' < sn_timestamp e + 2000"
  shows "e \<in> set (supernovaEvents s')"
  using assms(1,4)
proof (induction rule: rtranclp_induct)
  case base
  from assms(3) show ?case .
next
  case (step y z)
  from step.hyps(2) have "clock y \<le> clock z" by (rule step_clock)
  with step.prems have "clock y < sn_timestamp e + 2000" by simp
  then have m: "e \<in> set (supernovaEvents y)" by (rule step.IH)
  from steps_reachable [OF step.hyps(1) assms(2)] have "timers_ok y"
    by (intro reachable_timers_ok) simp
  then show ?case using step.hyps(2) m step.prems by (rule step_keeps_supernova)
qed

lemma step_publishes_now:
  assumes "step s s'"
  shows "e \<in> set (collisionEvents s') \<Longrightarrow> e \<notin> set (collisionEvents s) \<Longrightarrow> ce_timestamp e = clock s'"
    and "e' \<in> set (supernovaEvents s') \<Longrightarrow> e' \<notin> set (supernovaEvents s) \<Longrightarrow> sn_timestamp e' = clock s'"
proof -
  assume h: "e \<in> set (collisionEvents s')" "e \<notin> set (collisionEvents s)"
  from assms show "ce_timestamp e = clock s'"
  proof (cases rule: step.cases)
    case (s_tick td)
    note a = appendsD [OF processFieldDynamics_appends [of s td]]
    from h a(5) [of e] show ?thesis unfolding s_tick by simp
  next
    case (s_spawn pos d)
    with h show ?thesis by simp
  next
    case (s_fire i d)
    with h show ?thesis by (auto simp: fire_events split: task.splits)
  next
    case (s_time t)
    with h show ?thesis by simp
  qed
next
  assume h: "e' \<in> set (supernovaEvents s')" "e' \<notin> set (supernovaEvents s)"
  from assms show "sn_timestamp e' = clock s'"
  proof (cases rule: step.cases)
    case (s_tick td)
    note a = appendsD [OF processFieldDynamics_appends [of s td]]
    from h a(6) [of e'] show ?thesis unfolding s_tick by simp
  next
    case (s_spawn pos d)
    with h show ?thesis by simp
  next
    case (s_fire i d)
    with h show ?thesis by (auto simp: fire_events split: task.splits)
  next
    case (s_time t)
    with h show ?thesis by simp
  qed
qed

lemma removal_pending:
  assumes "timers_ok s" "e \<in> set (collisionEvents s)"
  shows "clock s \<le> ce_timestamp e + 1500"
    and "\<exists>k < length (timers s). timers s ! k = (ce_timestamp e + 1500, RemoveCollision (ce_id e)) \<and>
           e \<notin> set (collisionEvents (fire k d s))"
proof -
  note k = timers_okD [OF assms(1)]
  from k(4) [OF assms(2)] have m: "(ce_timestamp e + 1500, RemoveCollision (ce_id e)) \<in> set (timers s)" .
  from k(1) [OF m] show "clock s \<le> ce_timestamp e + 1500" by simp
  from m obtain j where j: "j < length (timers s)"
    "timers s ! j = (ce_timestamp e + 1500, RemoveCollision (ce_id e))"
    unfolding in_set_conv_nth by blast
  then have "e \<notin> set (collisionEvents (fire j d s))" by (simp add: fire_events)
  with j show "\<exists>k < length (timers s). timers s ! k = (ce_timestamp e + 1500, RemoveCollision (ce_id e)) \<and>
           e \<notin> set (collisionEvents (fire k d s))" by blast
qed

lemma supernova_removal_pending:
  assumes "timers_ok s" "e \<in> set (supernovaEvents s)"
  shows "clock s \<le> sn_timestamp e + 2000"
    and "\<exists>k < length (timers s). timers s ! k = (sn_timestamp e + 2000, RemoveSupernova (sn_id e)) \<and>
           e \<notin> set (supernovaEvents (fire k d s))"
proof -
  note k = timers_okD [OF assms(1)]
  from k(6) [OF assms(2)] have m: "(sn_timestamp e + 2000, RemoveSupernova (sn_id e)) \<in> set (timers s)" .
  from k(1) [OF m] show "clock s \<le> sn_timestamp e + 2000" by simp
  from m obtain j where j: "j < length (timers s)"
    "timers s ! j = (sn_timestamp e + 2000, RemoveSupernova (sn_id e))"
    unfolding in_set_conv_nth by blast
  then have "e \<notin> set (supernovaEvents (fire j d s))" by (simp add: fire_events)
  with j show "\<exists>k < length (timers s). timers s ! k = (sn_timestamp e + 2000, RemoveSupernova (sn_id e)) \<and>
           e \<notin> set (supernovaEvents (fire k d s))" by blast
qed

text \<open>
  C9. In every state the service reaches, with the clock in milliseconds: a CollisionEvent
  that is in the published list is at most 1500 after its timestamp, the callback of its
  removal is pending, due at exactly 1500 after the timestamp, and running that callback
  takes the event out of the list; likewise a SupernovaEvent, with 2000. An event that a
  step adds to a list carries the time of that step as its timestamp. Along any run from
  the state, an event of the list is still in the list in every state whose clock is
  strictly before the timestamp plus the lifetime. A callback that runs filters out of
  the list of its kind exactly the events whose id is the id it was registered for, and
  leaves the other list as it is.
\<close>

theorem events_expire_after_their_lifetime:
  assumes "reachable s"
  shows
   "(\<forall>e \<in> set (collisionEvents s).
       clock s \<le> ce_timestamp e + 1500 \<and>
       (\<exists>k < length (timers s). timers s ! k = (ce_timestamp e + 1500, RemoveCollision (ce_id e)) \<and>
          e \<notin> set (collisionEvents (fire k d s))) \<and>
       (\<forall>due. (due, RemoveCollision (ce_id e)) \<in> set (timers s) \<longrightarrow> due = ce_timestamp e + 1500)) \<and>
    (\<forall>e \<in> set (supernovaEvents s).
       clock s \<le> sn_timestamp e + 2000 \<and>
       (\<exists>k < length (timers s). timers s ! k = (sn_timestamp e + 2000, RemoveSupernova (sn_id e)) \<and>
          e \<notin> set (supernovaEvents (fire k d s))) \<and>
       (\<forall>due. (due, RemoveSupernova (sn_id e)) \<in> set (timers s) \<longrightarrow> due = sn_timestamp e + 2000)) \<and>
    (step s s' \<longrightarrow>
       (\<forall>e \<in> set (collisionEvents s') - set (collisionEvents s). ce_timestamp e = clock s') \<and>
       (\<forall>e \<in> set (supernovaEvents s') - set (supernovaEvents s). sn_timestamp e = clock s')) \<and>
    (step\<^sup>*\<^sup>* s s'' \<longrightarrow>
       (\<forall>e \<in> set (collisionEvents s). clock s'' < ce_timestamp e + 1500 \<longrightarrow> e \<in> set (collisionEvents s'')) \<and>
       (\<forall>e \<in> set (supernovaEvents s). clock s'' < sn_timestamp e + 2000 \<longrightarrow> e \<in> set (supernovaEvents s''))) \<and>
    collisionEvents (fire j d s) =
      (case snd (timers s ! j) of
         RemoveCollision i \<Rightarrow> filter (\<lambda>e. ce_id e \<noteq> i) (collisionEvents s)
       | _ \<Rightarrow> collisionEvents s) \<and>
    supernovaEvents (fire j d s) =
      (case snd (timers s ! j) of
         RemoveSupernova i \<Rightarrow> filter (\<lambda>e. sn_id e \<noteq> i) (supernovaEvents s)
       | _ \<Rightarrow> supernovaEvents s)"
proof -
  from assms have ok: "timers_ok s" by (rule reachable_timers_ok)
  have c1: "\<forall>e \<in> set (collisionEvents s).
       clock s \<le> ce_timestamp e + 1500 \<and>
       (\<exists>k < length (timers s). timers s ! k = (ce_timestamp e + 1500, RemoveCollision (ce_id e)) \<and>
          e \<notin> set (collisionEvents (fire k d s))) \<and>
       (\<forall>due. (due, RemoveCollision (ce_id e)) \<in> set (timers s) \<longrightarrow> due = ce_timestamp e + 1500)"
  proof (intro ballI conjI allI impI)
    fix e assume e: "e \<in> set (collisionEvents s)"
    from ok e show "clock s \<le> ce_timestamp e + 1500" by (rule removal_pending(1))
    from ok e show "\<exists>k < length (timers s). timers s ! k = (ce_timestamp e + 1500, RemoveCollision (ce_id e)) \<and>
          e \<notin> set (collisionEvents (fire k d s))" by (rule removal_pending(2))
    fix due assume "(due, RemoveCollision (ce_id e)) \<in> set (timers s)"
    with ok e show "due = ce_timestamp e + 1500" by (rule removal_due)
  qed
  have c2: "\<forall>e \<in> set (supernovaEvents s).
       clock s \<le> sn_timestamp e + 2000 \<and>
       (\<exists>k < length (timers s). timers s ! k = (sn_timestamp e + 2000, RemoveSupernova (sn_id e)) \<and>
          e \<notin> set (supernovaEvents (fire k d s))) \<and>
       (\<forall>due. (due, RemoveSupernova (sn_id e)) \<in> set (timers s) \<longrightarrow> due = sn_timestamp e + 2000)"
  proof (intro ballI conjI allI impI)
    fix e assume e: "e \<in> set (supernovaEvents s)"
    from ok e show "clock s \<le> sn_timestamp e + 2000" by (rule supernova_removal_pending(1))
    from ok e show "\<exists>k < length (timers s). timers s ! k = (sn_timestamp e + 2000, RemoveSupernova (sn_id e)) \<and>
          e \<notin> set (supernovaEvents (fire k d s))" by (rule supernova_removal_pending(2))
    fix due assume "(due, RemoveSupernova (sn_id e)) \<in> set (timers s)"
    with ok e show "due = sn_timestamp e + 2000" by (rule supernova_removal_due)
  qed
  have c3: "step s s' \<longrightarrow>
       (\<forall>e \<in> set (collisionEvents s') - set (collisionEvents s). ce_timestamp e = clock s') \<and>
       (\<forall>e \<in> set (supernovaEvents s') - set (supernovaEvents s). sn_timestamp e = clock s')"
    using step_publishes_now [of s s'] by blast
  have c4: "step\<^sup>*\<^sup>* s s'' \<longrightarrow>
       (\<forall>e \<in> set (collisionEvents s). clock s'' < ce_timestamp e + 1500 \<longrightarrow> e \<in> set (collisionEvents s'')) \<and>
       (\<forall>e \<in> set (supernovaEvents s). clock s'' < sn_timestamp e + 2000 \<longrightarrow> e \<in> set (supernovaEvents s''))"
    using steps_keep_collision [of s s'', OF _ assms] steps_keep_supernova [of s s'', OF _ assms]
    by blast
  note c5 = fire_events(1) [of j d s] and c6 = fire_events(2) [of j d s]
  show ?thesis by (intro conjI c1 c2 c3 c4 c5 c6)
qed

subsection \<open>A run with a collision and a supernova\<close>

definition lookup_occ :: "occupancy \<Rightarrow> string \<Rightarrow> string list" where
  \<comment> \<open>\<open>nodeOccupancy.get(k) ?? []\<close>\<close>
  "lookup_occ occ k = (case map_of occ k of None \<Rightarrow> [] | Some vs \<Rightarrow> vs)"

lemma lookup_occ_simps [simp]:
  "lookup_occ [] k = []"
  "lookup_occ ((k', vs) # occ) k = (if k = k' then vs else lookup_occ occ k)"
  by (simp_all add: lookup_occ_def)

lemma lookup_occ_push_same: "lookup_occ (occ_push k v occ) k = lookup_occ occ k @ [v]"
proof (induction occ)
  case Nil
  show ?case by simp
next
  case (Cons e occ)
  obtain k1 vs where e: "e = (k1, vs)" by (cases e)
  show ?case unfolding e using Cons by (cases "k1 = k") simp_all
qed

lemma lookup_occ_push_other: "k' \<noteq> k \<Longrightarrow> lookup_occ (occ_push k v occ) k' = lookup_occ occ k'"
proof (induction occ)
  case Nil
  then show ?case by simp
next
  case (Cons e occ)
  obtain k1 vs where e: "e = (k1, vs)" by (cases e)
  show ?case unfolding e using Cons by (cases "k1 = k") simp_all
qed

lemma lookup_occ_push:
  "lookup_occ (occ_push k v occ) k' = (if k' = k then lookup_occ occ k @ [v] else lookup_occ occ k')"
  by (simp add: lookup_occ_push_same lookup_occ_push_other)

lemma lookup_occ_in_set: "lookup_occ occ k \<noteq> [] \<Longrightarrow> (k, lookup_occ occ k) \<in> set occ"
proof (induction occ)
  case Nil
  then show ?case by simp
next
  case (Cons e occ)
  obtain k1 vs where e: "e = (k1, vs)" by (cases e)
  from Cons show ?case unfolding e by (cases "k = k1") simp_all
qed

definition aims_at :: "intersection_node list \<Rightarrow> string \<Rightarrow> particle_state \<Rightarrow> bool" where
  "aims_at ns k p \<longleftrightarrow>
     (case findNearestNode ns (locationalFrequency p) of None \<Rightarrow> False | Some t \<Rightarrow> nid t = k)"

lemma lookup_assign_targets:
  "lookup_occ (snd (assign_targets ns ps occ)) k = lookup_occ occ k @ map pid (filter (aims_at ns k) ps)"
proof (induction ps arbitrary: occ)
  case Nil
  show ?case by simp
next
  case (Cons p ps)
  show ?case
  proof (cases "findNearestNode ns (locationalFrequency p)")
    case None
    with Cons [of occ] show ?thesis
      by (simp add: assign_targets_step aims_at_def del: assign_targets.simps(2))
  next
    case (Some t)
    with Cons [of "occ_push (nid t) (pid p) occ"] show ?thesis
      by (simp add: assign_targets_step aims_at_def lookup_occ_push del: assign_targets.simps(2))
  qed
qed

lemma length_filter_mono:
  assumes "\<And>x. x \<in> set xs \<Longrightarrow> Q x \<Longrightarrow> P x"
  shows "length (filter Q xs) \<le> length (filter P xs)"
  using assms by (induction xs) auto

lemma crowded_entry_events:
  assumes "distinct (map pid (particles s))" "(nodeId, pIds) \<in> set (snd (tick_assigned d s))"
    "6 \<le> length pIds"
  shows "collisionEvents (tick_core d s) \<noteq> []" "supernovaEvents (tick_core d s) \<noteq> []"
proof -
  let ?occ = "snd (tick_assigned d s)"
  from assms(2) obtain k where k: "k < length ?occ" "?occ ! k = (nodeId, pIds)"
    by (auto simp: in_set_conv_nth)
  let ?st = "loop_state_at d s k"
  note fr = loop_state_at_frame [of d s k]
  have dp: "distinct pIds"
    using distinct_occupants_entry [OF tick_assigned_disjoint [OF assms(1)] assms(2)] by simp
  have "set pIds \<subseteq> pid ` set (fst (tick_assigned d s))"
    using tick_assigned_entry(1) [OF assms(2)] by simp
  also have "\<dots> = set (map pid (updated (snd ?st)))"
    by (simp only: set_map [symmetric] tick_assigned_pids fr(3))
  finally have sub: "set pIds \<subseteq> pid ` set (updated (snd ?st))" by simp
  from tick_assigned_entry(2) [OF assms(2)] have "\<exists>n \<in> set (nodes s). nid n = nodeId" by simp
  then obtain node where "find (\<lambda>n. nid n = nodeId) (nodes s) = Some node"
    by (rule find_node_by_id)
  then have node: "find (\<lambda>n. nid n = nodeId) (nodes (fst ?st)) = Some node" by (simp only: fr(1))
  have flag: "snd (collide (updated (snd ?st)) pIds)"
    using dp sub assms(3) fr(4) by (rule collide_many(2))
  from assms(3) have l1: "1 < length pIds" by simp
  let ?next = "process_node (nodeId, pIds) (fst ?st, snd ?st)"
  note found = process_node_found [OF node l1, of "snd ?st", unfolded Let_def]
  have c: "collisionEvents (fst ?next) \<noteq> []" unfolding found using flag by simp
  have n: "supernovaEvents (fst ?next) \<noteq> []" unfolding found using flag by simp
  have loop: "tick_loop d s = fold process_node (drop (Suc k) ?occ) ?next"
    using tick_loop_split [OF k(1)] by (simp only: k(2) prod.collapse)
  note a = appendsD [OF fold_process_node_appends [of ?next "drop (Suc k) ?occ"], folded loop]
  from c a(2) show "collisionEvents (tick_core d s) \<noteq> []"
    unfolding tick_core_events by (cases "collisionEvents (fst ?next)") auto
  from n a(3) show "supernovaEvents (tick_core d s) \<noteq> []"
    unfolding tick_core_events by (cases "supernovaEvents (fst ?next)") auto
qed

lemma spawnParticle_columns:
  assumes "length (particles s) < MAX_PARTICLES"
  shows "map pid (particles (spawnParticle pos d s)) = map pid (particles s) @ [new_id d]"
    and "map locationalFrequency (particles (spawnParticle pos d s)) =
           map locationalFrequency (particles s) @ [spawn_frequency pos d (nodes s)]"
  by (simp_all add: spawnParticle_particles [OF assms] newParticle_def comp_def)

definition crowd :: sim_state where
  \<comment> \<open>The constructor at the time 0, then six particles spawned at the origin.\<close>
  "crowd = fold (\<lambda>i. spawnParticle (Some (vec 0 0 0)) (example_draws i)) six_ids
             (constructor 0 (example_draws ''p''))"

definition crowded :: sim_state where
  \<comment> \<open>One tick later.\<close>
  "crowded = processFieldDynamics calm_draws crowd"

lemma reachable_fold_spawn:
  "reachable s \<Longrightarrow> reachable (fold (\<lambda>i. spawnParticle pos (f i)) ids s)"
  by (induction ids arbitrary: s) (auto intro: r_step s_spawn)

lemma fold_spawn_fields [simp]:
  "nodes (fold (\<lambda>i. spawnParticle pos (f i)) ids s) = nodes s"
  "clock (fold (\<lambda>i. spawnParticle pos (f i)) ids s) = clock s"
  "timers (fold (\<lambda>i. spawnParticle pos (f i)) ids s) = timers s"
  "collisionEvents (fold (\<lambda>i. spawnParticle pos (f i)) ids s) = collisionEvents s"
  "supernovaEvents (fold (\<lambda>i. spawnParticle pos (f i)) ids s) = supernovaEvents s"
  "gridAngularVelocity (fold (\<lambda>i. spawnParticle pos (f i)) ids s) = gridAngularVelocity s"
  by (induction ids arbitrary: s) simp_all

lemma fold_spawn_columns:
  assumes "length (particles s) + length ids \<le> MAX_PARTICLES"
  shows "map pid (particles (fold (\<lambda>i. spawnParticle (Some v) (f i)) ids s)) =
           map pid (particles s) @ map (\<lambda>i. new_id (f i)) ids"
    and "map locationalFrequency (particles (fold (\<lambda>i. spawnParticle (Some v) (f i)) ids s)) =
           map locationalFrequency (particles s) @ replicate (length ids) (calculateNodeFrequency v)"
  using assms
proof (induction ids arbitrary: s)
  case Nil
  case 1 show ?case by simp
  case 2 show ?case by simp
next
  case (Cons i ids)
  case 1
  then have l: "length (particles s) < MAX_PARTICLES" by simp
  with 1 have "length (particles (spawnParticle (Some v) (f i) s)) + length ids \<le> MAX_PARTICLES"
    by (simp add: length_spawnParticle)
  from Cons.IH(1) [OF this] show ?case by (simp add: spawnParticle_columns [OF l])
next
  case (Cons i ids)
  case 2
  then have l: "length (particles s) < MAX_PARTICLES" by simp
  with 2 have "length (particles (spawnParticle (Some v) (f i) s)) + length ids \<le> MAX_PARTICLES"
    by (simp add: length_spawnParticle)
  from Cons.IH(2) [OF this] show ?case
    by (simp add: spawnParticle_columns [OF l] spawn_frequency_def replicate_append_same)
qed

lemma crowd_fields [simp]:
  "nodes crowd = generate_nodes GRID_SIZE" "clock crowd = 0" "timers crowd = []"
  "collisionEvents crowd = []" "supernovaEvents crowd = []"
  "gridAngularVelocity crowd = vec 0 0 0"
  by (simp_all add: crowd_def)

lemma reachable_crowd: "reachable crowd"
  unfolding crowd_def by (rule reachable_fold_spawn) (rule r_init)

lemma crowd_columns:
  "map pid (particles crowd) = map pid (particles (constructor 0 (example_draws ''p''))) @ six_ids"
  "map locationalFrequency (particles crowd) =
     map locationalFrequency (particles (constructor 0 (example_draws ''p''))) @ replicate 6 340"
proof -
  have l: "length (particles (constructor 0 (example_draws ''p''))) + length six_ids \<le> MAX_PARTICLES"
    by (simp add: six_ids_def MAX_PARTICLES_def)
  have n: "length six_ids = 6" by (simp add: six_ids_def)
  have i: "map (\<lambda>i. new_id (example_draws i)) six_ids = six_ids"
    by (simp add: example_draws_def)
  from fold_spawn_columns(1) [OF l, of "vec 0 0 0" example_draws]
  show "map pid (particles crowd) = map pid (particles (constructor 0 (example_draws ''p''))) @ six_ids"
    unfolding crowd_def i .
  from fold_spawn_columns(2) [OF l, of "vec 0 0 0" example_draws]
  show "map locationalFrequency (particles crowd) =
     map locationalFrequency (particles (constructor 0 (example_draws ''p''))) @ replicate 6 340"
    unfolding crowd_def calculateNodeFrequency_origin n .
qed

lemma calm_drift_frequency:
  "locationalFrequency (drift_particle ns (multiplyScalar (97 / 100) (vec 0 0 0)) (mk_rnd (1 / 2)) p)
     = max 100 (min 999 (locationalFrequency p))"
  by (simp add: drift_particle_def Let_def multiplyScalar_def vec_def lengthSq_def mk_rnd.rep_eq)

lemma calm_drift_all:
  assumes "gridAngularVelocity s = vec 0 0 0"
  shows "map locationalFrequency (drift_all calm_draws (rotate_grid s)) =
           map (\<lambda>p. max 100 (min 999 (locationalFrequency p))) (particles s)"
proof -
  have "map locationalFrequency
          (map (\<lambda>(i, p). drift_particle ns (multiplyScalar (97 / 100) (vec 0 0 0)) (mk_rnd (1 / 2)) p)
             (enumerate k ps))
        = map (\<lambda>p. max 100 (min 999 (locationalFrequency p))) ps" for ns k ps
    by (induction ps arbitrary: k) (simp_all add: calm_drift_frequency)
  then show ?thesis by (simp add: drift_all_def calm_draws_def assms)
qed

lemma constructor_pids: "map pid (particles (constructor t0 d)) = [new_id d]"
proof -
  have "length (particles (initializeNodes (fields_at t0))) < MAX_PARTICLES"
    by (simp add: initializeNodes_def fields_at_def MAX_PARTICLES_def)
  from spawnParticle_columns(1) [OF this] show ?thesis
    by (simp add: constructor_def initializeNodes_def fields_at_def)
qed

lemma crowd_distinct: "distinct (map pid (particles crowd))"
  by (simp add: crowd_columns constructor_pids example_draws_def six_ids_def)

lemma crowd_entry:
  obtains k vs where "(k, vs) \<in> set (snd (tick_assigned calm_draws crowd))" "6 \<le> length vs"
proof -
  let ?ns = "generate_nodes GRID_SIZE"
  let ?ps = "drift_all calm_draws (rotate_grid crowd)"
  obtain t where t: "findNearestNode ?ns 340 = Some t"
    using grid_not_Nil by (cases ?ns) (simp_all add: findNearestNode_def)
  let ?vs = "lookup_occ (snd (tick_assigned calm_draws crowd)) (nid t)"
  have fs: "map locationalFrequency ?ps =
      map (\<lambda>p. max 100 (min 999 (locationalFrequency p))) (particles (constructor 0 (example_draws ''p'')))
        @ replicate 6 340"
  proof -
    have "map (\<lambda>p. max 100 (min 999 (locationalFrequency p))) (particles crowd)
        = map (\<lambda>f. max 100 (min 999 f)) (map locationalFrequency (particles crowd))"
      by (simp add: comp_def)
    also have "\<dots> = map (\<lambda>f. max 100 (min 999 f))
                      (map locationalFrequency (particles (constructor 0 (example_draws ''p''))))
                    @ replicate 6 340"
      unfolding crowd_columns(2) by simp
    finally show ?thesis by (simp add: calm_drift_all comp_def)
  qed
  have "length (filter (\<lambda>y. y = 340) (map locationalFrequency ?ps)) \<ge> 6"
    unfolding fs by simp
  then have six: "6 \<le> length (filter (\<lambda>p. locationalFrequency p = 340) ?ps)"
    by (simp add: filter_map comp_def)
  also have "\<dots> \<le> length (filter (aims_at ?ns (nid t)) ?ps)"
    by (rule length_filter_mono) (simp add: aims_at_def t)
  finally have l: "6 \<le> length ?vs"
    by (simp add: tick_assigned_def Let_def lookup_assign_targets)
  then have "?vs \<noteq> []" by auto
  then have "(nid t, ?vs) \<in> set (snd (tick_assigned calm_draws crowd))" by (rule lookup_occ_in_set)
  then show ?thesis using l by (rule that)
qed

lemma crowded_events: "collisionEvents crowded \<noteq> []" "supernovaEvents crowded \<noteq> []"
proof -
  obtain k vs where e: "(k, vs) \<in> set (snd (tick_assigned calm_draws crowd))" "6 \<le> length vs"
    by (rule crowd_entry)
  from crowded_entry_events(1) [OF crowd_distinct e] show "collisionEvents crowded \<noteq> []"
    by (simp only: crowded_def processFieldDynamics_events not_False_eq_True)
  from crowded_entry_events(2) [OF crowd_distinct e] show "supernovaEvents crowded \<noteq> []"
    by (simp only: crowded_def processFieldDynamics_events not_False_eq_True)
qed

lemma crowded_timers: "tm \<in> set (timers crowded) \<Longrightarrow> 50 \<le> fst tm"
proof -
  assume m: "tm \<in> set (timers crowded)"
  note a = appendsD [OF processFieldDynamics_appends [of crowd calm_draws], folded crowded_def]
  from m have "new_timer (clock crowd) tm" by (rule a(7)) simp
  from new_timer_due [OF this] show ?thesis by simp
qed

lemma crowded_clock [simp]: "clock crowded = 0"
  by (simp add: crowded_def)

theorem events_expire_after_their_lifetime_witness:
  "reachable crowd \<and> step crowd crowded \<and> reachable crowded \<and>
   collisionEvents crowd = [] \<and> supernovaEvents crowd = [] \<and>
   collisionEvents crowded \<noteq> [] \<and> supernovaEvents crowded \<noteq> [] \<and>
   ce_timestamp (hd (collisionEvents crowded)) = 0 \<and>
   sn_timestamp (hd (supernovaEvents crowded)) = 0 \<and>
   (1500, RemoveCollision (ce_id (hd (collisionEvents crowded)))) \<in> set (timers crowded) \<and>
   (2000, RemoveSupernova (sn_id (hd (supernovaEvents crowded)))) \<in> set (timers crowded) \<and>
   step\<^sup>*\<^sup>* crowded (crowded\<lparr>clock := 50\<rparr>) \<and>
   hd (collisionEvents crowded) \<in> set (collisionEvents (crowded\<lparr>clock := 50\<rparr>)) \<and>
   hd (supernovaEvents crowded) \<in> set (supernovaEvents (crowded\<lparr>clock := 50\<rparr>))"
proof -
  let ?c = "hd (collisionEvents crowded)" and ?n = "hd (supernovaEvents crowded)"
  let ?later = "crowded\<lparr>clock := 50\<rparr>"
  have r0: "reachable crowd" by (rule reachable_crowd)
  have st: "step crowd crowded" unfolding crowded_def by (rule s_tick)
  from r0 st have r1: "reachable crowded" by (rule r_step)
  have e0: "collisionEvents crowd = []" "supernovaEvents crowd = []" by simp_all
  note e1 = crowded_events
  from e1 have m: "?c \<in> set (collisionEvents crowded)" "?n \<in> set (supernovaEvents crowded)"
    by simp_all
  have "step crowded ?later" by (rule s_time) (simp_all add: crowded_timers)
  then have run: "step\<^sup>*\<^sup>* crowded ?later" by (rule r_into_rtranclp)
  note before = events_expire_after_their_lifetime [OF r0, of "example_draws ''r''" crowded crowd 0]
  note after = events_expire_after_their_lifetime [OF r1, of "example_draws ''r''" crowded ?later 0]
  from before st m have t: "ce_timestamp ?c = 0" "sn_timestamp ?n = 0" by simp_all
  from after m obtain k where "k < length (timers crowded)"
    "timers crowded ! k = (ce_timestamp ?c + 1500, RemoveCollision (ce_id ?c))" by blast
  then have p1: "(1500, RemoveCollision (ce_id ?c)) \<in> set (timers crowded)"
    unfolding t using nth_mem [of k "timers crowded"] by simp
  from after m obtain k' where "k' < length (timers crowded)"
    "timers crowded ! k' = (sn_timestamp ?n + 2000, RemoveSupernova (sn_id ?n))" by blast
  then have p2: "(2000, RemoveSupernova (sn_id ?n)) \<in> set (timers crowded)"
    unfolding t using nth_mem [of k' "timers crowded"] by simp
  from after run m t have k1: "?c \<in> set (collisionEvents ?later)" by simp
  from after run m t have k2: "?n \<in> set (supernovaEvents ?later)" by simp
  from r0 st r1 e0 e1 t p1 p2 run k1 k2 show ?thesis by simp
qed

section \<open>The collision within a tick\<close>

lemma occupants_append: "occupants (a @ b) = occupants a @ occupants b"
  by (simp add: occupants_def)

lemma occupants_elsewhere:
  assumes "distinct (occupants occ)" "k < length occ" "v \<in> set (snd (occ ! k))"
  shows "v \<notin> set (occupants (take k occ))" "v \<notin> set (occupants (drop (Suc k) occ))"
proof -
  from assms(2) have "occ = take k occ @ occ ! k # drop (Suc k) occ" by (rule id_take_nth_drop)
  then have "occupants occ = occupants (take k occ @ occ ! k # drop (Suc k) occ)" by (rule arg_cong)
  then have "occupants occ = occupants (take k occ) @ snd (occ ! k) @ occupants (drop (Suc k) occ)"
    by (cases "occ ! k") (simp add: occupants_append)
  with assms(1) have "distinct (occupants (take k occ) @ snd (occ ! k) @ occupants (drop (Suc k) occ))"
    by simp
  with assms(3) show "v \<notin> set (occupants (take k occ))" "v \<notin> set (occupants (drop (Suc k) occ))"
    by auto
qed

lemma process_node_untouched:
  assumes "pid (updated (snd st) ! c) \<notin> set (snd e)"
  shows "updated (snd (process_node e st)) ! c = updated (snd st) ! c"
  using process_node_updated [of e st] collide_frame_pid [OF assms] by auto

lemma fold_process_node_untouched:
  assumes "c < length (updated (snd st))" "pid (updated (snd st) ! c) \<notin> set (occupants es)"
  shows "updated (snd (fold process_node es st)) ! c = updated (snd st) ! c"
  using assms
proof (induction es arbitrary: st)
  case Nil
  show ?case by simp
next
  case (Cons e es)
  obtain n vs where e: "e = (n, vs)" by (cases e)
  from Cons.prems(2) have a: "pid (updated (snd st) ! c) \<notin> set (snd e)"
    and b: "pid (updated (snd st) ! c) \<notin> set (occupants es)" unfolding e by simp_all
  from a have same: "updated (snd (process_node e st)) ! c = updated (snd st) ! c"
    by (rule process_node_untouched)
  have len: "length (updated (snd (process_node e st))) = length (updated (snd st))"
    using process_node_pids [of e st, THEN arg_cong, of length] by simp
  from Cons.prems(1) have c: "c < length (updated (snd (process_node e st)))" by (simp only: len)
  from b have "pid (updated (snd (process_node e st)) ! c) \<notin> set (occupants es)"
    unfolding same .
  with c have "updated (snd (fold process_node es (process_node e st))) ! c
      = updated (snd (process_node e st)) ! c" by (rule Cons.IH)
  with same show ?case by simp
qed

lemma loop_state_at_in_bounds:
  assumes "\<forall>q \<in> set (particles s). in_bounds q"
  shows "\<forall>p \<in> set (updated (snd (loop_state_at d s k))). in_bounds p"
  unfolding loop_state_at_def
  apply (rule fold_process_node_invariant)
   apply (simp only: snd_conv tick_locals.simps)
   apply (intro ballI, erule tick_assigned_in_bounds [OF assms])
  apply (erule process_node_in_bounds)
  done

lemma process_node_alone:
  assumes "length (snd e) < 2"
  shows "updated (snd (process_node e st)) = updated (snd st)"
  using assms by (simp add: process_node_def Let_def split: option.splits)

lemma process_node_stores:
  assumes "find (\<lambda>n. nid n = nodeId) (nodes (fst st)) = Some node" "2 \<le> length pIds"
  shows "updated (snd (process_node (nodeId, pIds) st)) = fst (collide (updated (snd st)) pIds)"
proof -
  from assms(2) have l: "1 < length pIds" by simp
  have st: "process_node (nodeId, pIds) st = process_node (nodeId, pIds) (fst st, snd st)" by simp
  show ?thesis unfolding st process_node_found [OF assms(1) l, of "snd st", unfolded Let_def]
    by simp
qed

lemma loop_state_at_occupant:
  assumes "distinct (map pid (particles s))" "k < length (snd (tick_assigned d s))"
    "c < length (particles s)" "pid (fst (tick_assigned d s) ! c) \<in> set (snd (snd (tick_assigned d s) ! k))"
  shows "updated (snd (loop_state_at d s k)) ! c = fst (tick_assigned d s) ! c"
    and "updated (snd (tick_loop d s)) ! c
           = updated (snd (process_node (snd (tick_assigned d s) ! k) (loop_state_at d s k))) ! c"
proof -
  let ?occ = "snd (tick_assigned d s)" and ?upd0 = "fst (tick_assigned d s)"
  let ?l0 = "\<lparr>updated = ?upd0, particleIdsToRemove = {}, explosionsToProcess = 0\<rparr>"
  have dis: "distinct (occupants ?occ)" using assms(1) by (rule tick_assigned_disjoint)
  note el = occupants_elsewhere [OF dis assms(2,4)]
  have len0: "length ?upd0 = length (particles s)"
    using tick_assigned_pids [of d s, THEN arg_cong, of length] by simp
  have "updated (snd (fold process_node (take k ?occ) (rotate_grid s, ?l0))) ! c
      = updated (snd (rotate_grid s, ?l0)) ! c"
    by (rule fold_process_node_untouched) (simp_all add: len0 assms(3) el(1))
  then show first: "updated (snd (loop_state_at d s k)) ! c = ?upd0 ! c"
    by (simp add: loop_state_at_def)
  let ?next = "process_node (?occ ! k) (loop_state_at d s k)"
  note fr = loop_state_at_frame [of d s k]
  have pids: "map pid (updated (snd ?next)) = map pid (particles s)"
    by (simp only: process_node_pids fr(3))
  then have len: "length (updated (snd ?next)) = length (particles s)"
    by (rule map_eq_imp_length_eq)
  have "pid (updated (snd ?next) ! c) = map pid (updated (snd ?next)) ! c"
    using assms(3) len by simp
  also have "\<dots> = map pid ?upd0 ! c" by (simp only: pids tick_assigned_pids)
  also have "\<dots> = pid (?upd0 ! c)" using assms(3) len0 by simp
  finally have p: "pid (updated (snd ?next) ! c) \<notin> set (occupants (drop (Suc k) ?occ))"
    using el(2) by simp
  have "updated (snd (fold process_node (drop (Suc k) ?occ) ?next)) ! c = updated (snd ?next) ! c"
  proof (rule fold_process_node_untouched)
    from assms(3) show "c < length (updated (snd ?next))" unfolding len .
    from p show "pid (updated (snd ?next) ! c) \<notin> set (occupants (drop (Suc k) ?occ))" .
  qed
  then show "updated (snd (tick_loop d s)) ! c = updated (snd ?next) ! c"
    by (simp only: tick_loop_split [OF assms(2)])
qed

text \<open>
  C2, as amended. In a tick from a state that the service reaches, or from any state
  whose particles have their attributes within their bounds, the ids of the particles
  being distinct, take the \<open>k\<close>-th entry of \<open>nodeOccupancy\<close>, a node and its occupants
  \<open>pIds\<close> after the target reassignment. The loop runs the body for this entry on the
  array as the entries before it left it, and the entries after it on what the body
  stores. Every occupant has one reference into the array; when the turn of the node
  comes the occupant is as the drift and the target reassignment left it, and at the end
  of the loop it is as the body of this node stored it: no other node touches it. With
  fewer than two occupants the body stores the array unchanged. With at least two, the
  body stores the result of the collision, which changes no id, base frequency,
  locational frequency or target, and no particle that is not an occupant. The occupants
  are updated one after the other, in the order of the occupancy list, in place: when the
  turn of the \<open>m\<close>-th occupant comes, the array holds the occupants before it as the
  collision leaves them and the others as they were, and from the other occupants as the
  array holds them then the occupant gets the harmonic factor, the amplitude and the
  energy of the specification's formulas. The resonance factor depends on base
  frequencies only; the amplitude factor reads the amplitudes that the occupants before
  it have already been given. None of the three attributes decreases. The particles of
  the service after the tick are those of the array at the end of the loop that are not
  marked for removal.
\<close>

theorem collision_updates_each_occupant_once:
  assumes "distinct (map pid (particles s))"
    and "reachable s \<or> (\<forall>p \<in> set (particles s). in_bounds p)"
    and "k < length (snd (tick_assigned d s))" and "snd (tick_assigned d s) ! k = (nodeId, pIds)"
  shows
    "let assigned = fst (tick_assigned d s);
         st = loop_state_at d s k;
         upd = updated (snd st);
         stored = updated (snd (process_node (nodeId, pIds) st));
         final = updated (snd (tick_loop d s));
         refs = collidingParticles upd pIds;
         after = fst (collide upd pIds)
     in tick_loop d s =
          fold process_node (drop (Suc k) (snd (tick_assigned d s))) (process_node (nodeId, pIds) st) \<and>
        distinct pIds \<and> length refs = length pIds \<and> distinct refs \<and>
        (\<forall>m < length pIds.
           refs ! m < length upd \<and> pid (upd ! (refs ! m)) = pIds ! m \<and>
           upd ! (refs ! m) = assigned ! (refs ! m) \<and>
           final ! (refs ! m) = stored ! (refs ! m)) \<and>
        (length pIds < 2 \<longrightarrow> stored = upd) \<and>
        (2 \<le> length pIds \<longrightarrow>
           stored = after \<and>
           map carried after = map carried upd \<and>
           (\<forall>j < length upd. j \<notin> set refs \<longrightarrow> after ! j = upd ! j) \<and>
           (\<forall>m < length pIds.
              let c = refs ! m;
                  before = fst (fold (resonate refs) (take m refs) (upd, False));
                  others = map ((!) before) (removeAll c refs)
              in length others = length pIds - 1 \<and>
                 (\<forall>i < length pIds.
                    before ! (refs ! i) = (if i < m then after ! (refs ! i) else upd ! (refs ! i))) \<and>
                 harmonicFactor (after ! c) = harmonic_after (upd ! c) others \<and>
                 amplitude (after ! c) = amplitude_after (upd ! c) others \<and>
                 energyLevel (after ! c) = energy_after (upd ! c) others \<and>
                 harmonicFactor (upd ! c) \<le> harmonicFactor (after ! c) \<and>
                 amplitude (upd ! c) \<le> amplitude (after ! c) \<and>
                 energyLevel (upd ! c) \<le> energyLevel (after ! c))) \<and>
        particles (tick_core d s) =
          filter (\<lambda>p. pid p \<notin> particleIdsToRemove (snd (tick_loop d s))) final"
proof -
  let ?occ = "snd (tick_assigned d s)" and ?assigned = "fst (tick_assigned d s)"
  let ?st = "loop_state_at d s k"
  let ?upd = "updated (snd ?st)"
  let ?stored = "updated (snd (process_node (nodeId, pIds) ?st))"
  let ?final = "updated (snd (tick_loop d s))"
  let ?refs = "collidingParticles ?upd pIds"
  let ?after = "fst (collide ?upd pIds)"
  note fr = loop_state_at_frame [of d s k]
  from assms(2) have bnd: "\<forall>p \<in> set (particles s). in_bounds p"
    using reachable_in_bounds [of s] by blast
  from assms(3) have e: "(nodeId, pIds) \<in> set ?occ" unfolding assms(4) [symmetric] by (rule nth_mem)
  have c1: "tick_loop d s = fold process_node (drop (Suc k) ?occ) (process_node (nodeId, pIds) ?st)"
    using tick_loop_split [OF assms(3)] by (simp only: assms(4))
  have c2: "distinct pIds"
    using distinct_occupants_entry [OF tick_assigned_disjoint [OF assms(1)] e] by simp
  have "set pIds \<subseteq> pid ` set ?assigned" using tick_assigned_entry(1) [OF e] by simp
  also have "\<dots> = set (map pid ?upd)" by (simp only: set_map [symmetric] tick_assigned_pids fr(3))
  finally have sub: "set pIds \<subseteq> pid ` set ?upd" by simp
  have c3: "length ?refs = length pIds" using sub by (rule length_collidingParticles)
  have frs: "first_refs (map pid ?upd) ?refs" using sub c2 by (rule collidingParticles_first_refs)
  have c4: "distinct ?refs" using frs by (rule first_refs_distinct)
  have lenu: "length ?upd = length (particles s)"
    using fr(3) by (rule map_eq_imp_length_eq)
  have lena: "length ?assigned = length (particles s)"
    using tick_assigned_pids [of d s] by (rule map_eq_imp_length_eq)
  have c5: "\<forall>m < length pIds.
           ?refs ! m < length ?upd \<and> pid (?upd ! (?refs ! m)) = pIds ! m \<and>
           ?upd ! (?refs ! m) = ?assigned ! (?refs ! m) \<and>
           ?final ! (?refs ! m) = ?stored ! (?refs ! m)"
  proof (intro allI impI)
    fix m assume m: "m < length pIds"
    then have mr: "m < length ?refs" by (simp only: c3)
    then have cin: "?refs ! m \<in> set ?refs" by (rule nth_mem)
    have cl: "?refs ! m < length ?upd" using first_refs_bound [OF frs cin] by simp
    have "map (\<lambda>c. map pid ?upd ! c) ?refs ! m = pIds ! m"
      using collidingParticles_ids [OF sub] by simp
    with mr cl have id: "pid (?upd ! (?refs ! m)) = pIds ! m" by simp
    from cl have cp: "?refs ! m < length (particles s)" by (simp only: lenu)
    have "pid (?assigned ! (?refs ! m)) = map pid ?assigned ! (?refs ! m)"
      using cp lena by simp
    also have "\<dots> = map pid ?upd ! (?refs ! m)" by (simp only: tick_assigned_pids fr(3))
    also have "\<dots> = pIds ! m" using cl id by simp
    finally have "pid (?assigned ! (?refs ! m)) \<in> set (snd (?occ ! k))"
      using m by (simp add: assms(4))
    note lo = loop_state_at_occupant [OF assms(1,3) cp this]
    from lo(2) have fin: "?final ! (?refs ! m) = ?stored ! (?refs ! m)" by (simp only: assms(4))
    show "?refs ! m < length ?upd \<and> pid (?upd ! (?refs ! m)) = pIds ! m \<and>
           ?upd ! (?refs ! m) = ?assigned ! (?refs ! m) \<and>
           ?final ! (?refs ! m) = ?stored ! (?refs ! m)"
      by (intro conjI cl id lo(1) fin)
  qed
  have c6: "length pIds < 2 \<longrightarrow> ?stored = ?upd"
    by (intro impI process_node_alone) simp
  have c7: "2 \<le> length pIds \<longrightarrow>
           ?stored = ?after \<and>
           map carried ?after = map carried ?upd \<and>
           (\<forall>j < length ?upd. j \<notin> set ?refs \<longrightarrow> ?after ! j = ?upd ! j) \<and>
           (\<forall>m < length pIds.
              let c = ?refs ! m;
                  before = fst (fold (resonate ?refs) (take m ?refs) (?upd, False));
                  others = map ((!) before) (removeAll c ?refs)
              in length others = length pIds - 1 \<and>
                 (\<forall>i < length pIds.
                    before ! (?refs ! i) = (if i < m then ?after ! (?refs ! i) else ?upd ! (?refs ! i))) \<and>
                 harmonicFactor (?after ! c) = harmonic_after (?upd ! c) others \<and>
                 amplitude (?after ! c) = amplitude_after (?upd ! c) others \<and>
                 energyLevel (?after ! c) = energy_after (?upd ! c) others \<and>
                 harmonicFactor (?upd ! c) \<le> harmonicFactor (?after ! c) \<and>
                 amplitude (?upd ! c) \<le> amplitude (?after ! c) \<and>
                 energyLevel (?upd ! c) \<le> energyLevel (?after ! c))"
  proof
    assume two: "2 \<le> length pIds"
    from tick_assigned_entry(2) [OF e] have "\<exists>n \<in> set (nodes s). nid n = nodeId" by simp
    then obtain node where "find (\<lambda>n. nid n = nodeId) (nodes s) = Some node"
      by (rule find_node_by_id)
    then have "find (\<lambda>n. nid n = nodeId) (nodes (fst ?st)) = Some node" by (simp only: fr(1))
    then have s1: "?stored = ?after" using two by (rule process_node_stores)
    have b: "\<forall>p \<in> set ?upd. in_bounds p" using bnd by (rule loop_state_at_in_bounds)
    note h = collide_each_occupant [OF c2 sub two b, unfolded Let_def]
    from h have s2: "map carried ?after = map carried ?upd" by (elim conjE)
    from h have s3: "\<forall>j < length ?upd. j \<notin> set ?refs \<longrightarrow> ?after ! j = ?upd ! j" by (elim conjE)
    from h have s4: "\<forall>m < length pIds.
              let c = ?refs ! m;
                  before = fst (fold (resonate ?refs) (take m ?refs) (?upd, False));
                  others = map ((!) before) (removeAll c ?refs)
              in length others = length pIds - 1 \<and>
                 (\<forall>i < length pIds.
                    before ! (?refs ! i) = (if i < m then ?after ! (?refs ! i) else ?upd ! (?refs ! i))) \<and>
                 harmonicFactor (?after ! c) = harmonic_after (?upd ! c) others \<and>
                 amplitude (?after ! c) = amplitude_after (?upd ! c) others \<and>
                 energyLevel (?after ! c) = energy_after (?upd ! c) others \<and>
                 harmonicFactor (?upd ! c) \<le> harmonicFactor (?after ! c) \<and>
                 amplitude (?upd ! c) \<le> amplitude (?after ! c) \<and>
                 energyLevel (?upd ! c) \<le> energyLevel (?after ! c)"
    proof (unfold Let_def, intro allI impI)
      fix m assume m: "m < length pIds"
      note x = h [THEN conjunct2, THEN conjunct2, THEN conjunct2, THEN conjunct2, rule_format, OF m]
      show "length (map ((!) (fst (fold (resonate ?refs) (take m ?refs) (?upd, False))))
                 (removeAll (?refs ! m) ?refs)) = length pIds - 1 \<and>
            (\<forall>i < length pIds.
                fst (fold (resonate ?refs) (take m ?refs) (?upd, False)) ! (?refs ! i) =
                  (if i < m then ?after ! (?refs ! i) else ?upd ! (?refs ! i))) \<and>
            harmonicFactor (?after ! (?refs ! m)) =
              harmonic_after (?upd ! (?refs ! m))
                (map ((!) (fst (fold (resonate ?refs) (take m ?refs) (?upd, False))))
                   (removeAll (?refs ! m) ?refs)) \<and>
            amplitude (?after ! (?refs ! m)) =
              amplitude_after (?upd ! (?refs ! m))
                (map ((!) (fst (fold (resonate ?refs) (take m ?refs) (?upd, False))))
                   (removeAll (?refs ! m) ?refs)) \<and>
            energyLevel (?after ! (?refs ! m)) =
              energy_after (?upd ! (?refs ! m))
                (map ((!) (fst (fold (resonate ?refs) (take m ?refs) (?upd, False))))
                   (removeAll (?refs ! m) ?refs)) \<and>
            harmonicFactor (?upd ! (?refs ! m)) \<le> harmonicFactor (?after ! (?refs ! m)) \<and>
            amplitude (?upd ! (?refs ! m)) \<le> amplitude (?after ! (?refs ! m)) \<and>
            energyLevel (?upd ! (?refs ! m)) \<le> energyLevel (?after ! (?refs ! m))"
        using x [THEN conjunct2, THEN conjunct2] .
    qed
    show "?stored = ?after \<and>
           map carried ?after = map carried ?upd \<and>
           (\<forall>j < length ?upd. j \<notin> set ?refs \<longrightarrow> ?after ! j = ?upd ! j) \<and>
           (\<forall>m < length pIds.
              let c = ?refs ! m;
                  before = fst (fold (resonate ?refs) (take m ?refs) (?upd, False));
                  others = map ((!) before) (removeAll c ?refs)
              in length others = length pIds - 1 \<and>
                 (\<forall>i < length pIds.
                    before ! (?refs ! i) = (if i < m then ?after ! (?refs ! i) else ?upd ! (?refs ! i))) \<and>
                 harmonicFactor (?after ! c) = harmonic_after (?upd ! c) others \<and>
                 amplitude (?after ! c) = amplitude_after (?upd ! c) others \<and>
                 energyLevel (?after ! c) = energy_after (?upd ! c) others \<and>
                 harmonicFactor (?upd ! c) \<le> harmonicFactor (?after ! c) \<and>
                 amplitude (?upd ! c) \<le> amplitude (?after ! c) \<and>
                 energyLevel (?upd ! c) \<le> energyLevel (?after ! c))"
      by (intro conjI s1 s2 s3 s4)
  qed
  note c8 = tick_core_particles [of d s]
  show ?thesis unfolding Let_def
    by (intro conjI c1 c2 c3 c4 c5 c6 c7 [unfolded Let_def] c8)
qed

subsection \<open>Two particles alike at one node of the grid\<close>

lemma grid_prefix:
  "\<exists>rest. generate_nodes GRID_SIZE = lattice_node 3 (- 3) (- 3) (- 3) # lattice_node 3 (- 3) (- 3) (- 2) # rest"
  by (simp add: generate_nodes_def GRID_SIZE_def Let_def)

lemma first_pick:
  "filter (\<lambda>n. \<not> isCorner n) (generate_nodes GRID_SIZE) \<noteq> []"
  "filter (\<lambda>n. \<not> isCorner n) (generate_nodes GRID_SIZE) ! 0 = lattice_node 3 (- 3) (- 3) (- 2)"
proof -
  from grid_prefix obtain rest where
    "generate_nodes GRID_SIZE = lattice_node 3 (- 3) (- 3) (- 3) # lattice_node 3 (- 3) (- 3) (- 2) # rest"
    by blast
  then show "filter (\<lambda>n. \<not> isCorner n) (generate_nodes GRID_SIZE) \<noteq> []"
    "filter (\<lambda>n. \<not> isCorner n) (generate_nodes GRID_SIZE) ! 0 = lattice_node 3 (- 3) (- 3) (- 2)"
    by simp_all
qed

lemma first_pick_frequency: "frequency (lattice_node 3 (- 3) (- 3) (- 2)) = 198"
  using calculateNodeFrequency_lattice [of "- 3" "- 3" "- 2"] by simp

lemma constructor_frequency: "spawn_frequency None (example_draws i) (generate_nodes GRID_SIZE) = 198"
proof -
  let ?nc = "filter (\<lambda>n. \<not> isCorner n) (generate_nodes GRID_SIZE)"
  from first_pick(1) have "0 < length ?nc" by simp
  moreover have "frequency (?nc ! 0) = 198" by (simp only: first_pick(2) first_pick_frequency)
  ultimately show ?thesis
    by (simp add: spawn_frequency_def Let_def example_draws_def mk_rnd.rep_eq)
qed

lemma nearest_exact:
  assumes "n \<in> set ns" "frequency n = f"
  obtains t where "findNearestNode ns f = Some t" "t \<in> set ns" "frequency t = f"
proof -
  from assms(1) have "ns \<noteq> []" by auto
  then obtain k where k: "first_nearest ns f k" "findNearestNode ns f = Some (ns ! k)"
    by (rule findNearestNode_first_nearest)
  from assms(1) obtain j where j: "j < length ns" "ns ! j = n" by (auto simp: in_set_conv_nth)
  from k(1) j(1) have "\<bar>frequency (ns ! k) - f\<bar> \<le> \<bar>frequency (ns ! j) - f\<bar>"
    by (simp add: first_nearest_def)
  with j(2) assms(2) have "frequency (ns ! k) = f" by simp
  moreover from k(1) have "ns ! k \<in> set ns" by (simp add: first_nearest_def)
  ultimately show ?thesis using k(2) by (intro that [of "ns ! k"])
qed

lemma grid_nearest:
  obtains a b where
    "findNearestNode (generate_nodes GRID_SIZE) 198 = Some a"
    "findNearestNode (generate_nodes GRID_SIZE) 340 = Some b"
    "a \<in> set (generate_nodes GRID_SIZE)" "b \<in> set (generate_nodes GRID_SIZE)"
    "nid a \<noteq> nid b" "nid a \<noteq> []" "nid b \<noteq> []"
proof -
  let ?G = "generate_nodes GRID_SIZE"
  have "lattice_node 3 (- 3) (- 3) (- 2) \<in> set ?G"
    by (simp add: in_generate_nodes GRID_SIZE_def)
       (rule bexI [of _ "- 3"], rule bexI [of _ "- 3"], rule bexI [of _ "- 2"], simp_all)
  then obtain a where a: "findNearestNode ?G 198 = Some a" "a \<in> set ?G" "frequency a = 198"
    using first_pick_frequency by (rule nearest_exact)
  have "lattice_node 3 0 0 0 \<in> set ?G"
    by (simp add: in_generate_nodes GRID_SIZE_def)
       (rule bexI [of _ 0], rule bexI [of _ 0], rule bexI [of _ 0], simp_all)
  moreover have "frequency (lattice_node 3 0 0 0) = 340"
    using calculateNodeFrequency_lattice [of 0 0 0] by simp
  ultimately obtain b where b: "findNearestNode ?G 340 = Some b" "b \<in> set ?G" "frequency b = 340"
    by (rule nearest_exact)
  from a(3) b(3) have "nid a \<noteq> nid b \<or> a \<noteq> b" by auto
  moreover have "inj_on nid (set ?G)"
    using grid_well_identified [of GRID_SIZE] by (simp add: well_identified_def distinct_map)
  ultimately have ab: "nid a \<noteq> nid b" using a(2) b(2) a(3) b(3) by (auto dest: inj_onD)
  from grid_well_identified [of GRID_SIZE] a(2) b(2) have "nid a \<noteq> []" "nid b \<noteq> []"
    by (simp_all add: well_identified_def)
  with a b ab show ?thesis by (intro that [of a b])
qed

definition fresh :: "real \<Rightarrow> string \<Rightarrow> particle_state" where
  \<comment> \<open>A particle as \<open>spawnParticle\<close> leaves it on the grid, with the frequency \<open>f\<close> and the id \<open>i\<close>.\<close>
  "fresh f i =
     (newParticle f (example_draws i))
       \<lparr>targetNodeId := id_or_null (findNearestNode (generate_nodes GRID_SIZE) f)\<rparr>"

definition twins :: sim_state where
  \<comment> \<open>The constructor at the time 0, then two particles spawned at the origin.\<close>
  "twins = spawnParticle (Some (vec 0 0 0)) (example_draws ''y'')
             (spawnParticle (Some (vec 0 0 0)) (example_draws ''x'')
                (constructor 0 (example_draws ''p'')))"

lemma fresh_fields [simp]:
  "pid (fresh f i) = i" "baseFrequency (fresh f i) = f" "locationalFrequency (fresh f i) = f"
  "harmonicFactor (fresh f i) = 1" "amplitude (fresh f i) = 4 / 10" "energyLevel (fresh f i) = 1 / 10"
  by (simp_all add: fresh_def newParticle_def example_draws_def DEFAULT_AMPLITUDE_def)

lemma retarget_fresh:
  "(fresh f i)\<lparr>targetNodeId := id_or_null (findNearestNode (generate_nodes GRID_SIZE) f)\<rparr> = fresh f i"
  by (simp add: fresh_def)

lemma constructor_particles: "particles (constructor 0 (example_draws i)) = [fresh 198 i]"
proof -
  have "length (particles (initializeNodes (fields_at 0))) < MAX_PARTICLES"
    by (simp add: initializeNodes_def fields_at_def MAX_PARTICLES_def)
  from spawnParticle_particles [OF this, of None "example_draws i"] show ?thesis
    by (simp add: constructor_def initializeNodes_def fields_at_def constructor_frequency fresh_def
          newParticle_def)
qed

lemma twins_fields [simp]:
  "nodes twins = generate_nodes GRID_SIZE" "clock twins = 0"
  "gridAngularVelocity twins = vec 0 0 0"
  by (simp_all add: twins_def)

lemma twins_particles: "particles twins = [fresh 198 ''p'', fresh 340 ''x'', fresh 340 ''y'']"
proof -
  let ?c = "constructor 0 (example_draws ''p'')"
  let ?x = "spawnParticle (Some (vec 0 0 0)) (example_draws ''x'') ?c"
  have l1: "length (particles ?c) < MAX_PARTICLES" by (simp add: MAX_PARTICLES_def)
  have x: "particles ?x = [fresh 198 ''p'', fresh 340 ''x'']"
    by (simp add: spawnParticle_particles [OF l1] constructor_particles spawn_frequency_def
          calculateNodeFrequency_origin retarget_fresh)
       (simp add: fresh_def newParticle_def)
  then have l2: "length (particles ?x) < MAX_PARTICLES" by (simp add: MAX_PARTICLES_def)
  show ?thesis unfolding twins_def
    by (simp add: spawnParticle_particles [OF l2] x spawn_frequency_def
          calculateNodeFrequency_origin retarget_fresh)
       (simp add: fresh_def newParticle_def)
qed

lemma reachable_twins: "reachable twins"
  unfolding twins_def by (intro r_step [OF _ s_spawn] r_init)

lemma calm_drift_fresh:
  assumes "100 \<le> f" "f \<le> 999"
  shows "drift_particle ns (multiplyScalar (97 / 100) (vec 0 0 0)) (mk_rnd (1 / 2)) (fresh f i) = fresh f i"
  using assms
  by (simp add: drift_particle_def Let_def multiplyScalar_def vec_def lengthSq_def mk_rnd.rep_eq
        fresh_def newParticle_def DEFAULT_AMPLITUDE_def)

lemma twins_drift_all: "drift_all calm_draws (rotate_grid twins) = particles twins"
  by (simp add: drift_all_def calm_draws_def twins_particles calm_drift_fresh)

lemma aimed_fresh:
  assumes "findNearestNode (generate_nodes GRID_SIZE) f = Some t" "nid t \<noteq> []"
  shows "(fresh f i)\<lparr>targetNodeId := Some (nid t)\<rparr> = fresh f i"
  using assms by (simp add: fresh_def id_or_null_def)

lemma twins_assigned:
  obtains a :: intersection_node and b where
    "findNearestNode (generate_nodes GRID_SIZE) 340 = Some b" "b \<in> set (generate_nodes GRID_SIZE)"
    "tick_assigned calm_draws twins = (particles twins, [(nid a, [''p'']), (nid b, [''x'', ''y''])])"
proof -
  obtain a b where ab:
    "findNearestNode (generate_nodes GRID_SIZE) 198 = Some a"
    "findNearestNode (generate_nodes GRID_SIZE) 340 = Some b"
    "a \<in> set (generate_nodes GRID_SIZE)" "b \<in> set (generate_nodes GRID_SIZE)"
    "nid a \<noteq> nid b" "nid a \<noteq> []" "nid b \<noteq> []"
    by (rule grid_nearest)
  have ta: "tick_assigned calm_draws twins = (particles twins, [(nid a, [''p'']), (nid b, [''x'', ''y''])])"
    unfolding tick_assigned_def Let_def twins_drift_all
    using ab(5)
    by (simp add: twins_particles assign_targets_step ab(1,2) aimed_fresh [OF ab(1,6)]
          aimed_fresh [OF ab(2,7)] del: assign_targets.simps(2))
  show ?thesis using ab(2) ab(4) ta by (rule that)
qed

lemma process_node_alone_locals:
  assumes "length (snd e) < 2"
  shows "snd (process_node e st) = snd st"
  using assms by (simp add: process_node_def Let_def split: option.splits)

lemma twins_refs: "collidingParticles (particles twins) [''x'', ''y''] = [1, 2]"
  by (simp add: collidingParticles_Cons twins_particles)

lemma twins_in_bounds: "\<forall>p \<in> set (particles twins). in_bounds p"
  by (simp add: twins_particles in_bounds_def)

lemma twins_distinct: "distinct (map pid (particles twins))"
  by (simp add: twins_particles)

lemma twins_collide:
  "amplitude (fst (collide (particles twins) [''x'', ''y'']) ! 1) = 46 / 100"
  "harmonicFactor (fst (collide (particles twins) [''x'', ''y'']) ! 1) = 132 / 100"
  "energyLevel (fst (collide (particles twins) [''x'', ''y'']) ! 1) = 3 / 10"
  "amplitude (fst (collide (particles twins) [''x'', ''y'']) ! 2) = 4645 / 10000"
  "harmonicFactor (fst (collide (particles twins) [''x'', ''y'']) ! 2) = 1344 / 1000"
  "energyLevel (fst (collide (particles twins) [''x'', ''y'']) ! 2) = 3 / 10"
  "fst (collide (particles twins) [''x'', ''y'']) ! 0 = fresh 198 ''p''"
  "map pid (fst (collide (particles twins) [''x'', ''y''])) = [''p'', ''x'', ''y'']"
proof -
  let ?upd = "particles twins"
  let ?after = "fst (collide ?upd [''x'', ''y''])"
  have h1: "distinct [''x'', ''y'']" by simp
  have h2: "set [''x'', ''y''] \<subseteq> pid ` set ?upd" by (simp add: twins_particles)
  have h3: "2 \<le> length [''x'', ''y'']" by simp
  note t = collide_each_occupant [OF h1 h2 h3 twins_in_bounds, unfolded Let_def twins_refs]
  note occ = t [THEN conjunct2, THEN conjunct2, THEN conjunct2, THEN conjunct2]
  from t have "\<forall>j < length ?upd. j \<notin> set [1, 2] \<longrightarrow> ?after ! j = ?upd ! j" by (elim conjE)
  from this [THEN spec, of 0] show "?after ! 0 = fresh 198 ''p''" by (simp add: twins_particles)
  show ids: "map pid ?after = [''p'', ''x'', ''y'']" by (simp add: collide_pids twins_particles)
  from ids [THEN arg_cong, of length] have len: "length ?after = 3" by simp
  from t have car: "map carried ?after = map carried ?upd" by (elim conjE)
  from occ [THEN spec, of 0]
  have a1: "harmonicFactor (?after ! 1) = harmonic_after (?upd ! 1) [?upd ! 2]"
    "amplitude (?after ! 1) = amplitude_after (?upd ! 1) [?upd ! 2]"
    "energyLevel (?after ! 1) = energy_after (?upd ! 1) [?upd ! 2]"
    by simp_all
  then show v1: "amplitude (?after ! 1) = 46 / 100" "harmonicFactor (?after ! 1) = 132 / 100"
    "energyLevel (?after ! 1) = 3 / 10"
    by (simp_all add: harmonic_after_def amplitude_after_def energy_after_def resonance_factor_def
          amplitude_factor_def mean_def twins_particles)
  note t2 = occ [THEN spec, of 1, simplified]
  from t2 have "\<forall>m<Suc (Suc 0).
         fst (resonate [Suc 0, 2] (Suc 0) (?upd, False)) ! ([Suc 0, 2] ! m) =
         (if m = 0 then ?after ! ([1, 2] ! m) else ?upd ! ([1, 2] ! m))"
    by blast
  from this [THEN spec, of 0]
  have "fst (resonate [Suc 0, 2] (Suc 0) (?upd, False)) ! Suc 0 = ?after ! 1" by simp
  with t2 have a2: "harmonicFactor (?after ! 2) = harmonic_after (?upd ! 2) [?after ! 1]"
    "amplitude (?after ! 2) = amplitude_after (?upd ! 2) [?after ! 1]"
    "energyLevel (?after ! 2) = energy_after (?upd ! 2) [?after ! 1]"
    by simp_all
  have b: "baseFrequency (?after ! 1) = 340"
    using car [THEN arg_cong, of "\<lambda>l. fst (snd (l ! 1))"] len
    by (simp add: carried_def twins_particles)
  have p2: "?upd ! 2 = fresh 340 ''y''" by (simp add: twins_particles)
  from a2 show "amplitude (?after ! 2) = 4645 / 10000" "harmonicFactor (?after ! 2) = 1344 / 1000"
    "energyLevel (?after ! 2) = 3 / 10"
    unfolding p2
    by (simp_all add: harmonic_after_def amplitude_after_def energy_after_def resonance_factor_def
          amplitude_factor_def mean_def v1 [unfolded One_nat_def] b [unfolded One_nat_def])
qed

lemma twins_no_supernova: "\<not> snd (collide (particles twins) [''x'', ''y''])"
proof -
  have h1: "distinct [''x'', ''y'']" by simp
  have h2: "set [''x'', ''y''] \<subseteq> pid ` set (particles twins)" by (simp add: twins_particles)
  have h3: "2 \<le> length [''x'', ''y'']" by simp
  show ?thesis
    unfolding collide_flag [OF h1 h2 h3] twins_refs
    by (simp add: twins_collide [unfolded One_nat_def])
qed

lemma twins_tick:
  "fst (tick_assigned calm_draws twins) = particles twins"
  "length (snd (tick_assigned calm_draws twins)) = 2"
  "snd (snd (tick_assigned calm_draws twins) ! 1) = [''x'', ''y'']"
  "updated (snd (loop_state_at calm_draws twins 1)) = particles twins"
  "updated (snd (tick_loop calm_draws twins)) = fst (collide (particles twins) [''x'', ''y''])"
  "particleIdsToRemove (snd (tick_loop calm_draws twins)) = {}"
  "particles (processFieldDynamics calm_draws twins) = fst (collide (particles twins) [''x'', ''y''])"
proof -
  obtain a :: intersection_node and b where b: "b \<in> set (generate_nodes GRID_SIZE)"
    and ta: "tick_assigned calm_draws twins = (particles twins, [(nid a, [''p'']), (nid b, [''x'', ''y''])])"
    using twins_assigned by blast
  let ?l0 = "\<lparr>updated = particles twins, particleIdsToRemove = {}, explosionsToProcess = 0\<rparr>"
  let ?st0 = "(rotate_grid twins, ?l0)"
  let ?st1 = "process_node (nid a, [''p'']) ?st0"
  let ?after = "fst (collide (particles twins) [''x'', ''y''])"
  show "fst (tick_assigned calm_draws twins) = particles twins" by (simp add: ta)
  show "length (snd (tick_assigned calm_draws twins)) = 2" by (simp add: ta)
  show "snd (snd (tick_assigned calm_draws twins) ! 1) = [''x'', ''y'']" by (simp add: ta)
  have l1: "snd ?st1 = ?l0" using process_node_alone_locals [of "(nid a, [''p''])" ?st0] by simp
  then show "updated (snd (loop_state_at calm_draws twins 1)) = particles twins"
    by (simp add: loop_state_at_def ta)
  have "\<exists>n \<in> set (nodes (fst ?st1)). nid n = nid b" using b by auto
  then obtain node where node: "find (\<lambda>n. nid n = nid b) (nodes (fst ?st1)) = Some node"
    by (rule find_node_by_id)
  have two: "1 < length [''x'', ''y'']" by simp
  have st1: "?st1 = (fst ?st1, ?l0)" using l1 by (metis prod.collapse)
  have loop: "tick_loop calm_draws twins = process_node (nid b, [''x'', ''y'']) (fst ?st1, ?l0)"
    unfolding tick_loop_def Let_def ta using st1 by simp
  note found = process_node_found [OF node two, of ?l0, unfolded Let_def]
  have l2: "snd (tick_loop calm_draws twins) = ?l0\<lparr>updated := ?after\<rparr>"
    unfolding loop found using twins_no_supernova by simp
  then show u: "updated (snd (tick_loop calm_draws twins)) = ?after" by simp
  from l2 show m: "particleIdsToRemove (snd (tick_loop calm_draws twins)) = {}" by simp
  have c: "particles (tick_core calm_draws twins) = ?after"
    by (simp add: tick_core_particles u m)
  have "length ?after = 3" using twins_collide(8) [THEN arg_cong, of length] by simp
  with c show "particles (processFieldDynamics calm_draws twins) = ?after"
    by (simp add: processFieldDynamics_def Let_def)
qed

theorem collision_updates_each_occupant_once_witness:
  "reachable twins \<and> distinct (map pid (particles twins)) \<and>
   in_bounds (particles twins ! 0) \<and> in_bounds (particles twins ! 1) \<and> in_bounds (particles twins ! 2) \<and>
   length (particles twins) = 3 \<and>
   1 < length (snd (tick_assigned calm_draws twins)) \<and>
   snd (snd (tick_assigned calm_draws twins) ! 1) = [''x'', ''y''] \<and>
   collidingParticles (updated (snd (loop_state_at calm_draws twins 1))) [''x'', ''y''] = [1, 2] \<and>
   amplitude (fst (tick_assigned calm_draws twins) ! 1) = 4 / 10 \<and>
   amplitude (fst (tick_assigned calm_draws twins) ! 2) = 4 / 10 \<and>
   amplitude (updated (snd (tick_loop calm_draws twins)) ! 1) = 46 / 100 \<and>
   harmonicFactor (updated (snd (tick_loop calm_draws twins)) ! 1) = 132 / 100 \<and>
   energyLevel (updated (snd (tick_loop calm_draws twins)) ! 1) = 3 / 10 \<and>
   amplitude (updated (snd (tick_loop calm_draws twins)) ! 2) = 4645 / 10000 \<and>
   harmonicFactor (updated (snd (tick_loop calm_draws twins)) ! 2) = 1344 / 1000 \<and>
   energyLevel (updated (snd (tick_loop calm_draws twins)) ! 2) = 3 / 10 \<and>
   map pid (particles (tick_core calm_draws twins)) = [''p'', ''x'', ''y'']"
proof -
  let ?occ = "snd (tick_assigned calm_draws twins)"
  let ?upd = "updated (snd (loop_state_at calm_draws twins 1))"
  let ?after = "fst (collide ?upd [''x'', ''y''])"
  let ?final = "updated (snd (tick_loop calm_draws twins))"
  have r: "reachable twins" by (rule reachable_twins)
  have h1: "distinct (map pid (particles twins))" by (rule twins_distinct)
  have h2: "\<forall>p \<in> set (particles twins). in_bounds p" by (rule twins_in_bounds)
  have b: "in_bounds (particles twins ! 0)" "in_bounds (particles twins ! 1)"
    "in_bounds (particles twins ! 2)" "length (particles twins) = 3"
    using h2 by (simp_all add: twins_particles)
  have h3: "1 < length ?occ" by (simp add: twins_tick(2))
  have h4: "?occ ! 1 = (fst (?occ ! 1), [''x'', ''y''])"
    using twins_tick(3) by (metis prod.collapse)
  have refs: "collidingParticles ?upd [''x'', ''y''] = [1, 2]"
    by (simp only: twins_tick(4) twins_refs)
  have a0: "amplitude (fst (tick_assigned calm_draws twins) ! 1) = 4 / 10"
    "amplitude (fst (tick_assigned calm_draws twins) ! 2) = 4 / 10"
    by (simp_all add: twins_tick(1) twins_particles)
  note t = collision_updates_each_occupant_once [OF h1 disjI1 [OF r] h3 h4, unfolded Let_def refs]
  from t have occ: "\<forall>m < length [''x'', ''y''].
           [1, 2] ! m < length ?upd \<and> pid (?upd ! ([1, 2] ! m)) = [''x'', ''y''] ! m \<and>
           ?upd ! ([1, 2] ! m) = fst (tick_assigned calm_draws twins) ! ([1, 2] ! m) \<and>
           ?final ! ([1, 2] ! m) =
             updated (snd (process_node (fst (?occ ! 1), [''x'', ''y'']) (loop_state_at calm_draws twins 1)))
               ! ([1, 2] ! m)"
    by (elim conjE)
  from t have two: "2 \<le> length [''x'', ''y''] \<longrightarrow>
      updated (snd (process_node (fst (?occ ! 1), [''x'', ''y'']) (loop_state_at calm_draws twins 1))) = ?after \<and>
      map carried ?after = map carried ?upd \<and>
      (\<forall>j < length ?upd. j \<notin> set [1, 2] \<longrightarrow> ?after ! j = ?upd ! j) \<and>
      (\<forall>m < length [''x'', ''y''].
          length (map ((!) (fst (fold (resonate [1, 2]) (take m [1, 2]) (?upd, False))))
                    (removeAll ([1, 2] ! m) [1, 2])) = length [''x'', ''y''] - 1 \<and>
          (\<forall>i < length [''x'', ''y''].
              fst (fold (resonate [1, 2]) (take m [1, 2]) (?upd, False)) ! ([1, 2] ! i) =
                (if i < m then ?after ! ([1, 2] ! i) else ?upd ! ([1, 2] ! i))) \<and>
          harmonicFactor (?after ! ([1, 2] ! m)) =
            harmonic_after (?upd ! ([1, 2] ! m))
              (map ((!) (fst (fold (resonate [1, 2]) (take m [1, 2]) (?upd, False))))
                 (removeAll ([1, 2] ! m) [1, 2])) \<and>
          amplitude (?after ! ([1, 2] ! m)) =
            amplitude_after (?upd ! ([1, 2] ! m))
              (map ((!) (fst (fold (resonate [1, 2]) (take m [1, 2]) (?upd, False))))
                 (removeAll ([1, 2] ! m) [1, 2])) \<and>
          energyLevel (?after ! ([1, 2] ! m)) =
            energy_after (?upd ! ([1, 2] ! m))
              (map ((!) (fst (fold (resonate [1, 2]) (take m [1, 2]) (?upd, False))))
                 (removeAll ([1, 2] ! m) [1, 2])) \<and>
          harmonicFactor (?upd ! ([1, 2] ! m)) \<le> harmonicFactor (?after ! ([1, 2] ! m)) \<and>
          amplitude (?upd ! ([1, 2] ! m)) \<le> amplitude (?after ! ([1, 2] ! m)) \<and>
          energyLevel (?upd ! ([1, 2] ! m)) \<le> energyLevel (?after ! ([1, 2] ! m)))"
    by (elim conjE)
  from t have core: "particles (tick_core calm_draws twins) =
      filter (\<lambda>p. pid p \<notin> particleIdsToRemove (snd (tick_loop calm_draws twins))) ?final"
    by (elim conjE)
  from occ [THEN spec, of 0] occ [THEN spec, of 1]
  have u: "?upd ! 1 = fresh 340 ''x''" "?upd ! 2 = fresh 340 ''y''"
    by (simp_all add: twins_tick(1) twins_particles)
  from two have stored: "updated (snd (process_node (fst (?occ ! 1), [''x'', ''y''])
      (loop_state_at calm_draws twins 1))) = ?after" by simp
  from occ [THEN spec, of 0] occ [THEN spec, of 1]
  have fin: "?final ! 1 = ?after ! 1" "?final ! 2 = ?after ! 2"
    by (simp_all add: stored [unfolded One_nat_def])
  note each = two [rule_format, OF _, THEN conjunct2, THEN conjunct2, THEN conjunct2, rule_format]
  have v1: "harmonicFactor (?after ! 1) = 132 / 100" "amplitude (?after ! 1) = 46 / 100"
    "energyLevel (?after ! 1) = 3 / 10"
    using each [of 0]
    by (simp_all add: u [unfolded One_nat_def] harmonic_after_def amplitude_after_def energy_after_def
          resonance_factor_def amplitude_factor_def mean_def)
  have upd_eq: "?upd = particles twins" by (rule twins_tick(4))
  have bf: "baseFrequency (?after ! 1) = 340"
  proof -
    from two have car: "map carried ?after = map carried ?upd" by simp
    have la: "length ?after = 3"
      unfolding upd_eq using twins_collide(8) [THEN arg_cong, of length] by simp
    have lu: "length ?upd = 3" unfolding upd_eq by (simp add: twins_particles)
    from car have "map carried ?after ! 1 = map carried ?upd ! 1" by (rule arg_cong)
    then have "carried (?after ! 1) = carried (?upd ! 1)" using la lu by simp
    then show ?thesis by (simp add: carried_def u [unfolded One_nat_def])
  qed
  have before: "fst (resonate [Suc 0, 2] (Suc 0) (?upd, False)) ! Suc 0 = ?after ! Suc 0"
    using each [of 1, THEN conjunct2, THEN conjunct1, THEN spec, of 0] by simp
  have v2: "harmonicFactor (?after ! 2) = 1344 / 1000" "amplitude (?after ! 2) = 4645 / 10000"
    "energyLevel (?after ! 2) = 3 / 10"
    using each [of 1]
    by (simp_all add: u [unfolded One_nat_def] before [unfolded One_nat_def]
          v1 [unfolded One_nat_def] bf [unfolded One_nat_def]
          harmonic_after_def amplitude_after_def energy_after_def
          resonance_factor_def amplitude_factor_def mean_def)
  have ids: "map pid (particles (tick_core calm_draws twins)) = [''p'', ''x'', ''y'']"
    unfolding core by (simp add: twins_tick(5,6) twins_collide(8))
  have w1: "amplitude (?final ! 1) = 46 / 100" "harmonicFactor (?final ! 1) = 132 / 100"
    "energyLevel (?final ! 1) = 3 / 10"
    unfolding fin(1) by (rule v1(2), rule v1(1), rule v1(3))
  have w2: "amplitude (?final ! 2) = 4645 / 10000" "harmonicFactor (?final ! 2) = 1344 / 1000"
    "energyLevel (?final ! 2) = 3 / 10"
    unfolding fin(2) by (rule v2(2), rule v2(1), rule v2(3))
  show ?thesis by (intro conjI r h1 b h3 twins_tick(3) refs a0 w1 w2 ids)
qed

text \<open>
  The order of the occupants matters. \<open>x\<close> and \<open>y\<close> enter the collision alike in every
  attribute the formulas read, at the same node. With the means taken over the other
  occupant as it was when the collision began, the specification's formulas give both
  the amplitude 0.46 and the harmonic factor 1.32. The tick gives these to \<open>x\<close>, the first
  of the occupancy list, and to \<open>y\<close> the amplitude 0.4645 and the harmonic factor 1.344,
  from the amplitude that \<open>x\<close> has just been given.
\<close>

theorem later_occupant_reads_updated_amplitude:
  "reachable twins \<and>
   map pid (fst (tick_assigned calm_draws twins)) = [''p'', ''x'', ''y''] \<and>
   snd (snd (tick_assigned calm_draws twins) ! 1) = [''x'', ''y''] \<and>
   measured (fst (tick_assigned calm_draws twins) ! 1) = measured (fst (tick_assigned calm_draws twins) ! 2) \<and>
   baseFrequency (fst (tick_assigned calm_draws twins) ! 1) =
     baseFrequency (fst (tick_assigned calm_draws twins) ! 2) \<and>
   amplitude_after (fst (tick_assigned calm_draws twins) ! 1) [fst (tick_assigned calm_draws twins) ! 2]
     = 46 / 100 \<and>
   amplitude_after (fst (tick_assigned calm_draws twins) ! 2) [fst (tick_assigned calm_draws twins) ! 1]
     = 46 / 100 \<and>
   harmonic_after (fst (tick_assigned calm_draws twins) ! 2) [fst (tick_assigned calm_draws twins) ! 1]
     = 132 / 100 \<and>
   map pid (particles (processFieldDynamics calm_draws twins)) = [''p'', ''x'', ''y''] \<and>
   amplitude (particles (processFieldDynamics calm_draws twins) ! 1) = 46 / 100 \<and>
   harmonicFactor (particles (processFieldDynamics calm_draws twins) ! 1) = 132 / 100 \<and>
   amplitude (particles (processFieldDynamics calm_draws twins) ! 2) = 4645 / 10000 \<and>
   harmonicFactor (particles (processFieldDynamics calm_draws twins) ! 2) = 1344 / 1000"
proof -
  have a: "map pid (fst (tick_assigned calm_draws twins)) = [''p'', ''x'', ''y'']"
    "measured (fst (tick_assigned calm_draws twins) ! 1) = measured (fst (tick_assigned calm_draws twins) ! 2)"
    "baseFrequency (fst (tick_assigned calm_draws twins) ! 1) =
       baseFrequency (fst (tick_assigned calm_draws twins) ! 2)"
    by (simp_all add: twins_tick(1) twins_particles measured_def)
  have f: "amplitude_after (fst (tick_assigned calm_draws twins) ! 1) [fst (tick_assigned calm_draws twins) ! 2]
     = 46 / 100"
    "amplitude_after (fst (tick_assigned calm_draws twins) ! 2) [fst (tick_assigned calm_draws twins) ! 1]
     = 46 / 100"
    "harmonic_after (fst (tick_assigned calm_draws twins) ! 2) [fst (tick_assigned calm_draws twins) ! 1]
     = 132 / 100"
    by (simp_all add: twins_tick(1) twins_particles harmonic_after_def amplitude_after_def
          resonance_factor_def amplitude_factor_def mean_def)
  note v = twins_collide [folded twins_tick(7)]
  from reachable_twins a twins_tick(3) f v(8) v(1) v(2) v(4) v(5) show ?thesis by simp
qed

end
